(* ===== verification/Go_Prelude.thy ===== *)
theory Go_Prelude
  imports Main "HOL-Library.Word" "HOL-Library.Multiset" "HOL-Library.Char_ord" "HOL-Library.List_Lexorder"
begin

text \<open>
  What the component theories share: Go strings as lists of bytes (\<^typ>\<open>string\<close>, one
  \<^typ>\<open>char\<close> per byte, which is what Go's \<open>len\<close> and indexing count), the functions
  of Go's \<open>strings\<close>, \<open>strconv\<close> and \<open>unicode\<close> packages that the sources call, Go results
  (a value, an error, or a run-time panic), and the order in which Go's \<open>range\<close> visits a map.
  The collection \<open>go_str\<close> holds the rewrite rules for the string functions.
\<close>

named_theorems go_str

section \<open>Results\<close>

text \<open>
  A Go call returns a value, returns a non-nil error, panics at run time, or does not return.
\<close>

datatype 'a go_result = Ok 'a | Err string | Panic | Loops

fun go_bind :: "'a go_result \<Rightarrow> ('a \<Rightarrow> 'b go_result) \<Rightarrow> 'b go_result" where
  "go_bind (Ok a) f = f a"
| "go_bind (Err e) f = Err e"
| "go_bind Panic f = Panic"
| "go_bind Loops f = Loops"

text \<open>A caller that goes on with a default when the call returned an error.\<close>

fun or_else :: "'a go_result \<Rightarrow> 'a \<Rightarrow> 'a go_result" where
  "or_else (Err e) d = Ok d"
| "or_else r d = r"

text \<open>The outcome of a loop that may not end.\<close>

definition returned :: "'a go_result option \<Rightarrow> 'a go_result" where
  "returned r = (case r of None \<Rightarrow> Loops | Some x \<Rightarrow> x)"

lemma returned_simps [simp]: "returned None = Loops" "returned (Some x) = x"
  by (simp_all add: returned_def)

text \<open>A loop over a slice whose body may fail, threading a state.\<close>

fun go_fold :: "('b \<Rightarrow> 'a \<Rightarrow> 'a go_result) \<Rightarrow> 'b list \<Rightarrow> 'a \<Rightarrow> 'a go_result" where
  "go_fold f [] a = Ok a"
| "go_fold f (x # xs) a = go_bind (f x a) (go_fold f xs)"

fun is_ok :: "'a go_result \<Rightarrow> bool" where
  "is_ok (Ok _) = True"
| "is_ok _ = False"

lemma go_bind_Ok_iff [simp]: "go_bind r f = Ok b \<longleftrightarrow> (\<exists>a. r = Ok a \<and> f a = Ok b)"
  by (cases r) auto

lemma go_bind_cong [fundef_cong]:
  "r = r' \<Longrightarrow> (\<And>a. r' = Ok a \<Longrightarrow> f a = f' a) \<Longrightarrow> go_bind r f = go_bind r' f'"
  by (cases r') auto

lemma or_else_Ok_iff: "or_else r d = Ok a \<longleftrightarrow> r = Ok a \<or> (\<exists>e. r = Err e) \<and> a = d"
  by (cases r) auto

lemma go_bind_assoc: "go_bind (go_bind r f) g = go_bind r (\<lambda>a. go_bind (f a) g)"
  by (cases r) auto

lemma go_fold_append: "go_fold f (xs @ ys) a = go_bind (go_fold f xs a) (go_fold f ys)"
  by (induction xs arbitrary: a) (auto simp: go_bind_assoc intro!: go_bind_cong)

lemma go_fold_cong [fundef_cong]:
  "xs = ys \<Longrightarrow> a = b \<Longrightarrow> (\<And>y c. y \<in> set ys \<Longrightarrow> f y c = g y c) \<Longrightarrow> go_fold f xs a = go_fold g ys b"
  by (induction ys arbitrary: xs a b) (auto intro: go_bind_cong)

lemma go_fold_Ok: "(\<And>x a. x \<in> set xs \<Longrightarrow> f x a = Ok (g x a)) \<Longrightarrow> go_fold f xs a = Ok (fold g xs a)"
  by (induction xs arbitrary: a) auto

section \<open>White space\<close>

text \<open>
  \<open>unicode.IsSpace(rune(b))\<close> for one byte \<open>b\<close>: the Latin-1 white space. Two of the eight
  values, 0x85 and 0xA0, are bytes that also occur inside the UTF-8 encoding of other letters.
\<close>

definition is_space_byte :: "char \<Rightarrow> bool" where
  "is_space_byte c \<longleftrightarrow>
     (let n = (of_char c :: nat) in (9 \<le> n \<and> n \<le> 13) \<or> n = 32 \<or> n = 133 \<or> n = 160)"

text \<open>
  The UTF-8 encodings of the runes with property \<open>White_Space\<close>: what \<open>strings.TrimSpace\<close>
  and \<open>strings.Fields\<close> treat as white space (they decode runes, \<open>is_space_byte\<close> does not).
\<close>

definition space_encodings :: "string list" where
  "space_encodings =
     [[CHR 0x09], [CHR 0x0A], [CHR 0x0B], [CHR 0x0C], [CHR 0x0D], [CHR 0x20],
      [CHR 0xC2, CHR 0x85], [CHR 0xC2, CHR 0xA0], [CHR 0xE1, CHR 0x9A, CHR 0x80]]
     @ map (\<lambda>n. [CHR 0xE2, CHR 0x80, char_of n]) [128..<139]
     @ [[CHR 0xE2, CHR 0x80, CHR 0xA8], [CHR 0xE2, CHR 0x80, CHR 0xA9],
        [CHR 0xE2, CHR 0x80, CHR 0xAF], [CHR 0xE2, CHR 0x81, CHR 0x9F],
        [CHR 0xE3, CHR 0x80, CHR 0x80]]"

section \<open>Prefixes, search, splitting and joining\<close>

text \<open>\<open>strings.HasPrefix(s, p)\<close>, \<open>strings.TrimPrefix(s, p)\<close>.\<close>

definition has_prefix :: "string \<Rightarrow> string \<Rightarrow> bool" where
  "has_prefix s p \<longleftrightarrow> take (length p) s = p"

definition trim_prefix :: "string \<Rightarrow> string \<Rightarrow> string" where
  "trim_prefix s p = (if has_prefix s p then drop (length p) s else s)"

text \<open>\<open>strings.Index(s, p)\<close>, with \<^const>\<open>None\<close> for -1, and \<open>strings.Contains\<close>.\<close>

fun str_index :: "string \<Rightarrow> string \<Rightarrow> nat option" where
  "str_index [] p = (if p = [] then Some 0 else None)"
| "str_index (c # cs) p =
     (if has_prefix (c # cs) p then Some 0 else map_option Suc (str_index cs p))"

definition str_contains :: "string \<Rightarrow> string \<Rightarrow> bool" where
  "str_contains s p \<longleftrightarrow> str_index s p \<noteq> None"

text \<open>\<open>strings.Split(s, sep)\<close> and \<open>strings.SplitN(s, sep, 2)\<close> for a separator of one byte.\<close>

fun split_on :: "char \<Rightarrow> string \<Rightarrow> string list" where
  "split_on c [] = [[]]"
| "split_on c (x # xs) =
     (if x = c then [] # split_on c xs
      else (case split_on c xs of [] \<Rightarrow> [[x]] | w # ws \<Rightarrow> (x # w) # ws))"

definition split_n2 :: "char \<Rightarrow> string \<Rightarrow> string list" where
  "split_n2 c s =
     (if c \<in> set s then [takeWhile (\<lambda>x. x \<noteq> c) s, tl (dropWhile (\<lambda>x. x \<noteq> c) s)] else [s])"

text \<open>\<open>strings.Join(ws, sep)\<close>.\<close>

fun join :: "string \<Rightarrow> string list \<Rightarrow> string" where
  "join sep [] = []"
| "join sep [w] = w"
| "join sep (w # v # ws) = w @ sep @ join sep (v # ws)"

text \<open>
  \<open>strings.TrimSpace\<close> and \<open>strings.Fields\<close>: \<open>space_len s\<close> is the length of the white-space
  rune at the front of \<open>s\<close>, 0 if there is none.
\<close>

definition space_len :: "string \<Rightarrow> nat" where
  "space_len s = (case find (has_prefix s) space_encodings of None \<Rightarrow> 0 | Some e \<Rightarrow> length e)"

function trim_left :: "string \<Rightarrow> string" where
  "trim_left s = (if s = [] \<or> space_len s = 0 then s else trim_left (drop (space_len s) s))"
  by pat_completeness auto
termination
  by (relation "measure length") auto

definition space_len_end :: "string \<Rightarrow> nat" where
  "space_len_end r =
     (case find (\<lambda>e. has_prefix r (rev e)) space_encodings of None \<Rightarrow> 0 | Some e \<Rightarrow> length e)"

function trim_right_rev :: "string \<Rightarrow> string" where
  "trim_right_rev r =
     (if r = [] \<or> space_len_end r = 0 then r else trim_right_rev (drop (space_len_end r) r))"
  by pat_completeness auto
termination
  by (relation "measure length") auto

declare trim_left.simps [simp del] trim_right_rev.simps [simp del]

definition trim_space :: "string \<Rightarrow> string" where
  "trim_space s = rev (trim_right_rev (rev (trim_left s)))"

text \<open>The non-empty runs of bytes between white-space runes; \<open>w\<close> is the current run, reversed.\<close>

function fields_from :: "string \<Rightarrow> string \<Rightarrow> string list" where
  "fields_from w [] = (if w = [] then [] else [rev w])"
| "fields_from w (c # cs) =
     (if space_len (c # cs) = 0 then fields_from (c # w) cs
      else (if w = [] then [] else [rev w]) @ fields_from [] (drop (space_len (c # cs)) (c # cs)))"
  by pat_completeness auto
termination
  by (relation "measure (\<lambda>(w, s). length s)") auto

definition str_fields :: "string \<Rightarrow> string list" where
  "str_fields s = fields_from [] s"

section \<open>Numbers\<close>

text \<open>Go's \<open>int\<close> and \<open>int64\<close> are 64 bits wide; \<open>wrap64\<close> is the wrap-around of its arithmetic.\<close>

definition max_int :: int where "max_int = 9223372036854775807"
definition min_int :: int where "min_int = - 9223372036854775808"

definition in_int64 :: "int \<Rightarrow> bool" where
  "in_int64 i \<longleftrightarrow> min_int \<le> i \<and> i \<le> max_int"

definition wrap64 :: "int \<Rightarrow> int" where
  "wrap64 i = (i + 9223372036854775808) mod 18446744073709551616 - 9223372036854775808"

text \<open>\<open>fmt.Sprintf("%d", i)\<close> and \<open>strconv.Atoi\<close>, with \<^const>\<open>None\<close> for an error.\<close>

fun digits :: "nat \<Rightarrow> string" where
  "digits n =
     (if n < 10 then [char_of (48 + n)] else digits (n div 10) @ [char_of (48 + n mod 10)])"

declare digits.simps [simp del]

definition itoa :: "int \<Rightarrow> string" where
  "itoa i = (if i < 0 then CHR ''-'' # digits (nat (- i)) else digits (nat i))"

definition digit_val :: "char \<Rightarrow> nat option" where
  "digit_val c = (let n = (of_char c :: nat) in if 48 \<le> n \<and> n \<le> 57 then Some (n - 48) else None)"

fun parse_digits :: "nat \<Rightarrow> string \<Rightarrow> nat option" where
  "parse_digits acc [] = Some acc"
| "parse_digits acc (c # cs) =
     (case digit_val c of None \<Rightarrow> None | Some d \<Rightarrow> parse_digits (10 * acc + d) cs)"

definition sign_split :: "string \<Rightarrow> bool \<times> string" where
  "sign_split s =
     (case s of [] \<Rightarrow> (False, [])
      | c # cs \<Rightarrow> if c = CHR ''-'' then (True, cs) else if c = CHR ''+'' then (False, cs) else (False, s))"

definition atoi :: "string \<Rightarrow> int option" where
  "atoi s =
     (case sign_split s of (neg, ds) \<Rightarrow>
        if ds = [] then None
        else (case parse_digits 0 ds of None \<Rightarrow> None
              | Some n \<Rightarrow> (let v = (if neg then - int n else int n)
                          in if in_int64 v then Some v else None)))"

text \<open>\<open>strconv.ParseBool\<close>.\<close>

definition parse_bool :: "string \<Rightarrow> bool option" where
  "parse_bool s =
     (if s \<in> {''1'', ''t'', ''T'', ''TRUE'', ''true'', ''True''} then Some True
      else if s \<in> {''0'', ''f'', ''F'', ''FALSE'', ''false'', ''False''} then Some False
      else None)"

text \<open>
  \<open>strings.ToLower\<close> and \<open>strings.ToUpper\<close> on ASCII letters; bytes above 0x7F, which occur only
  inside non-ASCII runes, are kept.
\<close>

definition lower_char :: "char \<Rightarrow> char" where
  "lower_char c = (let n = (of_char c :: nat) in if 65 \<le> n \<and> n \<le> 90 then char_of (n + 32) else c)"

definition upper_char :: "char \<Rightarrow> char" where
  "upper_char c = (let n = (of_char c :: nat) in if 97 \<le> n \<and> n \<le> 122 then char_of (n - 32) else c)"

definition to_lower :: "string \<Rightarrow> string" where "to_lower s = map lower_char s"
definition to_upper :: "string \<Rightarrow> string" where "to_upper s = map upper_char s"

section \<open>Lemmas\<close>

lemma has_prefix_iff [go_str]: "has_prefix s p \<longleftrightarrow> (\<exists>t. s = p @ t)"
  by (metis append_eq_conv_conj append_take_drop_id has_prefix_def)

lemma has_prefix_simps [simp]:
  "has_prefix s []"
  "\<not> has_prefix [] (c # p)"
  "has_prefix (c # s) (d # p) \<longleftrightarrow> c = d \<and> has_prefix s p"
  by (auto simp: has_prefix_def)

lemma has_prefix_append [simp]: "has_prefix (p @ s) p"
  by (simp add: has_prefix_def)

lemma has_prefix_length: "has_prefix s p \<Longrightarrow> length p \<le> length s"
  by (auto simp: has_prefix_iff)

lemma str_index_Some:
  "str_index s p = Some i \<Longrightarrow> i + length p \<le> length s \<and> take (length p) (drop i s) = p"
proof (induction s arbitrary: i)
  case Nil
  then show ?case by (auto split: if_splits)
next
  case (Cons c cs)
  then show ?case
    by (cases "has_prefix (c # cs) p") (auto simp: has_prefix_def dest: arg_cong [of _ _ length])
qed

lemma str_index_None: "str_index s p = None \<Longrightarrow> \<not> has_prefix (drop i s) p"
proof (induction s arbitrary: i)
  case Nil
  then show ?case by (cases p) (auto split: if_splits)
next
  case (Cons c cs)
  then show ?case by (cases i) (auto split: if_splits)
qed

lemma str_index_first: "str_index s p = Some i \<Longrightarrow> j < i \<Longrightarrow> \<not> has_prefix (drop j s) p"
proof (induction s arbitrary: i j)
  case Nil
  then show ?case by (auto split: if_splits)
next
  case (Cons c cs)
  then show ?case by (cases j) (auto split: if_splits)
qed

lemma split_on_ne [simp]: "split_on c s \<noteq> []"
  by (induction s) (auto split: list.splits)

lemma join_Cons: "ws \<noteq> [] \<Longrightarrow> join sep (w # ws) = w @ sep @ join sep ws"
  by (cases ws) auto

lemma join_Cons_Cons: "join sep ((x # w) # ws) = x # join sep (w # ws)"
  by (cases ws) auto

lemma join_split_on [simp]: "join [c] (split_on c s) = s"
proof (induction s)
  case (Cons x xs)
  then show ?case
    by (cases "split_on c xs" rule: list.exhaust)
      (auto simp: join_Cons join_Cons_Cons split: list.splits)
qed simp

lemma split_on_no_sep: "w \<in> set (split_on c s) \<Longrightarrow> c \<notin> set w"
proof (induction s arbitrary: w)
  case (Cons x xs)
  then show ?case by (auto split: if_splits list.splits)
qed simp

lemma split_on_append:
  "c \<notin> set w \<Longrightarrow> split_on c (w @ c # s) = w # split_on c s"
  by (induction w) auto

lemma split_on_id: "c \<notin> set w \<Longrightarrow> split_on c w = [w]"
  by (induction w) auto

lemma split_on_join:
  "ws \<noteq> [] \<Longrightarrow> \<forall>w \<in> set ws. c \<notin> set w \<Longrightarrow> split_on c (join [c] ws) = ws"
proof (induction ws)
  case (Cons w ws)
  then show ?case
    by (cases ws) (auto simp: split_on_append split_on_id)
qed simp

lemma length_trim_left: "length (trim_left s) \<le> length s"
proof (induction s rule: trim_left.induct)
  case (1 s)
  then show ?case
    by (cases "s = [] \<or> space_len s = 0") (auto simp: trim_left.simps [of s])
qed

lemma digit_val_of: "n < 10 \<Longrightarrow> digit_val (char_of (48 + n)) = Some n"
  by (simp add: digit_val_def Let_def)

lemma parse_digits_append:
  "parse_digits acc (xs @ ys) =
     (case parse_digits acc xs of None \<Rightarrow> None | Some n \<Rightarrow> parse_digits n ys)"
  by (induction xs arbitrary: acc) (auto split: option.splits)

lemma digits_ne [simp]: "digits n \<noteq> []"
  by (subst digits.simps) auto

lemma parse_digits_digits: "parse_digits 0 (digits n) = Some n"
proof (induction n rule: digits.induct)
  case (1 n)
  show ?case
  proof (cases "n < 10")
    case True
    then show ?thesis by (subst digits.simps) (simp add: digit_val_of)
  next
    case False
    then have "digits n = digits (n div 10) @ [char_of (48 + n mod 10)]"
      by (subst digits.simps) simp
    with 1 False show ?thesis by (simp add: parse_digits_append digit_val_of)
  qed
qed

lemma digit_char_ne:
  assumes "(n :: nat) < 10"
  shows "char_of (48 + n) \<noteq> CHR ''-''" and "char_of (48 + n) \<noteq> CHR ''+''"
proof -
  have "digit_val CHR ''-'' = None" "digit_val CHR ''+'' = None"
    by (simp_all add: digit_val_def Let_def)
  then show "char_of (48 + n) \<noteq> CHR ''-''" "char_of (48 + n) \<noteq> CHR ''+''"
    using digit_val_of [OF assms] by auto
qed

lemma hd_digits: "hd (digits n) \<noteq> CHR ''-'' \<and> hd (digits n) \<noteq> CHR ''+''"
proof (induction n rule: digits.induct)
  case (1 n)
  show ?case
  proof (cases "n < 10")
    case True
    then show ?thesis using digit_char_ne [OF True] by (subst (1 2) digits.simps) simp
  next
    case False
    then have "digits n = digits (n div 10) @ [char_of (48 + n mod 10)]"
      by (subst digits.simps) simp
    with 1 False show ?thesis by (simp add: hd_append)
  qed
qed

lemma sign_split_digits: "sign_split (digits n) = (False, digits n)"
  using hd_digits [of n] by (cases "digits n") (auto simp: sign_split_def)

text \<open>Printing a number and parsing it gives it back.\<close>

lemma atoi_itoa [simp]: "in_int64 i \<Longrightarrow> atoi (itoa i) = Some i"
proof (cases "i < 0")
  case True
  moreover assume "in_int64 i"
  ultimately show ?thesis
    by (simp add: atoi_def itoa_def sign_split_def parse_digits_digits Let_def)
next
  case False
  moreover assume "in_int64 i"
  ultimately show ?thesis
    by (simp add: atoi_def itoa_def sign_split_digits parse_digits_digits Let_def)
qed

lemma atoi_in_int64: "atoi s = Some i \<Longrightarrow> in_int64 i"
  by (auto simp: atoi_def Let_def split: prod.splits if_splits option.splits)

lemma wrap64_id [simp]: "in_int64 i \<Longrightarrow> wrap64 i = i"
  by (simp add: wrap64_def in_int64_def min_int_def max_int_def)

lemma wrap64_in_int64 [simp]: "in_int64 (wrap64 i)"
proof -
  have "0 \<le> (i + 9223372036854775808) mod 18446744073709551616"
    "(i + 9223372036854775808) mod 18446744073709551616 < 18446744073709551616"
    by simp_all
  then show ?thesis by (simp add: wrap64_def in_int64_def min_int_def max_int_def)
qed

end
