(* ===== verification/Command_Parser.thy ===== *)
theory Command_Parser
  imports Go_Prelude "HOL-Library.Sublist"
begin

text \<open>
  \<open>process/command_parser.go\<close>: the splitting of a program's \<open>command\<close> line into arguments,
  and the commands built from it. Positions are byte indices, a \<open>-1\<close> of the source is
  \<^const>\<open>None\<close>, and a slice expression out of range is \<^const>\<open>Panic\<close>.
\<close>

section \<open>Definitions\<close>

abbreviation backslash :: char where "backslash \<equiv> CHR 0x5C"

definition is_quote :: "char \<Rightarrow> bool" where
  "is_quote c \<longleftrightarrow> c = CHR 0x22 \<or> c = CHR 0x27"

text \<open>\<open>findChar\<close>: a backslash skips the byte after it.\<close>

function find_char :: "string \<Rightarrow> nat \<Rightarrow> char \<Rightarrow> nat option" where
  "find_char s i ch =
     (if i < length s then
        (if s ! i = backslash then find_char s (i + 2) ch
         else if s ! i = ch then Some i
         else find_char s (i + 1) ch)
      else None)"
  by pat_completeness auto
termination
  by (relation "measure (\<lambda>(s, i, ch). length s - i)") auto

function skip_space :: "string \<Rightarrow> nat \<Rightarrow> nat option" where
  "skip_space s i =
     (if i < length s then
        (if \<not> is_space_byte (s ! i) then Some i else skip_space s (i + 1))
      else None)"
  by pat_completeness auto
termination
  by (relation "measure (\<lambda>(s, i). length s - i)") auto

declare find_char.simps [simp del] skip_space.simps [simp del]

text \<open>
  \<open>appendArgument\<close>: \<open>arg[0]\<close> and \<open>arg[1:len(arg)-1]\<close> are checked by Go at run time.
\<close>

definition append_argument :: "string \<Rightarrow> string list \<Rightarrow> string list go_result" where
  "append_argument arg args =
     (if arg = [] then Panic
      else if is_quote (hd arg) then
        (if length arg < 2 then Panic else Ok (args @ [take (length arg - 2) (drop 1 arg)]))
      else Ok (args @ [arg]))"

text \<open>
  The inner \<open>for\<close> loop of \<open>parseCommand\<close>: where, and why, the scan of one argument stops.
\<close>

datatype scan_stop = AtSpace nat | AtQuote nat | AtEnd

function scan_arg :: "string \<Rightarrow> nat \<Rightarrow> scan_stop" where
  "scan_arg s j =
     (if j < length s then
        (if is_space_byte (s ! j) then AtSpace j
         else if s ! j = backslash then scan_arg s (j + 2)
         else if is_quote (s ! j) then AtQuote j
         else scan_arg s (j + 1))
      else AtEnd)"
  by pat_completeness auto
termination
  by (relation "measure (\<lambda>(s, j). length s - j)") auto

declare scan_arg.simps [simp del]

lemma skip_space_bounds: "skip_space s i = Some j \<Longrightarrow> i \<le> j \<and> j < length s"
proof (induction s i rule: skip_space.induct)
  case (1 s i)
  then show ?case
    by (cases "is_space_byte (s ! i)") (auto simp: skip_space.simps [of s i] split: if_splits)
qed

lemma find_char_bounds: "find_char s i ch = Some j \<Longrightarrow> i \<le> j \<and> j < length s"
proof (induction s i ch rule: find_char.induct)
  case (1 s i ch)
  then show ?case by (auto simp: find_char.simps [of s i] split: if_splits)
qed

lemma scan_arg_bounds:
  "scan_arg s i = AtSpace j \<Longrightarrow> i \<le> j \<and> j < length s"
  "scan_arg s i = AtQuote j \<Longrightarrow> i \<le> j \<and> j < length s"
proof (induction s i rule: scan_arg.induct)
  case (1 s i)
  { case 1 with "1.IH" show ?case by (auto simp: scan_arg.simps [of s i] split: if_splits)
  next
    case 2 with "1.IH" show ?case by (auto simp: scan_arg.simps [of s i] split: if_splits) }
qed

text \<open>The outer loop of \<open>parseCommand\<close>, at position \<open>i\<close> with the arguments read so far.\<close>

function parse_loop :: "string \<Rightarrow> nat \<Rightarrow> string list \<Rightarrow> string list go_result" where
  "parse_loop s i args =
     (if i < length s then
        (case skip_space s i of
           None \<Rightarrow> Ok args
         | Some i' \<Rightarrow>
             (case scan_arg s i' of
                AtSpace j \<Rightarrow>
                  go_bind (append_argument (take (j - i') (drop i' s)) args) (parse_loop s (j + 1))
              | AtQuote j \<Rightarrow>
                  (case find_char s (j + 1) (s ! j) of
                     None \<Rightarrow> append_argument (drop i' s) args
                   | Some k \<Rightarrow>
                       go_bind (append_argument (take (k + 1 - i') (drop i' s)) args)
                         (parse_loop s (k + 1)))
              | AtEnd \<Rightarrow> append_argument (drop i' s) args))
      else Ok args)"
  by pat_completeness auto
termination
  by (relation "measure (\<lambda>(s, i, args). length s - i)")
    (auto dest!: skip_space_bounds find_char_bounds scan_arg_bounds)

declare parse_loop.simps [simp del]

definition parse_command :: "string \<Rightarrow> string list go_result" where
  "parse_command command =
     go_bind (parse_loop command 0 [])
       (\<lambda>args. if args = [] then Err ''no command from empty string'' else Ok args)"

text \<open>
  \<open>createCommand\<close>: its argument is an \<open>interface{}\<close>, a string, a slice of strings, or anything
  else. \<open>exec.Command(args[0])\<close> sets the path and a one-element argument vector.
\<close>

datatype command_input = CommandString string | CommandArgs "string list" | CommandOther

record exec_cmd =
  cmd_name :: string
  cmd_args :: "string list"

definition create_command :: "command_input \<Rightarrow> exec_cmd go_result" where
  "create_command command =
     go_bind
       (case command of
          CommandString s \<Rightarrow> parse_command s
        | CommandArgs a \<Rightarrow> Ok a
        | CommandOther \<Rightarrow> Ok [])
       (\<lambda>args.
          if args = [] then Err ''empty command''
          else
            (let cmd = \<lparr>cmd_name = hd args, cmd_args = [hd args]\<rparr>
             in Ok (if length args > 1 then cmd\<lparr>cmd_args := args\<rparr> else cmd)))"

text \<open>
  \<open>executeCommand\<close>: running the command is the operating system's part; \<open>run\<close> gives its
  combined output, the error of \<open>CombinedOutput\<close> (if any), and the exit code if the process
  has a \<open>ProcessState\<close>. The result is the output and the error.
\<close>

definition execute_command ::
    "(exec_cmd \<Rightarrow> string \<times> string option \<times> int option) \<Rightarrow> command_input \<Rightarrow>
       (string \<times> string option) go_result" where
  "execute_command run command =
     (case create_command command of
        Panic \<Rightarrow> Panic
      | Err e \<Rightarrow> Ok ([], Some e)
      | Ok cmd \<Rightarrow>
          (case run cmd of (output, err, exit_code) \<Rightarrow>
             (case exit_code of
                Some c \<Rightarrow>
                  if c \<noteq> 0
                  then Ok (output, Some (''command execution failed with exit code '' @ itoa c))
                  else Ok (output, err)
              | None \<Rightarrow> Ok (output, err))))"

section \<open>The loops work on the rest of the command\<close>

lemma find_char_shift:
  "find_char (p @ t) (length p + i) ch = map_option ((+) (length p)) (find_char t i ch)"
proof (induction t i ch rule: find_char.induct)
  case (1 t i ch)
  then show ?case
    by (auto simp: find_char.simps [of t i] find_char.simps [of "p @ t" "length p + i"] add.assoc)
qed

lemma skip_space_shift:
  "skip_space (p @ t) (length p + i) = map_option ((+) (length p)) (skip_space t i)"
proof (induction t i rule: skip_space.induct)
  case (1 t i)
  then show ?case
    by (auto simp: skip_space.simps [of t i] skip_space.simps [of "p @ t" "length p + i"])
qed

fun shift_stop :: "nat \<Rightarrow> scan_stop \<Rightarrow> scan_stop" where
  "shift_stop n (AtSpace j) = AtSpace (n + j)"
| "shift_stop n (AtQuote j) = AtQuote (n + j)"
| "shift_stop n AtEnd = AtEnd"

lemma scan_arg_shift: "scan_arg (p @ t) (length p + i) = shift_stop (length p) (scan_arg t i)"
proof (induction t i rule: scan_arg.induct)
  case (1 t i)
  then show ?case
    by (auto simp: scan_arg.simps [of t i] scan_arg.simps [of "p @ t" "length p + i"] add.assoc)
qed

lemma parse_loop_shift: "parse_loop (p @ t) (length p + i) args = parse_loop t i args"
proof (induction t i args rule: parse_loop.induct)
  case (1 t i args)
  show ?case
  proof (cases "i < length t")
    case False
    then show ?thesis by (simp add: parse_loop.simps [of t i] parse_loop.simps [of "p @ t"])
  next
    case lt: True
    show ?thesis
    proof (cases "skip_space t i")
      case None
      with lt show ?thesis
        by (simp add: parse_loop.simps [of t i] parse_loop.simps [of "p @ t"] skip_space_shift)
    next
      case (Some i')
      note IH = "1.IH" [OF lt Some]
      show ?thesis
      proof (cases "scan_arg t i'")
        case (AtSpace j)
        with IH(1) [OF AtSpace] lt Some show ?thesis
          by (auto simp: parse_loop.simps [of t i] parse_loop.simps [of "p @ t" "length p + i"]
              skip_space_shift scan_arg_shift intro!: go_bind_cong)
      next
        case (AtQuote j)
        have "find_char (p @ t) (Suc (length p + j)) (t ! j) =
            map_option ((+) (length p)) (find_char t (Suc j) (t ! j))"
          using find_char_shift [of p t "Suc j"] by simp
        with AtQuote IH(2) [OF AtQuote] lt Some show ?thesis
          by (auto simp: parse_loop.simps [of t i] parse_loop.simps [of "p @ t" "length p + i"]
              skip_space_shift scan_arg_shift intro!: go_bind_cong split: option.splits)
      next
        case AtEnd
        with lt Some show ?thesis
          by (simp add: parse_loop.simps [of t i] parse_loop.simps [of "p @ t" "length p + i"]
              skip_space_shift scan_arg_shift)
      qed
    qed
  qed
qed

lemma parse_loop_suffix: "parse_loop (p @ t) (length p) args = parse_loop t 0 args"
  using parse_loop_shift [of p t 0] by simp

section \<open>Reading one argument\<close>

lemma find_char_Cons: "find_char (x # t) (Suc i) ch = map_option Suc (find_char t i ch)"
  using find_char_shift [of "[x]" t i ch] by (cases "find_char t i ch") auto

lemma scan_arg_Cons: "scan_arg (x # t) (Suc i) = shift_stop 1 (scan_arg t i)"
  using scan_arg_shift [of "[x]" t i] by simp

lemma shift_stop_add: "shift_stop m (shift_stop n r) = shift_stop (m + n) r"
  by (cases r) auto

lemma find_char_hit:
  "\<forall>x \<in> set w. x \<noteq> ch \<and> x \<noteq> backslash \<Longrightarrow> ch \<noteq> backslash \<Longrightarrow>
     find_char (w @ ch # r) 0 ch = Some (length w)"
proof (induction w)
  case Nil
  then show ?case by (simp add: find_char.simps [of "ch # r"])
next
  case (Cons x w)
  then show ?case by (simp add: find_char.simps [of "x # w @ ch # r"] find_char_Cons)
qed

definition plain_byte :: "char \<Rightarrow> bool" where
  "plain_byte c \<longleftrightarrow> \<not> is_space_byte c \<and> c \<noteq> backslash \<and> \<not> is_quote c"

lemma scan_arg_plain:
  "list_all plain_byte w \<Longrightarrow> scan_arg (w @ r) 0 = shift_stop (length w) (scan_arg r 0)"
proof (induction w)
  case Nil
  then show ?case by (cases "scan_arg r 0") auto
next
  case (Cons x w)
  then show ?case
    by (simp add: scan_arg.simps [of "x # w @ r"] scan_arg_Cons plain_byte_def shift_stop_add)
qed

lemma skip_space_hit: "\<not> is_space_byte c \<Longrightarrow> skip_space (c # r) 0 = Some 0"
  by (simp add: skip_space.simps)

lemma skip_space_Cons: "is_space_byte c \<Longrightarrow> skip_space (c # r) 0 = map_option Suc (skip_space r 0)"
  using skip_space_shift [of "[c]" r 0]
  by (cases "skip_space r 0") (auto simp: skip_space.simps [of "c # r" 0])

lemma skip_space_stop: "skip_space s i = Some j \<Longrightarrow> \<not> is_space_byte (s ! j)"
proof (induction s i rule: skip_space.induct)
  case (1 s i)
  then show ?case
    by (cases "is_space_byte (s ! i)") (auto simp: skip_space.simps [of s i] split: if_splits)
qed

text \<open>Once the first byte of an argument is found, the loop goes on from there.\<close>

lemma parse_loop_skip:
  assumes "skip_space s i = Some i'"
  shows "parse_loop s i args = parse_loop s i' args"
proof -
  from skip_space_bounds [OF assms] have *: "i \<le> i'" "i' < length s" by auto
  with skip_space_stop [OF assms] have "skip_space s i' = Some i'"
    by (simp add: skip_space.simps)
  with * assms show ?thesis
    by (simp add: parse_loop.simps [of s i] parse_loop.simps [of s i'])
qed

lemma parse_loop_space:
  assumes "is_space_byte c"
  shows "parse_loop (c # r) 0 args = parse_loop r 0 args"
proof (cases "skip_space r 0")
  case None
  then have "skip_space (c # r) 0 = None" using assms by (simp add: skip_space_Cons)
  with None show ?thesis
    by (simp add: parse_loop.simps [of "c # r" 0] parse_loop.simps [of r 0])
next
  case (Some i)
  then have "skip_space (c # r) 0 = Some (Suc i)" using assms by (simp add: skip_space_Cons)
  then have "parse_loop (c # r) 0 args = parse_loop (c # r) (Suc i) args"
    by (rule parse_loop_skip)
  also have "\<dots> = parse_loop r i args" using parse_loop_shift [of "[c]" r i] by simp
  also have "\<dots> = parse_loop r 0 args" using parse_loop_skip [OF Some] by simp
  finally show ?thesis .
qed

lemma parse_loop_Nil [simp]: "parse_loop [] i args = Ok args"
  by (simp add: parse_loop.simps)

lemma space_is_space [simp]: "is_space_byte CHR 0x20"
  by (simp add: is_space_byte_def Let_def)

lemma quote_not_space [simp]: "is_quote c \<Longrightarrow> \<not> is_space_byte c \<and> c \<noteq> backslash"
  by (auto simp: is_quote_def is_space_byte_def Let_def)

text \<open>An argument of plain bytes, at the end of the command or before a white-space byte.\<close>

lemma parse_loop_plain:
  assumes "list_all plain_byte w" and "w \<noteq> []"
  shows "parse_loop w 0 args = Ok (args @ [w])"
    and "is_space_byte d \<Longrightarrow> parse_loop (w @ d # r) 0 args = parse_loop r 0 (args @ [w])"
proof -
  obtain c v where w: "w = c # v" using assms(2) by (cases w) auto
  with assms(1) have c: "\<not> is_space_byte c" "\<not> is_quote c" by (auto simp: plain_byte_def)
  have "scan_arg w 0 = AtEnd"
    using scan_arg_plain [OF assms(1), of "[]"] by (simp add: scan_arg.simps [of "[]"])
  then show "parse_loop w 0 args = Ok (args @ [w])"
    using w c by (simp add: parse_loop.simps [of "c # v" 0] skip_space_hit append_argument_def)
  assume d: "is_space_byte d"
  then have "scan_arg (w @ d # r) 0 = AtSpace (length w)"
    using scan_arg_plain [OF assms(1), of "d # r"] by (simp add: scan_arg.simps [of "d # r"])
  moreover have "parse_loop (w @ d # r) (Suc (length w)) a = parse_loop r 0 a" for a
    using parse_loop_suffix [of "w @ [d]" r a] by simp
  ultimately show "parse_loop (w @ d # r) 0 args = parse_loop r 0 (args @ [w])"
    using w c
    by (simp add: parse_loop.simps [of "c # v @ d # r" 0] skip_space_hit append_argument_def)
qed

text \<open>A quoted argument: the quotes go, and the loop continues right after the closing one.\<close>

lemma parse_loop_quoted:
  assumes "is_quote q" and "\<forall>x \<in> set w. x \<noteq> q \<and> x \<noteq> backslash"
  shows "parse_loop (q # w @ q # r) 0 args = parse_loop r 0 (args @ [w])"
proof -
  let ?s = "q # w @ q # r"
  have "scan_arg ?s 0 = AtQuote 0" using assms(1) by (simp add: scan_arg.simps [of ?s])
  moreover have "find_char ?s 1 q = Some (Suc (length w))"
    using find_char_hit [of w q r] assms by (simp add: find_char_Cons)
  moreover have "parse_loop ?s (Suc (Suc (length w))) a = parse_loop r 0 a" for a
    using parse_loop_suffix [of "q # w @ [q]" r a] by simp
  ultimately show ?thesis
    using assms(1) by (simp add: parse_loop.simps [of ?s 0] skip_space_hit append_argument_def)
qed

section \<open>Properties\<close>

definition dquote :: char where "dquote = CHR 0x22"

definition quote_arg :: "string \<Rightarrow> string" where
  "quote_arg w = (if w \<noteq> [] \<and> list_all plain_byte w then w else dquote # w @ [dquote])"

lemma is_quote_dquote [simp]: "is_quote dquote"
  by (simp add: is_quote_def dquote_def)

lemma parse_loop_quote_arg:
  assumes "dquote \<notin> set w" and "backslash \<notin> set w"
  shows "parse_loop (quote_arg w) 0 args = Ok (args @ [w])"
    and "parse_loop (quote_arg w @ CHR 0x20 # r) 0 args = parse_loop r 0 (args @ [w])"
proof -
  have q: "\<forall>x \<in> set w. x \<noteq> dquote \<and> x \<noteq> backslash" using assms by auto
  show "parse_loop (quote_arg w) 0 args = Ok (args @ [w])"
    using parse_loop_plain(1) parse_loop_quoted [OF is_quote_dquote q, of "[]"]
    by (simp add: quote_arg_def)
  show "parse_loop (quote_arg w @ CHR 0x20 # r) 0 args = parse_loop r 0 (args @ [w])"
    using parse_loop_plain(2) [of w "CHR 0x20"] parse_loop_space [of "CHR 0x20" r]
      parse_loop_quoted [OF is_quote_dquote q, of "CHR 0x20 # r"]
    by (simp add: quote_arg_def)
qed

lemma parse_loop_join:
  "\<forall>w \<in> set ws. dquote \<notin> set w \<and> backslash \<notin> set w \<Longrightarrow>
     parse_loop (join '' '' (map quote_arg ws)) 0 args = Ok (args @ ws)"
proof (induction ws arbitrary: args)
  case (Cons w ws)
  then show ?case by (cases ws) (auto simp: parse_loop_quote_arg)
qed simp

lemma parse_command_quoted:
  "ws \<noteq> [] \<Longrightarrow> \<forall>w \<in> set ws. dquote \<notin> set w \<and> backslash \<notin> set w \<Longrightarrow>
     parse_command (join '' '' (map quote_arg ws)) = Ok ws"
  by (simp add: parse_command_def parse_loop_join)

text \<open>
  C37. Splitting undoes quoting: if every argument of a non-empty vector is written as it stands
  when it consists of plain bytes, and between double quotes otherwise, and the arguments are
  joined by spaces, \<open>parseCommand\<close> returns exactly that vector, for all arguments without a
  double quote or a backslash (empty arguments and arguments with white space included).
\<close>

theorem parse_command_roundtrip:
  assumes "ws \<noteq> []" and "\<forall>w \<in> set ws. dquote \<notin> set w \<and> backslash \<notin> set w"
  shows "parse_command (join '' '' (map quote_arg ws)) = Ok ws"
  using assms by (rule parse_command_quoted)

theorem parse_command_roundtrip_witness:
  "parse_command (join '' '' (map quote_arg [''program'', ''this is arg1'', '''', ''-g''])) =
     Ok [''program'', ''this is arg1'', '''', ''-g'']"
  by (rule parse_command_roundtrip) (simp_all add: dquote_def)

lemma scan_arg_first:
  assumes "i < length s" and "\<not> is_space_byte (s ! i)"
  shows "scan_arg s i = AtSpace j \<Longrightarrow> i < j \<and> \<not> is_quote (s ! i)"
    and "scan_arg s i = AtEnd \<Longrightarrow> \<not> is_quote (s ! i)"
proof -
  have q: "is_quote (s ! i) \<Longrightarrow> scan_arg s i = AtQuote i"
    using assms by (simp add: scan_arg.simps [of s i])
  show "scan_arg s i = AtEnd \<Longrightarrow> \<not> is_quote (s ! i)" using q by auto
  assume j: "scan_arg s i = AtSpace j"
  then have "\<not> is_quote (s ! i)" using q by auto
  moreover have "i < j"
    using j assms scan_arg_bounds(1) [of s "i + 2" j] scan_arg_bounds(1) [of s "i + 1" j]
    by (auto simp: scan_arg.simps [of s i] split: if_splits)
  ultimately show "i < j \<and> \<not> is_quote (s ! i)" by simp
qed

lemma hd_drop_take: "i < j \<Longrightarrow> i < length s \<Longrightarrow> hd (take (j - i) (drop i s)) = s ! i"
  by (simp add: hd_drop_conv_nth)

lemma append_argument_ok:
  assumes "i < j" and "i < length s" and "is_quote (s ! i) \<longrightarrow> Suc i < j \<and> j \<le> length s"
  shows "append_argument (take (j - i) (drop i s)) args \<noteq> Panic"
  using assms hd_drop_take [OF assms(1,2)] by (auto simp: append_argument_def)

lemma go_bind_Panic: "go_bind r f = Panic \<longleftrightarrow> r = Panic \<or> (\<exists>a. r = Ok a \<and> f a = Panic)"
  by (cases r) auto

lemma parse_loop_no_panic:
  "parse_loop s i args = Panic \<Longrightarrow> s \<noteq> [] \<and> is_quote (last s)"
proof (induction s i args rule: parse_loop.induct)
  case (1 s i args)
  have i: "i < length s" using "1.prems" by (auto simp: parse_loop.simps [of s i] split: if_splits)
  obtain i' where i': "skip_space s i = Some i'"
    using "1.prems" i by (auto simp: parse_loop.simps [of s i] split: option.splits)
  note bnd = skip_space_bounds [OF i'] and nsp = skip_space_stop [OF i']
  have len: "i' < length s" using bnd by simp
  note eq = parse_loop.simps [of s i args] and first = scan_arg_first [OF len nsp]
  show ?case
  proof (cases "scan_arg s i'")
    case (AtSpace j)
    with first(1) [OF AtSpace] len have "append_argument (take (j - i') (drop i' s)) args \<noteq> Panic"
      by (intro append_argument_ok) auto
    with AtSpace "1.IH"(1) [OF i i' AtSpace] "1.prems" i i' show ?thesis
      by (auto simp: eq go_bind_Panic)
  next
    case (AtQuote j)
    note j = scan_arg_bounds(2) [OF AtQuote]
    show ?thesis
    proof (cases "find_char s (j + 1) (s ! j)")
      case None
      with AtQuote "1.prems" i i' have "append_argument (drop i' s) args = Panic"
        by (simp add: eq)
      with len have "is_quote (hd (drop i' s))" "length (drop i' s) = 1"
        by (auto simp: append_argument_def split: if_splits)
      with len have "is_quote (s ! i')" "i' = length s - 1" "s \<noteq> []"
        by (auto simp: hd_drop_conv_nth)
      then show ?thesis by (simp add: last_conv_nth)
    next
      case (Some k)
      from find_char_bounds [OF this] j len
      have "append_argument (take (k + 1 - i') (drop i' s)) args \<noteq> Panic"
        by (intro append_argument_ok) auto
      with Some AtQuote "1.IH"(2) [OF i i' AtQuote Some] "1.prems" i i' show ?thesis
        by (auto simp: eq go_bind_Panic)
    qed
  next
    case AtEnd
    with first(2) [OF AtEnd] "1.prems" i i' len show ?thesis
      by (auto simp: eq append_argument_def hd_drop_conv_nth split: if_splits)
  qed
qed

text \<open>
  \<open>parseCommand\<close> reads no byte out of range and slices no argument out of range unless the
  command ends in a quote character: a panic implies that the last byte is a quote.
\<close>

theorem parse_command_safe:
  assumes "s = [] \<or> \<not> is_quote (last s)"
  shows "parse_command s \<noteq> Panic"
  using assms parse_loop_no_panic [of s 0 "[]"]
  by (auto simp: parse_command_def go_bind_Panic)

theorem parse_command_safe_witness: "parse_command ''nginx -g 'daemon off;' -q'' \<noteq> Panic"
  by (rule parse_command_safe) (simp add: is_quote_def)

lemma find_char_miss:
  "\<forall>x \<in> set w. x \<noteq> ch \<and> x \<noteq> backslash \<Longrightarrow> find_char w 0 ch = None"
proof (induction w)
  case (Cons x w)
  then show ?case by (simp add: find_char.simps [of "x # w"] find_char_Cons)
qed (simp add: find_char.simps)

lemma parse_loop_unterminated:
  assumes "is_quote q" and "\<forall>x \<in> set w. x \<noteq> q \<and> x \<noteq> backslash"
  shows "parse_loop (q # w) 0 args = (if w = [] then Panic else Ok (args @ [butlast w]))"
proof -
  have "scan_arg (q # w) 0 = AtQuote 0" using assms(1) by (simp add: scan_arg.simps [of "q # w"])
  moreover have "find_char (q # w) 1 q = None"
    using find_char_miss [OF assms(2)] by (simp add: find_char_Cons)
  ultimately show ?thesis
    using assms(1)
    by (cases w) (simp_all add: parse_loop.simps [of "q # _" 0] skip_space_hit append_argument_def
        butlast_conv_take)
qed

lemma parse_loop_join_then:
  "\<forall>w \<in> set ws. dquote \<notin> set w \<and> backslash \<notin> set w \<Longrightarrow> ws \<noteq> [] \<Longrightarrow>
     parse_loop (join '' '' (map quote_arg ws @ [v])) 0 args = parse_loop v 0 (args @ ws)"
proof (induction ws arbitrary: args)
  case (Cons w ws)
  then show ?case by (cases ws) (auto simp: parse_loop_quote_arg)
qed simp

text \<open>
  An opening quote that is never closed: after any vector of well-formed arguments, a final
  argument \<open>q # w\<close> whose quote has no partner makes \<open>parseCommand\<close> panic (a slice expression
  out of range) when it is the quote alone, and lose its last byte otherwise. It is never
  reported as an error.
\<close>

theorem parse_command_unterminated:
  assumes "is_quote q" and "\<forall>x \<in> set w. x \<noteq> q \<and> x \<noteq> backslash"
    and "\<forall>v \<in> set ws. dquote \<notin> set v \<and> backslash \<notin> set v"
  shows "parse_command (join '' '' (map quote_arg ws @ [q # w])) =
    (if w = [] then Panic else Ok (ws @ [butlast w]))"
  using assms parse_loop_join_then [of ws "q # w" "[]"] parse_loop_unterminated [OF assms(1,2)]
  by (cases "ws = []") (auto simp: parse_command_def)

theorem parse_command_unterminated_witness:
  "parse_command (join '' '' (map quote_arg [''echo''] @ [dquote # ''''])) = Panic \<and>
   parse_command (join '' '' (map quote_arg [''echo''] @ [dquote # ''abc''])) = Ok [''echo'', ''ab'']"
  using parse_command_unterminated [of dquote "''''" "[''echo'']"]
    parse_command_unterminated [of dquote "''abc''" "[''echo'']"]
  by (simp add: dquote_def is_quote_def)

lemma append_argument_sublist:
  assumes "append_argument a args = Ok r" and "sublist a s"
  shows "\<exists>b. r = args @ [b] \<and> sublist b s"
proof -
  have "sublist (take (length a - 2) (drop 1 a)) a"
    using sublist_order.order_trans sublist_drop sublist_take by blast
  with assms show ?thesis
    by (auto simp: append_argument_def split: if_splits intro: sublist_order.order_trans)
qed

lemma sublist_slice: "sublist (take n (drop i s)) s"
  using sublist_drop sublist_order.order_trans sublist_take by blast

lemma parse_loop_sublist:
  "parse_loop s i args = Ok r \<Longrightarrow> \<exists>as. r = args @ as \<and> (\<forall>a \<in> set as. sublist a s)"
proof (induction s i args arbitrary: r rule: parse_loop.induct)
  case (1 s i args)
  show ?case
  proof (cases "i < length s")
    case False
    with "1.prems" show ?thesis by (simp add: parse_loop.simps [of s i])
  next
    case i: True
    show ?thesis
    proof (cases "skip_space s i")
      case None
      with "1.prems" i show ?thesis by (simp add: parse_loop.simps [of s i])
    next
      case i': (Some i')
      note eq = parse_loop.simps [of s i args]
      have step: "\<exists>as. r = args @ as \<and> (\<forall>a \<in> set as. sublist a s)"
        if "append_argument (take n (drop i' s)) args = Ok b" and "parse_loop s k b = Ok r"
          and "\<And>r. parse_loop s k b = Ok r \<Longrightarrow> \<exists>as. r = b @ as \<and> (\<forall>a \<in> set as. sublist a s)"
        for n k b
        using append_argument_sublist [OF that(1) sublist_slice] that(3) [OF that(2)] by auto
      show ?thesis
      proof (cases "scan_arg s i'")
        case (AtSpace j)
        with "1.prems" i i' obtain b where
          b: "append_argument (take (j - i') (drop i' s)) args = Ok b" "parse_loop s (j + 1) b = Ok r"
          by (auto simp: eq)
        show ?thesis by (rule step [OF b "1.IH"(1) [OF i i' AtSpace b(1)]])
      next
        case (AtQuote j)
        show ?thesis
        proof (cases "find_char s (j + 1) (s ! j)")
          case None
          with "1.prems" i i' AtQuote show ?thesis
            by (auto simp: eq dest!: append_argument_sublist [where s = s])
        next
          case (Some k)
          with "1.prems" i i' AtQuote obtain b where
            b: "append_argument (take (k + 1 - i') (drop i' s)) args = Ok b"
            "parse_loop s (k + 1) b = Ok r"
            by (auto simp: eq)
          show ?thesis by (rule step [OF b "1.IH"(2) [OF i i' AtQuote Some b(1)]])
        qed
      next
        case AtEnd
        with "1.prems" i i' show ?thesis
          by (auto simp: eq dest!: append_argument_sublist [where s = s])
      qed
    qed
  qed
qed

text \<open>
  Nothing is invented: every argument \<open>parseCommand\<close> returns is a contiguous piece of the
  command line, and there is at least one.
\<close>

lemma parse_command_sublist:
  assumes "parse_command s = Ok args"
  shows "args \<noteq> [] \<and> (\<forall>a \<in> set args. sublist a s)"
  using assms parse_loop_sublist [of s 0 "[]"] by (auto simp: parse_command_def split: if_splits)

theorem parse_command_sublist_witness:
  "sublist ''b c'' (join '' '' (map quote_arg [''a'', ''b c'']))"
proof -
  have "parse_command (join '' '' (map quote_arg [''a'', ''b c''])) = Ok [''a'', ''b c'']"
    by (rule parse_command_quoted) (simp_all add: dquote_def)
  from parse_command_sublist [OF this] show ?thesis by simp
qed

end
