(* ===== verification/String_Expr.thy ===== *)
theory String_Expr
  imports Go_Prelude
begin

text \<open>
  \<open>config/string_expression.go\<close>: the expansion of \<open>%(name)s\<close> and \<open>%(name)02d\<close> in
  configuration values. The environment of an expression is a map from names to strings. The loop
  of \<open>Eval\<close> rescans the string after every replacement, so a value that contains \<open>%(\<close> is
  expanded again and the loop need not end: \<open>eval_expr\<close> is \<^const>\<open>None\<close> when it does not return.
\<close>

section \<open>Building the environment\<close>

text \<open>
  \<open>NewStringExpression(envs...)\<close>: \<open>environ\<close> is \<open>os.Environ()\<close>, \<open>host\<close> the result of
  \<open>os.Hostname()\<close> (\<^const>\<open>None\<close> for an error). An entry without \<open>=\<close> makes \<open>t[1]\<close> panic.
\<close>

fun add_environ :: "string list \<Rightarrow> (string \<rightharpoonup> string) \<Rightarrow> (string \<rightharpoonup> string) go_result" where
  "add_environ [] se = Ok se"
| "add_environ (e # es) se =
     (case split_n2 CHR ''='' e of
        [k, v] \<Rightarrow> add_environ es (se(''ENV_'' @ k \<mapsto> v))
      | _ \<Rightarrow> Panic)"

fun add_pairs :: "string list \<Rightarrow> (string \<rightharpoonup> string) \<Rightarrow> (string \<rightharpoonup> string)" where
  "add_pairs (k # v # envs) se = add_pairs envs (se(k \<mapsto> v))"
| "add_pairs _ se = se"

definition new_string_expression ::
    "string list \<Rightarrow> string option \<Rightarrow> string list \<Rightarrow> (string \<rightharpoonup> string) go_result" where
  "new_string_expression environ host envs =
     go_bind (add_environ environ Map.empty)
       (\<lambda>se. let se = add_pairs envs se
             in Ok (case host of Some h \<Rightarrow> se(''host_node_name'' \<mapsto> h) | None \<Rightarrow> se))"

definition se_add :: "string \<Rightarrow> string \<Rightarrow> (string \<rightharpoonup> string) \<Rightarrow> (string \<rightharpoonup> string)" where
  "se_add key value se = se(key \<mapsto> value)"

section \<open>Formatting an integer\<close>

text \<open>
  \<open>fmt.Sprintf("%"+spec, i)\<close> for a specification of flags, width and precision followed by
  \<open>d\<close>. Other specifications (explicit argument indices, \<open>*\<close>, stray punctuation), for which
  Sprintf prints a diagnostic, are left to the parameter \<open>sp\<close> of the functions below.
\<close>

record fmt_spec =
  f_minus :: bool
  f_plus :: bool
  f_space :: bool
  f_zero :: bool
  f_wid :: "nat option"
  f_prec :: "nat option"

fun parse_flags :: "string \<Rightarrow> fmt_spec \<Rightarrow> fmt_spec \<times> string" where
  "parse_flags [] f = (f, [])"
| "parse_flags (c # cs) f =
     (if c = CHR ''#'' then parse_flags cs f
      else if c = CHR ''0'' then parse_flags cs (f\<lparr>f_zero := True\<rparr>)
      else if c = CHR ''+'' then parse_flags cs (f\<lparr>f_plus := True\<rparr>)
      else if c = CHR ''-'' then parse_flags cs (f\<lparr>f_minus := True\<rparr>)
      else if c = CHR '' '' then parse_flags cs (f\<lparr>f_space := True\<rparr>)
      else (f, c # cs))"

definition parse_num :: "string \<Rightarrow> nat option \<times> string" where
  "parse_num s =
     (let ds = takeWhile (\<lambda>c. digit_val c \<noteq> None) s
      in (if ds = [] then None else parse_digits 0 ds, dropWhile (\<lambda>c. digit_val c \<noteq> None) s))"

definition parse_spec :: "string \<Rightarrow> fmt_spec option" where
  "parse_spec spec =
     (let (f, r) = parse_flags spec \<lparr>f_minus = False, f_plus = False, f_space = False,
                      f_zero = False, f_wid = None, f_prec = None\<rparr>;
          (w, r) = parse_num r;
          (p, r) = (case r of [] \<Rightarrow> (None, [])
                    | c # cs \<Rightarrow> if c = CHR ''.'' then (let (p, r) = parse_num cs
                                   in (Some (case p of None \<Rightarrow> 0 | Some n \<Rightarrow> n), r))
                                else (None, r))
      in if r = ''d'' \<and> (\<forall>n \<in> set_option w \<union> set_option p. n \<le> 1000000)
         then Some (f\<lparr>f_wid := w, f_prec := p\<rparr>) else None)"

text \<open>\<open>fmtInteger\<close> for base 10.\<close>

definition fmt_pad :: "fmt_spec \<Rightarrow> string \<Rightarrow> string" where
  "fmt_pad f s =
     (let pad = replicate ((case f_wid f of None \<Rightarrow> 0 | Some w \<Rightarrow> w) - length s) CHR '' ''
      in if f_minus f then s @ pad else pad @ s)"

definition fmt_int :: "fmt_spec \<Rightarrow> int \<Rightarrow> string" where
  "fmt_int f i =
     (if f_prec f = Some 0 \<and> i = 0 then fmt_pad f []
      else
        (let sign = (if i < 0 then ''-'' else if f_plus f then ''+''
                     else if f_space f then '' '' else []);
             ds = digits (nat \<bar>i\<bar>);
             prec = (case f_prec f of
                       Some p \<Rightarrow> p
                     | None \<Rightarrow> if f_zero f \<and> \<not> f_minus f
                               then (case f_wid f of None \<Rightarrow> 0 | Some w \<Rightarrow> w - length sign) else 0)
         in fmt_pad f (sign @ replicate (prec - length ds) CHR ''0'' @ ds)))"

definition sprintf_d :: "(string \<Rightarrow> int \<Rightarrow> string) \<Rightarrow> string \<Rightarrow> int \<Rightarrow> string" where
  "sprintf_d sp spec i = (case parse_spec spec of Some f \<Rightarrow> fmt_int f i | None \<Rightarrow> sp spec i)"

section \<open>Evaluation\<close>

definition is_letter :: "char \<Rightarrow> bool" where
  "is_letter c \<longleftrightarrow> (CHR ''a'' \<le> c \<and> c \<le> CHR ''z'') \<or> (CHR ''A'' \<le> c \<and> c \<le> CHR ''Z'')"

text \<open>The scanning loops: the first position from \<open>i\<close> on whose byte satisfies \<open>P\<close>, or the end.\<close>

definition scan_from :: "(char \<Rightarrow> bool) \<Rightarrow> string \<Rightarrow> nat \<Rightarrow> nat" where
  "scan_from P s i = i + length (takeWhile (\<lambda>c. \<not> P c) (drop i s))"

text \<open>One iteration of the loop of \<open>Eval\<close>: the result, or the string of the next iteration.\<close>

definition eval_step ::
    "(string \<rightharpoonup> string) \<Rightarrow> (string \<Rightarrow> int \<Rightarrow> string) \<Rightarrow> string \<Rightarrow> string go_result + string" where
  "eval_step se sp s =
     (case str_index s ''%('' of
        None \<Rightarrow> Inl (Ok s)
      | Some start \<Rightarrow>
          (let fin = scan_from (\<lambda>c. c = CHR '')'') s (start + 1);
               typ = scan_from is_letter s (fin + 1)
           in if typ < length s then
                (let var_name = take (fin - (start + 2)) (drop (start + 2) s)
                 in case se var_name of
                      None \<Rightarrow> Inl (Err (''fail to find the environment variable '' @ var_name))
                    | Some var_value \<Rightarrow>
                        if s ! typ = CHR ''d'' then
                          (case atoi var_value of
                             None \<Rightarrow> Inl (Err (''can't convert '' @ var_value @ '' to integer''))
                           | Some i \<Rightarrow>
                               Inr (take start s
                                    @ sprintf_d sp (take (typ + 1 - (fin + 1)) (drop (fin + 1) s)) i
                                    @ drop (typ + 1) s))
                        else if s ! typ = CHR ''s'' then
                          Inr (take start s @ var_value @ drop (typ + 1) s)
                        else Inl (Err (''not implement type:'' @ itoa (of_char (s ! typ)))))
              else Inl (Err ''invalid string expression format'')))"

partial_function (option) eval_expr ::
    "(string \<rightharpoonup> string) \<Rightarrow> (string \<Rightarrow> int \<Rightarrow> string) \<Rightarrow> string \<Rightarrow> string go_result option" where
  "eval_expr se sp s =
     (case eval_step se sp s of Inl r \<Rightarrow> Some r | Inr s' \<Rightarrow> eval_expr se sp s')"

section \<open>Lemmas\<close>

lemma eval_done: "eval_step se sp s = Inl r \<Longrightarrow> eval_expr se sp s = Some r"
  by (simp add: eval_expr.simps)

lemma eval_next: "eval_step se sp s = Inr s' \<Longrightarrow> eval_expr se sp s = eval_expr se sp s'"
  by (simp add: eval_expr.simps)

lemma str_index_percent:
  assumes "CHR ''%'' \<notin> set p"
  shows "str_index (p @ t) ''%('' = map_option ((+) (length p)) (str_index t ''%('')"
  using assms
proof (induction p)
  case (Cons c p)
  then show ?case by (cases "str_index t ''%(''") auto
qed (cases "str_index t ''%(''"; simp)

lemma str_index_no_percent: "CHR ''%'' \<notin> set s \<Longrightarrow> str_index s ''%('' = None"
  using str_index_percent [of s "[]"] by simp

lemma scan_from_hit:
  assumes "\<forall>c \<in> set w. \<not> P c" and "P d"
  shows "scan_from P (p @ w @ d # r) (length p) = length p + length w"
  using assms by (simp add: scan_from_def takeWhile_append2)

text \<open>A variable of type \<open>s\<close> whose name has no closing parenthesis is replaced by its value.\<close>

lemma eval_step_s:
  assumes p: "CHR ''%'' \<notin> set p" and n: "CHR '')'' \<notin> set name" and v: "se name = Some v"
  shows "eval_step se sp (p @ ''%('' @ name @ '')s'' @ r) = Inr (p @ v @ r)"
proof -
  let ?s = "p @ ''%('' @ name @ '')s'' @ r"
  let ?fin = "length p + 2 + length name"
  have 1: "str_index ?s ''%('' = Some (length p)"
    using str_index_percent [OF p, of "''%('' @ name @ '')s'' @ r"] by simp
  have "\<forall>c \<in> set (CHR ''('' # name). c \<noteq> CHR '')''" using n by auto
  then have "scan_from (\<lambda>c. c = CHR '')'') ((p @ ''%'') @ (CHR ''('' # name) @ CHR '')'' # ''s'' @ r)
      (length (p @ ''%'')) = length (p @ ''%'') + length (CHR ''('' # name)"
    by (rule scan_from_hit) simp
  then have 2: "scan_from (\<lambda>c. c = CHR '')'') ?s (length p + 1) = ?fin" by simp
  have "is_letter CHR ''s''" by (simp add: is_letter_def less_eq_char_def)
  then have 3: "scan_from is_letter ?s (?fin + 1) = ?fin + 1"
    using scan_from_hit [of "[]" is_letter "CHR ''s''" "p @ ''%('' @ name @ '')''" r] by simp
  have 4: "?s ! (?fin + 1) = CHR ''s''" by (simp add: nth_append)
  show ?thesis
    unfolding eval_step_def 1 option.case Let_def 2 3 4 using v
    by (simp add: eval_nat_numeral)
qed

lemma scan_from_ge: "i \<le> scan_from P s i"
  by (simp add: scan_from_def)

lemma eval_step_shape:
  assumes "eval_step se sp s = Inr s'" and "str_index s ''%('' = Some start"
  shows "\<exists>v ty. s' = take start s @ v @ drop (ty + 1) s \<and> start < ty
           \<and> ((\<exists>k. se k = Some v) \<or> (\<exists>spec i. v = sprintf_d sp spec i))"
proof -
  define fin where "fin = scan_from (\<lambda>c. c = CHR '')'') s (start + 1)"
  define ty where "ty = scan_from is_letter s (fin + 1)"
  have "start < fin" "fin < ty"
    using scan_from_ge [of "start + 1" "\<lambda>c. c = CHR '')''" s] scan_from_ge [of "fin + 1" is_letter s]
    by (auto simp: fin_def ty_def)
  moreover from assms(1) obtain v where
    "s' = take start s @ v @ drop (ty + 1) s" "(\<exists>k. se k = Some v) \<or> (\<exists>spec i. v = sprintf_d sp spec i)"
    unfolding eval_step_def assms(2) option.case Let_def fin_def [symmetric] ty_def [symmetric]
    by (auto split: option.splits if_splits)
  ultimately show ?thesis by (intro exI [of _ v] exI [of _ ty] conjI) (blast | simp)+
qed

lemma digits_no_percent: "CHR ''%'' \<notin> set (digits n)"
proof (induction n rule: digits.induct)
  case (1 n)
  have "digit_val CHR ''%'' = None" by (simp add: digit_val_def Let_def)
  then have "CHR ''%'' \<noteq> char_of (48 + m)" if "m < 10" for m :: nat
    using digit_val_of [OF that] by auto
  from this [of n] this [of "n mod 10"] 1 show ?case
    by (cases "n < 10") (simp_all add: digits.simps [of n])
qed

lemma fmt_pad_no_percent: "CHR ''%'' \<notin> set s \<Longrightarrow> CHR ''%'' \<notin> set (fmt_pad f s)"
  by (simp add: fmt_pad_def Let_def set_replicate_conv_if)

lemma fmt_int_no_percent: "CHR ''%'' \<notin> set (fmt_int f i)"
proof (cases "f_prec f = Some 0 \<and> i = 0")
  case False
  then show ?thesis
    by (simp only: fmt_int_def Let_def if_False)
      (rule fmt_pad_no_percent, simp add: digits_no_percent set_replicate_conv_if)
qed (simp add: fmt_int_def fmt_pad_no_percent)

text \<open>
  The number of percent signs goes down in every iteration when the replaced values have none.
\<close>

lemma count_percent_step:
  assumes vals: "\<forall>k v. se k = Some v \<longrightarrow> CHR ''%'' \<notin> set v"
    and sp: "\<forall>spec i. CHR ''%'' \<notin> set (sp spec i)"
    and step: "eval_step se sp s = Inr s'"
  shows "count_list s' CHR ''%'' < count_list s CHR ''%''"
proof -
  obtain start where start: "str_index s ''%('' = Some start"
    using step by (auto simp: eval_step_def split: option.splits)
  from str_index_Some [OF this] have at: "start + 2 \<le> length s" "take 2 (drop start s) = ''%(''"
    by (auto simp: numeral_2_eq_2)
  obtain ty v where s': "s' = take start s @ v @ drop (ty + 1) s"
    and v: "CHR ''%'' \<notin> set v" and ty: "start < ty"
    using eval_step_shape [OF step start] vals sp
    by (fastforce simp: sprintf_d_def fmt_int_no_percent split: option.splits)
  have "s = take start s @ drop start s" by simp
  also have "drop start s = ''%('' @ drop (start + 2) s"
    using at(2) append_take_drop_id [of 2 "drop start s"] by (simp add: add.commute)
  finally have "count_list s CHR ''%'' = count_list (take start s @ ''%('' @ drop (start + 2) s) CHR ''%''"
    by (rule arg_cong)
  then have "count_list s CHR ''%'' = count_list (take start s) CHR ''%'' + Suc (count_list (drop (start + 2) s) CHR ''%'')"
    by simp
  moreover have "count_list (drop (ty + 1) s) CHR ''%'' \<le> count_list (drop (start + 2) s) CHR ''%''"
  proof -
    have "drop (ty + 1) s = drop (ty - start - 1) (drop (start + 2) s)" using ty by simp
    then show ?thesis
      by (metis append_take_drop_id count_list_append le_add2)
  qed
  ultimately show ?thesis using v by (simp add: s')
qed

lemma eval_returns:
  assumes "\<forall>k v. se k = Some v \<longrightarrow> CHR ''%'' \<notin> set v"
    and "\<forall>spec i. CHR ''%'' \<notin> set (sp spec i)"
  shows "\<exists>r. eval_expr se sp s = Some r"
proof (induction "count_list s CHR ''%''" arbitrary: s rule: less_induct)
  case less
  show ?case
  proof (cases "eval_step se sp s")
    case (Inl r)
    then show ?thesis by (auto simp: eval_done)
  next
    case (Inr s')
    with less count_percent_step [OF assms Inr] show ?thesis by (auto simp: eval_next)
  qed
qed

text \<open>A template: literal text and variables, as the configuration writes them.\<close>

datatype segment = Lit string | Var string

fun template :: "segment list \<Rightarrow> string" where
  "template [] = []"
| "template (Lit t # segs) = t @ template segs"
| "template (Var x # segs) = ''%('' @ x @ '')s'' @ template segs"

fun substitute :: "(string \<rightharpoonup> string) \<Rightarrow> segment list \<Rightarrow> string" where
  "substitute se [] = []"
| "substitute se (Lit t # segs) = t @ substitute se segs"
| "substitute se (Var x # segs) = (case se x of None \<Rightarrow> [] | Some v \<Rightarrow> v) @ substitute se segs"

fun segment_ok :: "(string \<rightharpoonup> string) \<Rightarrow> segment \<Rightarrow> bool" where
  "segment_ok se (Lit t) \<longleftrightarrow> CHR ''%'' \<notin> set t"
| "segment_ok se (Var x) \<longleftrightarrow>
     CHR '')'' \<notin> set x \<and> (case se x of None \<Rightarrow> False | Some v \<Rightarrow> CHR ''%'' \<notin> set v)"

lemma eval_template_prefix:
  "list_all (segment_ok se) segs \<Longrightarrow> CHR ''%'' \<notin> set p \<Longrightarrow>
     eval_expr se sp (p @ template segs) = Some (Ok (p @ substitute se segs))"
proof (induction segs arbitrary: p rule: template.induct)
  case 1
  then show ?case by (auto intro!: eval_done simp: eval_step_def str_index_no_percent)
next
  case (2 t segs)
  then show ?case using "2.IH" [of "p @ t"] by simp
next
  case (3 x segs)
  then obtain v where v: "se x = Some v" "CHR ''%'' \<notin> set v" "CHR '')'' \<notin> set x"
    by (auto split: option.splits)
  then have "eval_expr se sp (p @ template (Var x # segs)) = eval_expr se sp ((p @ v) @ template segs)"
    using eval_next [OF eval_step_s [of p x se v sp "template segs"]] "3.prems"(2) by simp
  also have "\<dots> = Some (Ok ((p @ v) @ substitute se segs))"
    using "3.prems" v by (intro "3.IH") auto
  finally show ?case using v by simp
qed

text \<open>A value that brings its own reference back keeps the loop going.\<close>

lemma eval_loops:
  assumes n: "CHR '')'' \<notin> set x" and v: "se x = Some (a @ ''%('' @ x @ '')s'' @ b)"
    and a: "CHR ''%'' \<notin> set a" and p: "CHR ''%'' \<notin> set p"
  shows "eval_expr se sp (p @ ''%('' @ x @ '')s'' @ r) = None"
proof (rule ccontr)
  let ?loop = "\<lambda>s. \<exists>p r. CHR ''%'' \<notin> set p \<and> s = p @ ''%('' @ x @ '')s'' @ r"
  have again: "\<exists>s'. eval_step se sp s = Inr s' \<and> ?loop s'" if "?loop s" for s
  proof -
    from that obtain p r where "CHR ''%'' \<notin> set p" "s = p @ ''%('' @ x @ '')s'' @ r" by blast
    then have "eval_step se sp s = Inr ((p @ a) @ ''%('' @ x @ '')s'' @ (b @ r))"
      using eval_step_s [of p x se "a @ ''%('' @ x @ '')s'' @ b" sp r] n v by simp
    moreover have "CHR ''%'' \<notin> set (p @ a)" using a \<open>CHR ''%'' \<notin> set p\<close> by simp
    ultimately show ?thesis by blast
  qed
  have never: "se' = se \<and> sp' = sp \<longrightarrow> \<not> ?loop s" if ret: "eval_expr se' sp' s = Some y" for se' sp' s y
  proof (rule eval_expr.raw_induct [where P = "\<lambda>se' sp' s y. se' = se \<and> sp' = sp \<longrightarrow> \<not> ?loop s",
        OF _ ret])
    fix rec se' sp' s y
    assume IH: "\<And>se' sp' s y. rec se' sp' s = Some y \<Longrightarrow> se' = se \<and> sp' = sp \<longrightarrow> \<not> ?loop s"
      and eq: "(case eval_step se' sp' s of Inl r \<Rightarrow> Some r | Inr s' \<Rightarrow> rec se' sp' s') = Some y"
    show "se' = se \<and> sp' = sp \<longrightarrow> \<not> ?loop s"
    proof (intro impI notI, elim conjE)
      assume e: "se' = se" "sp' = sp" and "?loop s"
      then obtain s' where s': "eval_step se sp s = Inr s'" "?loop s'" using again by blast
      with eq e have "rec se sp s' = Some y" by simp
      from IH [OF this] s'(2) show False by blast
    qed
  qed
  assume "eval_expr se sp (p @ ''%('' @ x @ '')s'' @ r) \<noteq> None"
  then show False using never p by blast
qed

lemma add_environ_Panic:
  "add_environ es se = Panic \<longleftrightarrow> (\<exists>e \<in> set es. CHR ''='' \<notin> set e)"
  by (induction es arbitrary: se) (auto simp: split_n2_def)

lemma add_environ_not_Err: "add_environ es se \<noteq> Err m"
  by (induction es arbitrary: se) (auto simp: split_n2_def)

section \<open>Properties\<close>

text \<open>
  Substitution: for a template whose variables are all defined and whose literals and values
  contain no percent sign, \<open>Eval\<close> returns the template with every \<open>%(x)s\<close> replaced by the value
  of \<open>x\<close>, and nothing else changed.
\<close>

theorem eval_template:
  assumes "list_all (segment_ok se) segs"
  shows "eval_expr se sp (template segs) = Some (Ok (substitute se segs))"
  using eval_template_prefix [OF assms, of "[]" sp] by simp

lemma eval_template_witness:
  "eval_expr [''program_name'' \<mapsto> ''web'', ''ENV_HOME'' \<mapsto> ''/root''] (\<lambda>_ _. [])
     ''%(ENV_HOME)s/%(program_name)s.log'' = Some (Ok ''/root/web.log'')"
  using eval_template [of "[''program_name'' \<mapsto> ''web'', ''ENV_HOME'' \<mapsto> ''/root'']"
      "[Var ''ENV_HOME'', Lit ''/'', Var ''program_name'', Lit ''.log'']" "\<lambda>_ _. []"]
  by simp

text \<open>
  Termination: when the values contain no percent sign (and Sprintf's output for the
  malformed specifications left to \<open>sp\<close> has none), \<open>Eval\<close> returns, a string or an error, on
  every input.
\<close>

theorem eval_terminates:
  assumes "\<forall>k v. se k = Some v \<longrightarrow> CHR ''%'' \<notin> set v"
    and "\<forall>spec i. CHR ''%'' \<notin> set (sp spec i)"
  shows "\<exists>r. eval_expr se sp s = Some r"
  using eval_returns [OF assms] .

text \<open>
  Divergence: a variable whose value contains a reference to the variable itself (an
  environment entry \<open>x=%(ENV_x)s\<close> is enough) makes \<open>Eval\<close> loop forever on any text that uses it.
\<close>

lemma eval_self_reference_diverges:
  assumes "CHR '')'' \<notin> set x" and "se x = Some (a @ ''%('' @ x @ '')s'' @ b)"
    and "CHR ''%'' \<notin> set a" and "CHR ''%'' \<notin> set p"
  shows "eval_expr se sp (p @ ''%('' @ x @ '')s'' @ r) = None"
  using assms by (rule eval_loops)

lemma eval_terminates_witness:
  "\<exists>r. eval_expr [''x'' \<mapsto> ''12''] (\<lambda>_ _. []) ''a%(x)03d%(y'' = Some r"
proof (rule eval_terminates)
qed (auto split: if_splits)

lemma eval_self_reference_witness:
  "eval_expr [''ENV_x'' \<mapsto> ''%(ENV_x)s''] (\<lambda>_ _. []) ''/bin/echo %(ENV_x)s'' = None"
  using eval_self_reference_diverges [of "''ENV_x''" "[''ENV_x'' \<mapsto> ''%(ENV_x)s'']" "[]" "[]"
      "''/bin/echo ''" "\<lambda>_ _. []" "[]"] by simp

end
