(* ===== verification/Go_Map.thy ===== *)
theory Go_Map
  imports Go_Prelude "HOL-Library.AList"
begin

text \<open>
  Go maps. A map is an association list with distinct keys; the interface the components use is
  the locale \<open>go_map\<close>, and the lemmas about sequences of updates are proved inside it. Go
  does not specify the order in which \<open>range\<close> visits a map, and it may differ from one loop
  to the next: a loop over a map takes a function that orders the keys, of which only
  \<open>range_order\<close> (every key is visited exactly once) is assumed.
\<close>

section \<open>The interface\<close>

locale go_map =
  fixes empty :: "'m"
    and get :: "'m \<Rightarrow> 'k \<Rightarrow> 'v option"
    and put :: "'k \<Rightarrow> 'v \<Rightarrow> 'm \<Rightarrow> 'm"
    and del :: "'k \<Rightarrow> 'm \<Rightarrow> 'm"
    and keys :: "'m \<Rightarrow> 'k list"
    and ok :: "'m \<Rightarrow> bool"
  assumes get_empty: "get empty k = None"
    and get_put: "ok m \<Longrightarrow> get (put k v m) = (get m)(k \<mapsto> v)"
    and get_del: "ok m \<Longrightarrow> get (del k m) = (get m)(k := None)"
    and set_keys: "ok m \<Longrightarrow> set (keys m) = dom (get m)"
    and distinct_keys: "ok m \<Longrightarrow> distinct (keys m)"
    and ok_empty: "ok empty"
    and ok_put: "ok m \<Longrightarrow> ok (put k v m)"
    and ok_del: "ok m \<Longrightarrow> ok (del k m)"
begin

lemma length_keys: "ok m \<Longrightarrow> length (keys m) = card (dom (get m))"
  using set_keys distinct_keys distinct_card by metis

lemma keys_empty: "keys empty = []"
  using set_keys [OF ok_empty] get_empty by (auto simp: dom_def)

lemma ok_put_all: "ok m \<Longrightarrow> ok (fold (\<lambda>(k, v). put k v) kvs m)"
  by (induction kvs arbitrary: m) (auto simp: ok_put)

lemma get_put_all: "ok m \<Longrightarrow> get (fold (\<lambda>(k, v). put k v) kvs m) = get m ++ map_of (rev kvs)"
proof (induction kvs arbitrary: m)
  case (Cons kv kvs)
  then show ?case
    by (cases kv) (auto simp: ok_put get_put map_add_def fun_eq_iff split: option.splits)
qed simp

lemma ok_del_all: "ok m \<Longrightarrow> ok (fold del ks m)"
  by (induction ks arbitrary: m) (auto simp: ok_del)

lemma get_del_all: "ok m \<Longrightarrow> get (fold del ks m) = (get m) |` (- set ks)"
proof (induction ks arbitrary: m)
  case (Cons k ks)
  then show ?case by (auto simp: ok_del get_del restrict_map_def fun_eq_iff)
qed (simp add: restrict_map_def)

end

section \<open>Maps as association lists\<close>

type_synonym ('k, 'v) gomap = "('k \<times> 'v) list"

definition gm_get :: "('k, 'v) gomap \<Rightarrow> 'k \<Rightarrow> 'v option" where
  "gm_get m k = map_of m k"

definition gm_put :: "'k \<Rightarrow> 'v \<Rightarrow> ('k, 'v) gomap \<Rightarrow> ('k, 'v) gomap" where
  "gm_put k v m = AList.update k v m"

definition gm_del :: "'k \<Rightarrow> ('k, 'v) gomap \<Rightarrow> ('k, 'v) gomap" where
  "gm_del k m = filter (\<lambda>(k', _). k' \<noteq> k) m"

definition gm_keys :: "('k, 'v) gomap \<Rightarrow> 'k list" where
  "gm_keys m = map fst m"

definition gm_ok :: "('k, 'v) gomap \<Rightarrow> bool" where
  "gm_ok m \<longleftrightarrow> distinct (map fst m)"

lemma gm_del_conv: "gm_del k m = AList.delete k m"
  by (auto simp: gm_del_def AList.delete_eq case_prod_unfold intro: filter_cong)

interpretation gm: go_map "[]" gm_get gm_put gm_del gm_keys gm_ok
  by unfold_locales
    (auto simp: gm_get_def gm_put_def gm_del_conv gm_keys_def gm_ok_def fun_eq_iff update_conv'
      delete_conv' distinct_update distinct_delete dom_map_of_conv_image_fst
      image_iff Bex_def)

lemmas gm_laws [simp] = gm.get_put gm.get_del gm.ok_put gm.ok_del

lemma gm_get_Nil [simp]: "gm_get [] = Map.empty"
  by (simp add: fun_eq_iff gm.get_empty)

lemma gm_ok_Nil [simp]: "gm_ok []"
  by (rule gm.ok_empty)

lemma gm_get_in: "gm_ok m \<Longrightarrow> gm_get m k = Some v \<longleftrightarrow> (k, v) \<in> set m"
  by (simp add: gm_get_def gm_ok_def)

lemma gm_keys_iff: "k \<in> set (gm_keys m) \<longleftrightarrow> gm_get m k \<noteq> None"
  by (simp add: gm_keys_def gm_get_def map_of_eq_None_iff)

section \<open>Visiting orders\<close>

definition range_order :: "('k list \<Rightarrow> 'k list) \<Rightarrow> bool" where
  "range_order ord \<longleftrightarrow> (\<forall>ks. mset (ord ks) = mset ks)"

lemma range_order_id [simp]: "range_order (\<lambda>ks. ks)" and range_order_rev [simp]: "range_order rev"
  by (simp_all add: range_order_def)

lemma range_order_set: "range_order ord \<Longrightarrow> set (ord ks) = set ks"
  by (metis range_order_def set_mset_mset)

lemma range_order_length: "range_order ord \<Longrightarrow> length (ord ks) = length ks"
  by (metis range_order_def size_mset)

lemma range_order_distinct: "range_order ord \<Longrightarrow> distinct (ord ks) = distinct ks"
  by (metis range_order_def mset_eq_imp_distinct_iff)

lemmas range_order_simps = range_order_set range_order_length range_order_distinct

end
