(* ===== verification/Config_Entry.thy ===== *)
theory Config_Entry
  imports String_Expr Go_Map
begin

text \<open>
  One section of the configuration, \<open>type Entry\<close> of \<open>config/config.go\<close>, and its typed getters.
  What the getters read from the machine (\<open>os.Environ()\<close>, \<open>os.Hostname()\<close>, Sprintf's
  diagnostics, the contents of environment files) is the record \<open>os_env\<close>.
\<close>

section \<open>The machine\<close>

record os_env =
  os_environ :: "string list"
  os_hostname :: "string option"
  os_sprintf :: "string \<Rightarrow> int \<Rightarrow> string"
  os_env_file :: "string \<Rightarrow> (string, string) gomap option"
  os_order :: "string list \<Rightarrow> string list"

definition eval_with :: "os_env \<Rightarrow> string list \<Rightarrow> string \<Rightarrow> string go_result" where
  "eval_with os envs s =
     go_bind (new_string_expression (os_environ os) (os_hostname os) envs)
       (\<lambda>se. returned (eval_expr se (os_sprintf os) s))"

section \<open>Entries\<close>

record config_entry =
  config_dir :: string
  egroup :: string
  ename :: string
  key_values :: "(string, string) gomap"

definition new_entry :: "string \<Rightarrow> config_entry" where
  "new_entry dir = \<lparr>config_dir = dir, egroup = [], ename = [], key_values = []\<rparr>"

definition is_program :: "config_entry \<Rightarrow> bool" where
  "is_program c = has_prefix (ename c) ''program:''"

definition get_program_name :: "config_entry \<Rightarrow> string" where
  "get_program_name c =
     (if has_prefix (ename c) ''program:'' then drop (length ''program:'') (ename c) else [])"

definition is_event_listener :: "config_entry \<Rightarrow> bool" where
  "is_event_listener c = has_prefix (ename c) ''eventlistener:''"

definition get_event_listener_name :: "config_entry \<Rightarrow> string" where
  "get_event_listener_name c =
     (if has_prefix (ename c) ''eventlistener:'' then drop (length ''eventlistener:'') (ename c) else [])"

definition is_group :: "config_entry \<Rightarrow> bool" where
  "is_group c = has_prefix (ename c) ''group:''"

definition get_group_name :: "config_entry \<Rightarrow> string" where
  "get_group_name c =
     (if has_prefix (ename c) ''group:'' then drop (length ''group:'') (ename c) else [])"

definition set_group :: "string \<Rightarrow> config_entry \<Rightarrow> config_entry" where
  "set_group g c = c\<lparr>egroup := g\<rparr>"

definition entry_string :: "(string list \<Rightarrow> string list) \<Rightarrow> config_entry \<Rightarrow> string" where
  "entry_string ord c =
     concat (map (\<lambda>k. case gm_get (key_values c) k of None \<Rightarrow> []
                    | Some v \<Rightarrow> k @ ''='' @ v @ [CHR 0x0A]) (ord (gm_keys (key_values c))))"

section \<open>Getters\<close>

definition get_bool :: "config_entry \<Rightarrow> string \<Rightarrow> bool \<Rightarrow> bool" where
  "get_bool c key def_value =
     (case gm_get (key_values c) key of
        Some value \<Rightarrow> (case parse_bool value of Some b \<Rightarrow> b | None \<Rightarrow> def_value)
      | None \<Rightarrow> def_value)"

definition has_parameter :: "config_entry \<Rightarrow> string \<Rightarrow> bool" where
  "has_parameter c key \<longleftrightarrow> gm_get (key_values c) key \<noteq> None"

text \<open>The product \<open>i * factor\<close> wraps around.\<close>

definition to_int :: "string \<Rightarrow> int \<Rightarrow> int \<Rightarrow> int" where
  "to_int s factor def_value =
     (case atoi s of Some i \<Rightarrow> wrap64 (i * factor) | None \<Rightarrow> def_value)"

definition get_int :: "config_entry \<Rightarrow> string \<Rightarrow> int \<Rightarrow> int" where
  "get_int c key def_value =
     (case gm_get (key_values c) key of Some value \<Rightarrow> to_int value 1 def_value | None \<Rightarrow> def_value)"

definition get_string :: "os_env \<Rightarrow> config_entry \<Rightarrow> string \<Rightarrow> string \<Rightarrow> string go_result" where
  "get_string os c key def_value =
     (case gm_get (key_values c) key of
        Some s \<Rightarrow> or_else (eval_with os [''here'', config_dir c] s) def_value
      | None \<Rightarrow> Ok def_value)"

text \<open>\<open>NewStringExpression("program_name", ..., "here", c.ConfigDir).Eval(s)\<close>.\<close>

definition eval_in_entry :: "os_env \<Rightarrow> config_entry \<Rightarrow> string list \<Rightarrow> string \<Rightarrow> string go_result" where
  "eval_in_entry os c extra s =
     go_bind (get_string os c ''process_num'' ''0'')
       (\<lambda>num. eval_with os ([''program_name'', get_program_name c, ''process_num'', num,
           ''group_name'', get_group_name c, ''here'', config_dir c] @ extra) s)"

definition get_string_expression ::
    "os_env \<Rightarrow> config_entry \<Rightarrow> string \<Rightarrow> string \<Rightarrow> string go_result" where
  "get_string_expression os c key def_value =
     (case gm_get (key_values c) key of
        None \<Rightarrow> Ok def_value
      | Some s \<Rightarrow>
          if s = [] then Ok def_value
          else or_else
                 (eval_in_entry os c
                    [''host_node_name'', (case os_hostname os of Some h \<Rightarrow> h | None \<Rightarrow> ''Unknown'')] s)
                 s)"

definition get_string_array :: "config_entry \<Rightarrow> string \<Rightarrow> char \<Rightarrow> string list" where
  "get_string_array c key sep =
     (case gm_get (key_values c) key of Some s \<Rightarrow> split_on sep s | None \<Rightarrow> [])"

definition get_programs :: "config_entry \<Rightarrow> string list" where
  "get_programs c =
     (if is_group c then map trim_space (get_string_array c ''programs'' CHR '','') else [])"

definition get_bytes :: "config_entry \<Rightarrow> string \<Rightarrow> int \<Rightarrow> int" where
  "get_bytes c key def_value =
     (case gm_get (key_values c) key of
        Some v \<Rightarrow>
          if 2 < length v then
            (let last2 = drop (length v - 2) v; num = take (length v - 2) v
             in if last2 = ''MB'' then to_int num (1024 * 1024) def_value
                else if last2 = ''GB'' then to_int num (1024 * 1024 * 1024) def_value
                else if last2 = ''KB'' then to_int num 1024 def_value
                else to_int v 1 def_value)
          else to_int v 1 def_value
      | None \<Rightarrow> def_value)"

section \<open>Environment lists\<close>

text \<open>\<open>parseEnv\<close>: from position \<open>start\<close> on; \<open>result\<close> is the map so far.\<close>

function parse_env_from :: "string \<Rightarrow> nat \<Rightarrow> (string, string) gomap \<Rightarrow> (string, string) gomap" where
  "parse_env_from s start result =
     (let n = length s; i = scan_from (\<lambda>c. c = CHR ''='') s start
      in if n \<le> start \<or> n \<le> i + 1 then result
         else
           (let key = take (i - start) (drop start s); start = i + 1
            in if s ! start = CHR 0x22 then
                 (let i = scan_from (\<lambda>c. c = CHR 0x22) s (start + 1);
                      result = (if i < n
                        then gm_put (trim_space key)
                               (trim_space (take (i - (start + 1)) (drop (start + 1) s))) result
                        else result)
                  in if i + 1 < n \<and> s ! (i + 1) = CHR '','' then parse_env_from s (i + 2) result
                     else result)
               else
                 (let i = scan_from (\<lambda>c. c = CHR '','') s start
                  in if i < n then
                       parse_env_from s (i + 1)
                         (gm_put (trim_space key) (trim_space (take (i - start) (drop start s))) result)
                     else gm_put (trim_space key) (trim_space (drop start s)) result)))"
  by pat_completeness auto
termination
proof (relation "measure (\<lambda>(s, start, _). length s - start)")
qed (auto simp: scan_from_def Let_def)

declare parse_env_from.simps [simp del]

definition parse_env :: "string \<Rightarrow> (string, string) gomap" where
  "parse_env s = parse_env_from s 0 []"

text \<open>\<open>parseEnvFiles\<close>; a file that cannot be read or parsed is skipped.\<close>

definition parse_env_files :: "os_env \<Rightarrow> string \<Rightarrow> (string, string) gomap" where
  "parse_env_files os s =
     fold (\<lambda>path result.
         case os_env_file os (trim_space path) of
           None \<Rightarrow> result
         | Some r \<Rightarrow> fold (\<lambda>(k, v). gm_put k v) r result)
       (split_on CHR '','' s) []"

text \<open>The loop of \<open>GetEnv\<close> and \<open>GetEnvFromFiles\<close> over the parsed map.\<close>

definition eval_env_map :: "os_env \<Rightarrow> config_entry \<Rightarrow> (string, string) gomap \<Rightarrow> string list go_result" where
  "eval_env_map os c m =
     go_fold (\<lambda>k result.
         case eval_in_entry os c [] (k @ ''='' @ (case gm_get m k of Some v \<Rightarrow> v | None \<Rightarrow> [])) of
           Ok tmp \<Rightarrow> Ok (result @ [tmp])
         | Err e \<Rightarrow> Ok result
         | Panic \<Rightarrow> Panic
         | Loops \<Rightarrow> Loops)
       (os_order os (gm_keys m)) []"

definition get_env :: "os_env \<Rightarrow> config_entry \<Rightarrow> string \<Rightarrow> string list go_result" where
  "get_env os c key =
     (case gm_get (key_values c) key of
        Some value \<Rightarrow> eval_env_map os c (parse_env value) | None \<Rightarrow> Ok [])"

definition get_env_from_files :: "os_env \<Rightarrow> config_entry \<Rightarrow> string \<Rightarrow> string list go_result" where
  "get_env_from_files os c key =
     (case gm_get (key_values c) key of
        Some value \<Rightarrow> eval_env_map os c (parse_env_files os value) | None \<Rightarrow> Ok [])"

section \<open>Lemmas\<close>

lemma to_int_itoa: "in_int64 n \<Longrightarrow> to_int (itoa n) f d = wrap64 (n * f)"
  by (simp add: to_int_def)

text \<open>The three scans of \<open>parseEnv\<close>, when the text up to the wanted byte is known.\<close>

lemma scan_from_at:
  assumes "s = p @ w @ d # r" and "\<forall>c \<in> set w. \<not> P c" and "P d" and "i = length p"
  shows "scan_from P s i = i + length w"
  using assms scan_from_hit [of w P d p r] by simp

lemma parse_env_quoted:
  assumes s: "s = p @ k @ CHR ''='' # CHR 0x22 # v @ CHR 0x22 # r" and start: "start = length p"
    and k: "CHR ''='' \<notin> set k" and v: "CHR 0x22 \<notin> set v"
  shows "parse_env_from s start m =
    (let m = gm_put (trim_space k) (trim_space v) m
     in if r \<noteq> [] \<and> hd r = CHR '','' then parse_env_from s (length p + length k + length v + 4) m else m)"
proof -
  have 1: "scan_from (\<lambda>c. c = CHR ''='') s start = start + length k"
    by (rule scan_from_at [OF s]) (use start k in auto)
  have v': "\<forall>c \<in> set v. c \<noteq> CHR 0x22" using v by auto
  have 2: "scan_from (\<lambda>c. c = CHR 0x22) s (start + length k + 1 + 1) = start + length k + 2 + length v"
    using scan_from_at [of s "p @ k @ [CHR ''='', CHR 0x22]" v "CHR 0x22" r "\<lambda>c. c = CHR 0x22"
        "start + length k + 2"] s start v' by simp
  have q: "s ! (start + length k + 1) = CHR 0x22" using s start by (simp add: nth_append)
  have key: "take (start + length k - start) (drop start s) = k" using s start by simp
  have val: "take (start + length k + 2 + length v - (start + length k + 1 + 1))
      (drop (start + length k + 1 + 1) s) = v"
    using s start by simp
  have len: "length s = start + length k + length v + 3 + length r" using s start by simp
  have nxt: "s ! (start + length k + 2 + length v + 1) = hd r" if "r \<noteq> []"
    using that s start by (cases r) (auto simp: nth_append)
  show ?thesis
    unfolding parse_env_from.simps [of s start m] 1 Let_def 2 key val
    using len q nxt start by (auto simp: numeral_eq_Suc)
qed

lemma parse_env_pairs:
  assumes "\<forall>(k, v) \<in> set kvs. CHR ''='' \<notin> set k \<and> CHR 0x22 \<notin> set v"
  shows "parse_env_from (p @ join '','' (map (\<lambda>(k, v). k @ [CHR ''='', CHR 0x22] @ v @ [CHR 0x22]) kvs))
           (length p) m = fold (\<lambda>(k, v). gm_put (trim_space k) (trim_space v)) kvs m"
  using assms
proof (induction kvs arbitrary: p m)
  case Nil
  then show ?case by (simp add: parse_env_from.simps [of p] Let_def)
next
  case (Cons kv kvs)
  obtain k v where kv: "kv = (k, v)" by fastforce
  let ?f = "\<lambda>(k, v). k @ [CHR ''='', CHR 0x22] @ v @ [CHR 0x22]"
  let ?r = "if kvs = [] then [] else CHR '','' # join '','' (map ?f kvs)"
  let ?s = "p @ join '','' (map ?f (kv # kvs))"
  have s: "?s = p @ k @ CHR ''='' # CHR 0x22 # v @ CHR 0x22 # ?r"
    using kv by (cases kvs) (auto simp: join_Cons)
  from parse_env_quoted [OF s refl, of m] Cons.prems kv
  have step: "parse_env_from ?s (length p) m =
      (let m = gm_put (trim_space k) (trim_space v) m
       in if kvs \<noteq> [] then parse_env_from ?s (length p + length k + length v + 4) m else m)"
    by auto
  let ?p = "p @ k @ [CHR ''='', CHR 0x22] @ v @ [CHR 0x22] @ '',''"
  have s': "kvs \<noteq> [] \<Longrightarrow> ?s = ?p @ join '','' (map ?f kvs)" using kv by (simp add: join_Cons)
  have len: "length p + length k + length v + 4 = length ?p" by simp
  show ?case
  proof (cases "kvs = []")
    case True
    then show ?thesis using step kv by simp
  next
    case False
    then have "parse_env_from ?s (length p + length k + length v + 4)
          (gm_put (trim_space k) (trim_space v) m)
        = fold (\<lambda>(k, v). gm_put (trim_space k) (trim_space v)) kvs (gm_put (trim_space k) (trim_space v) m)"
      unfolding s' [OF False] len using Cons.prems by (intro Cons.IH) simp
    with step False kv show ?thesis by (simp add: Let_def)
  qed
qed

section \<open>Properties\<close>

text \<open>
  A size written with a unit is the number times 1024, 1024^2 or 1024^3, wrapped to 64 bits,
  for every number of 64 bits; without a unit it is the number itself.
\<close>

theorem get_bytes_units:
  assumes "in_int64 n" and "(u, f) \<in> {(''KB'', 1024), (''MB'', 1024 ^ 2), (''GB'', 1024 ^ 3)}"
    and "gm_get (key_values c) key = Some (itoa n @ u)"
  shows "get_bytes c key d = wrap64 (n * f)"
proof -
  have "itoa n \<noteq> []" by (simp add: itoa_def)
  then have "2 < length (itoa n @ u)" "length (itoa n @ u) - 2 = length (itoa n)"
    using assms(2) by auto
  then show ?thesis
    using assms unfolding get_bytes_def by (auto simp: Let_def to_int_itoa)
qed

lemma get_bytes_units_witness:
  "get_bytes \<lparr>config_dir = [], egroup = [], ename = ''program:a'',
     key_values = [(''stdout_logfile_maxbytes'', itoa 50 @ ''MB'')]\<rparr> ''stdout_logfile_maxbytes'' 0 = 52428800
   \<and> get_bytes \<lparr>config_dir = [], egroup = [], ename = ''program:a'',
     key_values = [(''stdout_logfile_maxbytes'', itoa 8589934592 @ ''GB'')]\<rparr> ''stdout_logfile_maxbytes'' 0 < 0"
  using get_bytes_units [of 50 "''MB''" "1024 ^ 2" "\<lparr>config_dir = [], egroup = [], ename = ''program:a'',
     key_values = [(''stdout_logfile_maxbytes'', itoa 50 @ ''MB'')]\<rparr>" "''stdout_logfile_maxbytes''" 0]
   get_bytes_units [of 8589934592 "''GB''" "1024 ^ 3" "\<lparr>config_dir = [], egroup = [], ename = ''program:a'',
     key_values = [(''stdout_logfile_maxbytes'', itoa 8589934592 @ ''GB'')]\<rparr>" "''stdout_logfile_maxbytes''" 0]
  by (simp add: in_int64_def min_int_def max_int_def gm_get_def wrap64_def)

text \<open>
  An environment list of pairs \<open>k="v"\<close> joined with commas is parsed into exactly these pairs,
  a later pair for the same key replacing an earlier one (names and values are trimmed).
\<close>

theorem parse_env_roundtrip:
  assumes "\<forall>(k, v) \<in> set kvs. CHR ''='' \<notin> set k \<and> CHR 0x22 \<notin> set v"
  shows "gm_get (parse_env (join '','' (map (\<lambda>(k, v). k @ [CHR ''='', CHR 0x22] @ v @ [CHR 0x22]) kvs)))
    = map_of (rev (map (\<lambda>(k, v). (trim_space k, trim_space v)) kvs))"
proof -
  have "fold (\<lambda>(k, v). gm_put (trim_space k) (trim_space v)) kvs m =
      fold (\<lambda>(k, v). gm_put k v) (map (\<lambda>(k, v). (trim_space k, trim_space v)) kvs) m"
    for m :: "(string, string) gomap"
    by (induction kvs arbitrary: m) auto
  then show ?thesis
    using parse_env_pairs [OF assms, of "[]" "[]"]
    by (simp add: parse_env_def gm.get_put_all)
qed

lemma parse_env_roundtrip_witness:
  "gm_get (parse_env (join '','' (map (\<lambda>(k, v). k @ [CHR ''='', CHR 0x22] @ v @ [CHR 0x22])
       [(''A'', ''env 1''), (''B'', ''x=1,y=2'')])))
    = map_of (rev (map (\<lambda>(k, v). (trim_space k, trim_space v)) [(''A'', ''env 1''), (''B'', ''x=1,y=2'')]))"
  by (rule parse_env_roundtrip) auto

end
