(* ===== verification/Go_Sort.thy ===== *)
theory Go_Sort
  imports Go_Prelude
begin

text \<open>
  Go's \<open>sort.Sort\<close>: the interface is the locale \<open>go_sort\<close>; the order of elements that \<open>Less\<close>
  does not separate is not fixed by it (the library's sort is not stable). It is interpreted on
  insertion sort, which is what the library runs on slices of at most twelve elements.
\<close>

definition strict_weak :: "('a \<Rightarrow> 'a \<Rightarrow> bool) \<Rightarrow> bool" where
  "strict_weak lt \<longleftrightarrow>
     (\<forall>x y. lt x y \<longrightarrow> \<not> lt y x) \<and> (\<forall>x y z. \<not> lt y x \<longrightarrow> \<not> lt z y \<longrightarrow> \<not> lt z x)"

lemma strict_weak_key [simp]: "strict_weak (\<lambda>x y. key x < (key y :: 'b::linorder))"
  by (auto simp: strict_weak_def)

lemma filter_eq_one: "distinct ys \<Longrightarrow> k \<in> set ys \<Longrightarrow> filter (\<lambda>x. x = k) ys = [k]"
  by (induction ys) (auto simp: filter_empty_conv)

locale go_sort =
  fixes srt :: "('a \<Rightarrow> 'a \<Rightarrow> bool) \<Rightarrow> 'a list \<Rightarrow> 'a list"
  assumes srt_mset: "mset (srt lt xs) = mset xs"
    and srt_sorted: "strict_weak lt \<Longrightarrow> sorted_wrt (\<lambda>x y. \<not> lt y x) (srt lt xs)"
begin

lemma srt_set: "set (srt lt xs) = set xs"
  using srt_mset [of lt xs] by (metis set_mset_mset)

lemma srt_length: "length (srt lt xs) = length xs"
  using srt_mset [of lt xs] by (metis size_mset)

lemma srt_distinct: "distinct (srt lt xs) \<longleftrightarrow> distinct xs"
  using srt_mset [of lt xs] by (rule mset_eq_imp_distinct_iff)

text \<open>Sorting by a key that is compared with \<open><\<close>.\<close>

lemma srt_by_key:
  fixes key :: "'a \<Rightarrow> 'b::linorder"
  shows "sorted (map key (srt (\<lambda>x y. key x < key y) xs))"
  using srt_sorted [OF strict_weak_key, of key xs] by (simp add: sorted_map not_less)

lemma srt_by_key_distinct:
  fixes key :: "'a \<Rightarrow> 'b::linorder"
  assumes "distinct (map key xs)"
  shows "srt (\<lambda>x y. key x < key y) xs = sort_key key xs"
proof (rule properties_for_sort_key [symmetric])
  show "mset (srt (\<lambda>x y. key x < key y) xs) = mset xs" by (rule srt_mset)
  show "filter (\<lambda>x. key k = key x) (srt (\<lambda>x y. key x < key y) xs) = filter (\<lambda>x. key k = key x) xs"
    if "k \<in> set (srt (\<lambda>x y. key x < key y) xs)" for k
  proof -
    have inj: "inj_on key (set xs)" and d: "distinct xs" using assms by (auto simp: distinct_map)
    have k: "k \<in> set xs" using that by (simp add: srt_set)
    have one: "filter (\<lambda>x. key k = key x) ys = [k]" if "distinct ys" "set ys = set xs" for ys
    proof -
      have "filter (\<lambda>x. key k = key x) ys = filter (\<lambda>x. x = k) ys"
        using inj k that(2) by (intro filter_cong) (auto dest: inj_onD)
      moreover have "k \<in> set ys" using k that(2) by simp
      ultimately show ?thesis using that(1) by (simp add: filter_eq_one)
    qed
    show ?thesis using one [of xs] one [of "srt (\<lambda>x y. key x < key y) xs"] d
      by (simp add: srt_set srt_distinct)
  qed
  show "sorted (map key (srt (\<lambda>x y. key x < key y) xs))" by (rule srt_by_key)
qed

end

section \<open>Insertion sort\<close>

text \<open>Each element moves left past the elements that it is less than.\<close>

fun ins :: "('a \<Rightarrow> 'a \<Rightarrow> bool) \<Rightarrow> 'a \<Rightarrow> 'a list \<Rightarrow> 'a list" where
  "ins lt x [] = [x]"
| "ins lt x (y # ys) = (if lt y x \<or> \<not> lt x y then y # ins lt x ys else x # y # ys)"

definition isort :: "('a \<Rightarrow> 'a \<Rightarrow> bool) \<Rightarrow> 'a list \<Rightarrow> 'a list" where
  "isort lt xs = fold (ins lt) xs []"

lemma mset_ins: "mset (ins lt x ys) = add_mset x (mset ys)"
  by (induction ys) auto

lemma set_ins: "set (ins lt x ys) = insert x (set ys)"
  using mset_ins [of lt x ys] by (metis set_mset_add_mset_insert set_mset_mset)

lemma mset_fold_ins: "mset (fold (ins lt) xs ys) = mset xs + mset ys"
  by (induction xs arbitrary: ys) (auto simp: mset_ins)

lemma sorted_ins:
  assumes "strict_weak lt"
  shows "sorted_wrt (\<lambda>x y. \<not> lt y x) ys \<Longrightarrow> sorted_wrt (\<lambda>x y. \<not> lt y x) (ins lt x ys)"
proof (induction ys)
  case (Cons y ys)
  show ?case
  proof (cases "lt y x \<or> \<not> lt x y")
    case True
    then have "\<not> lt x y" using assms unfolding strict_weak_def by blast
    with True Cons show ?thesis by (auto simp: set_ins)
  next
    case False
    then have "\<not> lt y x" by simp
    moreover from this Cons.prems have "\<forall>z \<in> set ys. \<not> lt z x"
      using assms unfolding strict_weak_def sorted_wrt.simps by blast
    ultimately show ?thesis using False Cons.prems by simp
  qed
qed simp

lemma sorted_fold_ins:
  assumes "strict_weak lt"
  shows "sorted_wrt (\<lambda>x y. \<not> lt y x) ys \<Longrightarrow> sorted_wrt (\<lambda>x y. \<not> lt y x) (fold (ins lt) xs ys)"
  by (induction xs arbitrary: ys) (simp_all add: sorted_ins [OF assms])

interpretation isort: go_sort isort
  by unfold_locales (simp_all add: isort_def mset_fold_ins sorted_fold_ins)

end
