(* ===== verification/Process_Sort.thy ===== *)
theory Process_Sort
  imports Config_Entry Go_Sort
begin

text \<open>
  \<open>config/process_sort.go\<close>: the start order of the programs. Programs with dependency
  information come first, each after the programs it depends on; the others follow by priority.
  The loop of \<open>sortDepends\<close> may not end. The visiting order of each loop over a map is given by
  \<open>ord\<close>, numbered by the loop iteration.
\<close>

section \<open>The sorter\<close>

type_synonym depends_graph = "(string, string list) gomap"

record process_sorter =
  depends_on_graph :: depends_graph
  procs_without_depends :: "config_entry list"

definition new_process_sorter :: process_sorter where
  "new_process_sorter = \<lparr>depends_on_graph = [], procs_without_depends = []\<rparr>"

text \<open>\<open>ProgramByPriority.Less\<close>.\<close>

definition priority :: "config_entry \<Rightarrow> int" where
  "priority c = get_int c ''priority'' 999"

definition by_priority :: "config_entry \<Rightarrow> config_entry \<Rightarrow> bool" where
  "by_priority c d \<longleftrightarrow> priority c < priority d"

definition add_depend :: "string \<Rightarrow> string \<Rightarrow> depends_graph \<Rightarrow> depends_graph" where
  "add_depend prog dep g =
     (let dep = trim_space dep
      in if dep \<noteq> [] then
           (let g = (if gm_get g prog = None then gm_put prog [] g else g)
            in gm_put prog ((case gm_get g prog of Some ds \<Rightarrow> ds | None \<Rightarrow> []) @ [dep]) g)
         else g)"

definition init_depends :: "os_env \<Rightarrow> config_entry list \<Rightarrow> process_sorter \<Rightarrow> process_sorter go_result" where
  "init_depends os configs p =
     go_bind
       (go_fold (\<lambda>c g.
           if is_program c \<and> has_parameter c ''depends_on'' then
             go_bind (get_string os c ''depends_on'' [])
               (\<lambda>s. Ok (fold (add_depend (get_program_name c)) (split_on CHR '','' s) g))
           else Ok g) configs (depends_on_graph p))
       (\<lambda>g. Ok (p\<lparr>depends_on_graph := g\<rparr>))"

definition depends_on_info :: "(string list \<Rightarrow> string list) \<Rightarrow> depends_graph \<Rightarrow> (string, string) gomap" where
  "depends_on_info ord g =
     fold (\<lambda>k m. fold (\<lambda>t. gm_put t t) (case gm_get g k of Some ds \<Rightarrow> ds | None \<Rightarrow> []) (gm_put k k m))
       (ord (gm_keys g)) []"

definition init_program_without_depends ::
    "(string list \<Rightarrow> string list) \<Rightarrow> config_entry list \<Rightarrow> process_sorter \<Rightarrow> process_sorter" where
  "init_program_without_depends ord configs p =
     (let info = depends_on_info ord (depends_on_graph p)
      in p\<lparr>procs_without_depends := procs_without_depends p
            @ filter (\<lambda>c. is_program c \<and> gm_get info (get_program_name c) = None) configs\<rparr>)"

definition in_finished_programs :: "depends_graph \<Rightarrow> string \<Rightarrow> (string, string) gomap \<Rightarrow> bool" where
  "in_finished_programs g prog fin =
     (case gm_get g prog of
        Some ds \<Rightarrow> list_all (\<lambda>d. gm_get fin d \<noteq> None) ds
      | None \<Rightarrow> True)"

type_synonym sort_state = "(string, string) gomap \<times> string list"

definition finish :: "string \<Rightarrow> sort_state \<Rightarrow> sort_state" where
  "finish prog st = (gm_put prog prog (fst st), snd st @ [prog])"

definition finish_free :: "depends_graph \<Rightarrow> string \<Rightarrow> sort_state \<Rightarrow> sort_state" where
  "finish_free g prog st = (if gm_get g prog = None then finish prog st else st)"

definition finish_ready :: "depends_graph \<Rightarrow> string \<Rightarrow> sort_state \<Rightarrow> sort_state" where
  "finish_ready g prog st =
     (if gm_get (fst st) prog = None \<and> in_finished_programs g prog (fst st) then finish prog st else st)"

partial_function (option) finish_loop ::
    "(nat \<Rightarrow> string list \<Rightarrow> string list) \<Rightarrow> depends_graph \<Rightarrow> nat \<Rightarrow> nat \<Rightarrow> sort_state \<Rightarrow> sort_state option" where
  "finish_loop ord g n i st =
     (if length (fst st) < n
      then finish_loop ord g n (Suc i) (fold (finish_ready g) (ord i (gm_keys g)) st)
      else Some st)"

definition sort_depends :: "(nat \<Rightarrow> string list \<Rightarrow> string list) \<Rightarrow> depends_graph \<Rightarrow> string list option" where
  "sort_depends ord g =
     (let info = depends_on_info (ord 0) g;
          st = fold (finish_free g) (ord 1 (gm_keys info)) ([], [])
      in map_option snd (finish_loop ord g (length info) 2 st))"

definition sort_program ::
    "os_env \<Rightarrow> (nat \<Rightarrow> string list \<Rightarrow> string list)
     \<Rightarrow> ((config_entry \<Rightarrow> config_entry \<Rightarrow> bool) \<Rightarrow> config_entry list \<Rightarrow> config_entry list)
     \<Rightarrow> config_entry list \<Rightarrow> config_entry list go_result" where
  "sort_program os ord srt configs =
     go_bind (init_depends os configs new_process_sorter)
       (\<lambda>p. let p = init_program_without_depends (ord 0) configs p
            in go_bind (returned (map_option Ok (sort_depends ord (depends_on_graph p))))
                 (\<lambda>progs. Ok
                    (concat (map (\<lambda>prog. filter (\<lambda>c. is_program c \<and> get_program_name c = prog) configs) progs)
                     @ srt by_priority (procs_without_depends p))))"

section \<open>The dependency relation\<close>

definition deps :: "depends_graph \<Rightarrow> string \<Rightarrow> string set" where
  "deps g p = (case gm_get g p of Some ds \<Rightarrow> set ds | None \<Rightarrow> {})"

definition depends_rel :: "depends_graph \<Rightarrow> (string \<times> string) set" where
  "depends_rel g = {(d, p). d \<in> deps g p}"

definition mentioned :: "depends_graph \<Rightarrow> string set" where
  "mentioned g = dom (gm_get g) \<union> \<Union>(deps g ` dom (gm_get g))"

text \<open>A start order in which every program comes after the programs it depends on.\<close>

definition in_depends_order :: "depends_graph \<Rightarrow> string list \<Rightarrow> bool" where
  "in_depends_order g ps \<longleftrightarrow> (\<forall>xs p ys. ps = xs @ p # ys \<longrightarrow> deps g p \<subseteq> set xs)"

lemma in_depends_order_Nil: "in_depends_order g []"
  by (simp add: in_depends_order_def)

lemma in_depends_order_snoc:
  "in_depends_order g (ps @ [p]) \<longleftrightarrow> in_depends_order g ps \<and> deps g p \<subseteq> set ps"
proof
  assume L: "in_depends_order g (ps @ [p])"
  have "deps g q \<subseteq> set xs" if "ps = xs @ q # ys" for xs q ys
    using L [unfolded in_depends_order_def, rule_format, of xs q "ys @ [p]"] that by simp
  moreover have "deps g p \<subseteq> set ps"
    using L [unfolded in_depends_order_def, rule_format, of ps p "[]"] by simp
  ultimately show "in_depends_order g ps \<and> deps g p \<subseteq> set ps"
    unfolding in_depends_order_def by blast
next
  assume R: "in_depends_order g ps \<and> deps g p \<subseteq> set ps"
  have "deps g q \<subseteq> set xs" if "ps @ [p] = xs @ q # ys" for xs q ys
  proof (cases ys rule: rev_cases)
    case Nil
    then show ?thesis using that R by simp
  next
    case (snoc zs z)
    then have "ps = xs @ q # zs" using that by simp
    then show ?thesis using R unfolding in_depends_order_def by blast
  qed
  then show "in_depends_order g (ps @ [p])" unfolding in_depends_order_def by blast
qed

lemma deps_mentioned: "deps g p \<subseteq> mentioned g"
  by (cases "p \<in> dom (gm_get g)") (auto simp: mentioned_def deps_def)

lemma order_acyclic:
  assumes "in_depends_order g ps" and "distinct ps" and "set ps = mentioned g"
  shows "acyclic (depends_rel g)"
proof -
  define idx where "idx p = length (takeWhile (\<lambda>x. x \<noteq> p) ps)" for p
  have idx: "idx q = length us" if "ps = us @ q # vs" "q \<notin> set us" for q us vs
  proof -
    have "\<forall>x \<in> set us. x \<noteq> q" using that(2) by auto
    then show ?thesis unfolding idx_def that(1) by (subst takeWhile_append2) auto
  qed
  have "idx d < idx p" if "(d, p) \<in> depends_rel g" for d p
  proof -
    have d: "d \<in> deps g p" using that by (simp add: depends_rel_def)
    then have "p \<in> set ps" using assms(3) by (auto simp: mentioned_def deps_def split: option.splits)
    then obtain xs ys where ps: "ps = xs @ p # ys" by (auto dest: split_list)
    then have "d \<in> set xs" using assms(1) d unfolding in_depends_order_def by blast
    then obtain us vs where xs: "xs = us @ d # vs" "d \<notin> set us" by (auto dest: split_list_first)
    have "p \<notin> set xs" using assms(2) ps by auto
    then have "idx p = length xs" using ps idx by auto
    moreover have "idx d = length us" using ps xs idx by auto
    ultimately show ?thesis using xs by simp
  qed
  then have "depends_rel g \<subseteq> measure idx" by auto
  then show ?thesis by (meson wf_acyclic wf_measure wf_subset)
qed

section \<open>The graph of the sorter\<close>

lemma ok_put_self: "gm_ok m \<Longrightarrow> gm_ok (fold (\<lambda>t. gm_put t t) ts m)"
  by (induction ts arbitrary: m) auto

lemma dom_put_self: "gm_ok m \<Longrightarrow> dom (gm_get (fold (\<lambda>t. gm_put t t) ts m)) = dom (gm_get m) \<union> set ts"
  by (induction ts arbitrary: m) auto

lemma depends_on_info:
  assumes "gm_ok g" and "range_order ord"
  shows "gm_ok (depends_on_info ord g) \<and> dom (gm_get (depends_on_info ord g)) = mentioned g"
proof -
  let ?step = "\<lambda>k m. fold (\<lambda>t. gm_put t t) (case gm_get g k of Some ds \<Rightarrow> ds | None \<Rightarrow> []) (gm_put k k m)"
  have "gm_ok (fold ?step ks m) \<and>
      dom (gm_get (fold ?step ks m)) = dom (gm_get m) \<union> set ks \<union> \<Union>(deps g ` set ks)"
    if "gm_ok m" for ks m
    using that
    by (induction ks arbitrary: m) (auto simp: ok_put_self dom_put_self deps_def split: option.splits)
  from this [of "[]" "ord (gm_keys g)"] show ?thesis
    using gm.set_keys [OF assms(1)] assms(2)
    by (simp add: depends_on_info_def mentioned_def range_order_set)
qed

lemma length_gm_keys [simp]: "length (gm_keys m) = length m"
  by (simp add: gm_keys_def)

section \<open>The loop\<close>

text \<open>What every iteration keeps: the finished programs are the order so far, which is sound.\<close>

definition sort_inv :: "depends_graph \<Rightarrow> sort_state \<Rightarrow> bool" where
  "sort_inv g st \<longleftrightarrow> gm_ok (fst st) \<and> dom (gm_get (fst st)) = set (snd st) \<and> distinct (snd st)
     \<and> set (snd st) \<subseteq> mentioned g \<and> in_depends_order g (snd st)"

lemma sort_inv_length: "sort_inv g st \<Longrightarrow> length (fst st) = card (set (snd st))"
  using gm.length_keys [of "fst st"] by (simp add: sort_inv_def)

lemma finish_inv:
  assumes "sort_inv g st" and "p \<in> mentioned g" and "p \<notin> set (snd st)" and "deps g p \<subseteq> set (snd st)"
  shows "sort_inv g (finish p st)"
  using assms by (auto simp: sort_inv_def finish_def in_depends_order_snoc)

lemma finish_free_inv:
  assumes "sort_inv g st" and "p \<in> mentioned g" and "p \<notin> set (snd st)"
  shows "sort_inv g (finish_free g p st)"
  using assms by (auto simp: finish_free_def deps_def intro!: finish_inv)

lemma in_finished: "in_finished_programs g p fin \<longleftrightarrow> deps g p \<subseteq> dom (gm_get fin)"
  by (auto simp: in_finished_programs_def deps_def list_all_iff split: option.splits)

lemma finish_ready_inv:
  assumes "sort_inv g st" and "p \<in> mentioned g"
  shows "sort_inv g (finish_ready g p st)"
proof (cases "gm_get (fst st) p = None \<and> in_finished_programs g p (fst st)")
  case True
  then have "p \<notin> set (snd st)" "deps g p \<subseteq> set (snd st)"
    using assms(1) by (auto simp: sort_inv_def in_finished)
  then show ?thesis using assms by (auto simp: finish_ready_def intro!: finish_inv)
qed (use assms in \<open>auto simp: finish_ready_def\<close>)

lemma fold_finish_ready_inv:
  "sort_inv g st \<Longrightarrow> set ps \<subseteq> mentioned g \<Longrightarrow> sort_inv g (fold (finish_ready g) ps st)"
  by (induction ps arbitrary: st) (auto simp: finish_ready_inv)

lemma fold_finish_ready_mono: "set (snd st) \<subseteq> set (snd (fold (finish_ready g) ps st))"
proof (induction ps arbitrary: st)
  case (Cons p ps)
  have "set (snd st) \<subseteq> set (snd (finish_ready g p st))"
    by (auto simp: finish_ready_def finish_def)
  with Cons [of "finish_ready g p st"] show ?case by simp
qed simp

text \<open>A program whose dependencies are finished is finished by the end of the iteration.\<close>

lemma fold_finish_ready_hit:
  assumes "sort_inv g st" and "set ps \<subseteq> mentioned g" and "p \<in> set ps" and "deps g p \<subseteq> set (snd st)"
  shows "p \<in> set (snd (fold (finish_ready g) ps st))"
proof -
  from assms(3) obtain xs ys where ps: "ps = xs @ p # ys" by (auto dest: split_list)
  let ?st = "fold (finish_ready g) xs st"
  have inv: "sort_inv g ?st" using assms(1,2) ps by (auto intro: fold_finish_ready_inv)
  have "deps g p \<subseteq> set (snd ?st)" using assms(4) fold_finish_ready_mono by fastforce
  then have "p \<in> set (snd (finish_ready g p ?st))"
    using inv by (auto simp: finish_ready_def finish_def in_finished sort_inv_def)
  then show ?thesis using fold_finish_ready_mono [of "finish_ready g p ?st"] ps by auto
qed

lemma keys_mentioned: "gm_ok g \<Longrightarrow> set (gm_keys g) \<subseteq> mentioned g"
  by (simp add: gm.set_keys mentioned_def)

text \<open>With an acyclic relation some unfinished program is ready, so every iteration progresses.\<close>

lemma finish_ready_progress:
  assumes acyc: "acyclic (depends_rel g)" and g: "gm_ok g" and fin: "finite (depends_rel g)"
    and inv: "sort_inv g st" and free: "mentioned g - dom (gm_get g) \<subseteq> set (snd st)"
    and more: "\<not> mentioned g \<subseteq> set (snd st)" and ord: "range_order (ord i)"
  shows "card (set (snd st)) < card (set (snd (fold (finish_ready g) (ord i (gm_keys g)) st)))"
proof -
  have "wf (depends_rel g)" using acyc fin by (simp add: finite_acyclic_wf)
  moreover obtain q where "q \<in> mentioned g - set (snd st)" using more by blast
  ultimately obtain p where p: "p \<in> mentioned g - set (snd st)"
    and min: "\<And>d. (d, p) \<in> depends_rel g \<Longrightarrow> d \<notin> mentioned g - set (snd st)"
    by (metis wfE_min)
  have "deps g p \<subseteq> set (snd st)" using min deps_mentioned by (fastforce simp: depends_rel_def)
  moreover have "p \<in> set (ord i (gm_keys g))"
    using p free g ord by (auto simp: range_order_set gm.set_keys)
  moreover have "set (ord i (gm_keys g)) \<subseteq> mentioned g"
    using g ord keys_mentioned by (simp add: range_order_set)
  ultimately have "p \<in> set (snd (fold (finish_ready g) (ord i (gm_keys g)) st))"
    using fold_finish_ready_hit [OF inv] by blast
  then have "set (snd st) \<subset> set (snd (fold (finish_ready g) (ord i (gm_keys g)) st))"
    using p fold_finish_ready_mono by fastforce
  then show ?thesis by (simp add: psubset_card_mono)
qed

lemma finite_deps: "finite (deps g p)"
  by (simp add: deps_def split: option.splits)

lemma finite_mentioned: "gm_ok g \<Longrightarrow> finite (mentioned g)"
  using gm.set_keys [of g] by (auto simp: mentioned_def finite_deps simp flip: gm.set_keys)

lemma finite_depends_rel: "gm_ok g \<Longrightarrow> finite (depends_rel g)"
proof (rule finite_subset)
  assume "gm_ok g"
  then show "finite (mentioned g \<times> dom (gm_get g))"
    using finite_mentioned by (simp flip: gm.set_keys)
  show "depends_rel g \<subseteq> mentioned g \<times> dom (gm_get g)"
    using deps_mentioned by (fastforce simp: depends_rel_def deps_def split: option.splits)
qed

lemma finish_loop_returns:
  assumes acyc: "acyclic (depends_rel g)" and g: "gm_ok g" and ord: "\<forall>i. range_order (ord i)"
    and inv: "sort_inv g st" and free: "mentioned g - dom (gm_get g) \<subseteq> set (snd st)"
  shows "\<exists>st'. finish_loop ord g (card (mentioned g)) i st = Some st'"
  using inv free
proof (induction "card (mentioned g) - card (set (snd st))" arbitrary: st i rule: less_induct)
  case less
  let ?st = "fold (finish_ready g) (ord i (gm_keys g)) st"
  have len: "length (fst st) = card (set (snd st))" using sort_inv_length [OF less.prems(1)] .
  show ?case
  proof (cases "mentioned g \<subseteq> set (snd st)")
    case True
    then have "set (snd st) = mentioned g" using less.prems(1) by (auto simp: sort_inv_def)
    then show ?thesis by (simp add: finish_loop.simps [of _ _ _ _ st] len)
  next
    case False
    have lt: "card (set (snd st)) < card (set (snd ?st))"
      using finish_ready_progress [OF acyc g finite_depends_rel [OF g] less.prems False, of ord i] ord by simp
    have keys: "set (ord i (gm_keys g)) \<subseteq> mentioned g"
      using ord keys_mentioned [OF g] by (simp add: range_order_set)
    have inv': "sort_inv g ?st" using fold_finish_ready_inv [OF less.prems(1) keys] .
    then have "card (set (snd ?st)) \<le> card (mentioned g)"
      by (simp add: card_mono finite_mentioned [OF g] sort_inv_def)
    moreover have "mentioned g - dom (gm_get g) \<subseteq> set (snd ?st)"
      using less.prems(2) fold_finish_ready_mono by (meson subset_trans)
    ultimately have "\<exists>st'. finish_loop ord g (card (mentioned g)) (Suc i) ?st = Some st'"
      using lt inv' by (intro less.hyps) auto
    moreover have "length (fst st) < card (mentioned g)"
      using len lt \<open>card (set (snd ?st)) \<le> card (mentioned g)\<close> by simp
    ultimately show ?thesis by (simp add: finish_loop.simps [of _ _ _ _ st])
  qed
qed

lemma finish_loop_inv:
  assumes ret: "finish_loop ord g n i st = Some st'" and g: "gm_ok g" and ord: "\<forall>i. range_order (ord i)"
  shows "sort_inv g st \<longrightarrow> sort_inv g st' \<and> n \<le> length (fst st')"
proof -
  have "gm_ok g \<and> (\<forall>i. range_order (ord i)) \<and> sort_inv g st \<longrightarrow> sort_inv g st' \<and> n \<le> length (fst st')"
  proof (rule finish_loop.raw_induct [where P = "\<lambda>ord g n i st st'.
      gm_ok g \<and> (\<forall>i. range_order (ord i)) \<and> sort_inv g st \<longrightarrow> sort_inv g st' \<and> n \<le> length (fst st')", OF _ ret])
    fix rec ord g n i st st'
    assume IH: "\<And>ord g n i st st'. rec ord g n i st = Some st' \<Longrightarrow>
        gm_ok g \<and> (\<forall>i. range_order (ord i)) \<and> sort_inv g st \<longrightarrow> sort_inv g st' \<and> n \<le> length (fst st')"
      and eq: "(if length (fst st) < n then rec ord g n (Suc i) (fold (finish_ready g) (ord i (gm_keys g)) st)
        else Some st) = Some st'"
    show "gm_ok g \<and> (\<forall>i. range_order (ord i)) \<and> sort_inv g st \<longrightarrow> sort_inv g st' \<and> n \<le> length (fst st')"
    proof (intro impI, elim conjE)
      assume a: "gm_ok g" "\<forall>i. range_order (ord i)" "sort_inv g st"
      have keys: "set (ord i (gm_keys g)) \<subseteq> mentioned g"
        using a keys_mentioned by (simp add: range_order_set)
      from fold_finish_ready_inv [OF a(3) keys] eq a
      show "sort_inv g st' \<and> n \<le> length (fst st')"
        by (cases "length (fst st) < n") (auto dest!: IH)
    qed
  qed
  then show ?thesis using g ord by blast
qed

text \<open>The state after the first loop of \<open>sortDepends\<close>: the programs that depend on nothing.\<close>

lemma fold_finish_free:
  assumes "sort_inv g st" and "set ps \<subseteq> mentioned g" and "distinct ps" and "set ps \<inter> set (snd st) = {}"
  shows "sort_inv g (fold (finish_free g) ps st)
    \<and> set (snd (fold (finish_free g) ps st)) = set (snd st) \<union> (set ps - dom (gm_get g))"
  using assms
proof (induction ps arbitrary: st)
  case (Cons p ps)
  have "set (snd (finish_free g p st)) = set (snd st) \<union> ({p} - dom (gm_get g))"
    by (auto simp: finish_free_def finish_def)
  with Cons.IH [of "finish_free g p st"] Cons.prems finish_free_inv [of g st p] show ?case by auto
qed simp

definition initial_sort_state :: "(nat \<Rightarrow> string list \<Rightarrow> string list) \<Rightarrow> depends_graph \<Rightarrow> sort_state" where
  "initial_sort_state ord g =
     fold (finish_free g) (ord 1 (gm_keys (depends_on_info (ord 0) g))) ([], [])"

lemma initial_sort_state:
  assumes g: "gm_ok g" and ord: "\<forall>i. range_order (ord i)"
  shows "sort_inv g (initial_sort_state ord g)
    \<and> mentioned g - dom (gm_get g) \<subseteq> set (snd (initial_sort_state ord g))"
proof -
  have info: "gm_ok (depends_on_info (ord 0) g)" "dom (gm_get (depends_on_info (ord 0) g)) = mentioned g"
    using depends_on_info [OF g] ord by auto
  have "sort_inv g ([], [])" by (simp add: sort_inv_def in_depends_order_Nil)
  from fold_finish_free [OF this, of "ord 1 (gm_keys (depends_on_info (ord 0) g))"] info ord
  show ?thesis
    by (simp add: initial_sort_state_def range_order_simps gm.set_keys gm.distinct_keys)
qed

lemma sort_depends_eq:
  assumes "gm_ok g" and "range_order (ord 0)"
  shows "sort_depends ord g =
    map_option snd (finish_loop ord g (card (mentioned g)) 2 (initial_sort_state ord g))"
  using depends_on_info [OF assms] gm.length_keys [of "depends_on_info (ord 0) g"]
  by (simp add: sort_depends_def initial_sort_state_def Let_def)

lemma sort_depends_sound:
  assumes "gm_ok g" and "\<forall>i. range_order (ord i)" and "sort_depends ord g = Some ps"
  shows "in_depends_order g ps \<and> distinct ps \<and> set ps = mentioned g"
proof -
  from assms obtain st where st: "finish_loop ord g (card (mentioned g)) 2 (initial_sort_state ord g) = Some st"
    "ps = snd st" by (auto simp: sort_depends_eq)
  from finish_loop_inv [OF st(1) assms(1,2)] initial_sort_state [OF assms(1,2)]
  have inv: "sort_inv g st" "card (mentioned g) \<le> length (fst st)" by auto
  then have "set ps = mentioned g"
    using sort_inv_length [OF inv(1)] finite_mentioned [OF assms(1)] st(2)
    by (intro card_seteq) (auto simp: sort_inv_def)
  with inv st(2) show ?thesis by (simp add: sort_inv_def)
qed

lemma sort_depends_returns:
  assumes g: "gm_ok g" and ord: "\<forall>i. range_order (ord i)"
  shows "sort_depends ord g \<noteq> None \<longleftrightarrow> acyclic (depends_rel g)"
proof
  assume "sort_depends ord g \<noteq> None"
  then obtain ps where "sort_depends ord g = Some ps" by auto
  then show "acyclic (depends_rel g)"
    using sort_depends_sound [OF g ord] order_acyclic by blast
next
  assume acyc: "acyclic (depends_rel g)"
  have "\<exists>st. finish_loop ord g (card (mentioned g)) 2 (initial_sort_state ord g) = Some st"
    using initial_sort_state [OF g ord] by (intro finish_loop_returns [OF acyc g ord]) auto
  then show "sort_depends ord g \<noteq> None" using g ord by (auto simp: sort_depends_eq)
qed

section \<open>The programs of the configuration\<close>

text \<open>The dependencies that the text of a \<open>depends_on\<close> entry names.\<close>

definition depend_names :: "string \<Rightarrow> string set" where
  "depend_names s = trim_space ` set (split_on CHR '','' s) - {[]}"

definition depends_on :: "os_env \<Rightarrow> config_entry \<Rightarrow> string set" where
  "depends_on os c =
     (if has_parameter c ''depends_on'' then
        (case get_string os c ''depends_on'' [] of Ok s \<Rightarrow> depend_names s | _ \<Rightarrow> {})
      else {})"

definition graph_ok :: "depends_graph \<Rightarrow> bool" where
  "graph_ok g \<longleftrightarrow> gm_ok g \<and> (\<forall>n. gm_get g n \<noteq> Some [])"

lemma add_depend:
  assumes "graph_ok g"
  shows "graph_ok (add_depend prog d g) \<and>
    deps (add_depend prog d g) p = deps g p \<union> (if p = prog then {trim_space d} - {[]} else {})"
  using assms by (auto simp: graph_ok_def add_depend_def Let_def deps_def split: option.splits)

lemma fold_add_depend:
  "graph_ok g \<Longrightarrow> graph_ok (fold (add_depend prog) ds g) \<and>
    deps (fold (add_depend prog) ds g) p = deps g p \<union> (if p = prog then trim_space ` set ds - {[]} else {})"
proof (induction ds arbitrary: g)
  case (Cons d ds)
  then show ?case using add_depend [of g prog d] by (auto split: if_splits)
qed simp

lemma init_depends_fold:
  assumes "go_fold (\<lambda>c g.
      if is_program c \<and> has_parameter c ''depends_on'' then
        go_bind (get_string os c ''depends_on'' [])
          (\<lambda>s. Ok (fold (add_depend (get_program_name c)) (split_on CHR '','' s) g))
      else Ok g) configs g = Ok g'" and "graph_ok g"
  shows "graph_ok g' \<and> deps g' p =
    deps g p \<union> (\<Union>c \<in> {c \<in> set configs. is_program c \<and> get_program_name c = p}. depends_on os c)"
  using assms
proof (induction configs arbitrary: g)
  case (Cons c configs)
  show ?case
  proof (cases "is_program c \<and> has_parameter c ''depends_on''")
    case True
    then obtain s where s: "get_string os c ''depends_on'' [] = Ok s" using Cons.prems(1) by auto
    let ?g = "fold (add_depend (get_program_name c)) (split_on CHR '','' s) g"
    have "depends_on os c = depend_names s" using True s by (simp add: depends_on_def)
    moreover have "graph_ok g' \<and> deps g' p =
        deps ?g p \<union> (\<Union>c \<in> {c \<in> set configs. is_program c \<and> get_program_name c = p}. depends_on os c)"
      using Cons True s fold_add_depend by auto
    ultimately show ?thesis
      using True fold_add_depend [OF Cons.prems(2), of "get_program_name c" "split_on CHR '','' s" p]
      by (auto simp: depend_names_def)
  next
    case False
    then have "is_program c \<Longrightarrow> depends_on os c = {}" by (auto simp: depends_on_def)
    then show ?thesis using Cons False by auto
  qed
qed simp

lemma init_depends:
  assumes "init_depends os configs new_process_sorter = Ok p"
  shows "graph_ok (depends_on_graph p) \<and> procs_without_depends p = []
    \<and> deps (depends_on_graph p) n =
        (\<Union>c \<in> {c \<in> set configs. is_program c \<and> get_program_name c = n}. depends_on os c)"
  using assms init_depends_fold [of os configs "[]"]
  by (auto simp: init_depends_def new_process_sorter_def deps_def graph_ok_def)

text \<open>The programs that depend on another, and the names they depend on.\<close>

definition has_depends_info :: "os_env \<Rightarrow> config_entry list \<Rightarrow> string \<Rightarrow> bool" where
  "has_depends_info os configs n \<longleftrightarrow>
     (\<exists>d \<in> set configs. is_program d \<and> depends_on os d \<noteq> {} \<and>
        (n = get_program_name d \<or> n \<in> depends_on os d))"

lemma init_depends_mentioned:
  assumes "init_depends os configs new_process_sorter = Ok p"
  shows "n \<in> mentioned (depends_on_graph p) \<longleftrightarrow> has_depends_info os configs n"
proof -
  have ok: "graph_ok (depends_on_graph p)" using init_depends [OF assms] by simp
  then have nonempty: "m \<in> dom (gm_get (depends_on_graph p)) \<longleftrightarrow> deps (depends_on_graph p) m \<noteq> {}" for m
    by (auto simp: graph_ok_def deps_def)
  have mem: "x \<in> deps (depends_on_graph p) m \<longleftrightarrow>
      (\<exists>d \<in> set configs. is_program d \<and> get_program_name d = m \<and> x \<in> depends_on os d)" for x m
    using init_depends [OF assms, of m] by auto
  have "n \<in> mentioned (depends_on_graph p) \<longleftrightarrow>
      (\<exists>x. x \<in> deps (depends_on_graph p) n) \<or> (\<exists>m. n \<in> deps (depends_on_graph p) m)"
  proof -
    have "n \<in> dom (gm_get (depends_on_graph p)) \<longleftrightarrow> (\<exists>x. x \<in> deps (depends_on_graph p) n)"
      using nonempty [of n] by (simp add: ex_in_conv)
    moreover have "n \<in> deps (depends_on_graph p) m \<Longrightarrow> m \<in> dom (gm_get (depends_on_graph p))" for m
      using nonempty [of m] by auto
    ultimately show ?thesis unfolding mentioned_def Un_iff UN_iff by metis
  qed
  also have "\<dots> \<longleftrightarrow> has_depends_info os configs n"
  proof
    assume "(\<exists>x. x \<in> deps (depends_on_graph p) n) \<or> (\<exists>m. n \<in> deps (depends_on_graph p) m)"
    then obtain d x where "d \<in> set configs" "is_program d" "x \<in> depends_on os d"
      "n = get_program_name d \<or> n \<in> depends_on os d"
      unfolding mem by blast
    then show "has_depends_info os configs n" unfolding has_depends_info_def by blast
  next
    assume "has_depends_info os configs n"
    then obtain d x where "d \<in> set configs" "is_program d" "x \<in> depends_on os d"
      "n = get_program_name d \<or> n \<in> depends_on os d"
      unfolding has_depends_info_def by blast
    then show "(\<exists>x. x \<in> deps (depends_on_graph p) n) \<or> (\<exists>m. n \<in> deps (depends_on_graph p) m)"
      unfolding mem by blast
  qed
  finally show ?thesis .
qed

text \<open>Names without configured programs aside, the sorted programs are the programs.\<close>

lemma mset_by_name:
  assumes "distinct names"
  shows "mset (concat (map (\<lambda>n. filter (\<lambda>c. P c \<and> f c = n) cs) names)) = mset (filter (\<lambda>c. P c \<and> f c \<in> set names) cs)"
  using assms
proof (induction names)
  case (Cons n names)
  have "mset (filter (\<lambda>c. P c \<and> f c \<in> set (n # names)) cs) =
      mset (filter (\<lambda>c. P c \<and> f c = n) cs) + mset (filter (\<lambda>c. P c \<and> f c \<in> set names) cs)"
    using Cons.prems by (induction cs) auto
  then show ?case using Cons by simp
qed simp

lemma append_before: "a @ b = xs @ c # ys \<Longrightarrow> c \<notin> set a \<Longrightarrow> \<exists>zs. xs = a @ zs"
  by (auto simp: append_eq_append_conv2 append_eq_Cons_conv)

text \<open>In a concatenation by names, an entry of an earlier name comes first.\<close>

lemma concat_by_name_order:
  assumes "names = us @ n # vs" and "f c = n" and "m \<in> set us" and "d \<in> set cs" and "P d" and "f d = m"
    and "concat (map (\<lambda>n. filter (\<lambda>c. P c \<and> f c = n) cs) names) = xs @ c # ys" and "n \<notin> set us"
  shows "d \<in> set xs"
proof -
  let ?block = "\<lambda>n. filter (\<lambda>c. P c \<and> f c = n) cs"
  let ?us = "concat (map ?block us)"
  have "c \<notin> set ?us" using assms(2,8) by auto
  moreover have "?us @ concat (map ?block (n # vs)) = xs @ c # ys" using assms(1,7) by simp
  ultimately obtain zs where "xs = ?us @ zs" using append_before [of ?us _ xs c ys] by blast
  moreover have "d \<in> set ?us" using assms(3-6) by auto
  ultimately show ?thesis by simp
qed

text \<open>What \<open>sort_program\<close> returns, in terms of the graph it built.\<close>

lemma sort_program_parts:
  assumes "sort_program os ord srt configs = Ok result" and "\<forall>i. range_order (ord i)"
  obtains p names where
    "init_depends os configs new_process_sorter = Ok p" and "gm_ok (depends_on_graph p)"
    and "in_depends_order (depends_on_graph p) names" and "distinct names"
    and "set names = {n. has_depends_info os configs n}"
    and "result = concat (map (\<lambda>n. filter (\<lambda>c. is_program c \<and> get_program_name c = n) configs) names)
      @ srt by_priority (filter (\<lambda>c. is_program c \<and> get_program_name c \<notin> set names) configs)"
proof -
  from assms(1) obtain p names where p: "init_depends os configs new_process_sorter = Ok p"
    and names: "sort_depends ord (depends_on_graph p) = Some names"
    and res: "result = concat (map (\<lambda>n. filter (\<lambda>c. is_program c \<and> get_program_name c = n) configs) names)
      @ srt by_priority (procs_without_depends (init_program_without_depends (ord 0) configs p))"
    by (auto simp: sort_program_def init_program_without_depends_def Let_def returned_def split: option.splits)
  have g: "gm_ok (depends_on_graph p)" and e: "procs_without_depends p = []"
    using init_depends [OF p] by (auto simp: graph_ok_def)
  have sound: "in_depends_order (depends_on_graph p) names" "distinct names"
    "set names = mentioned (depends_on_graph p)"
    using sort_depends_sound [OF g assms(2) names] by auto
  have "gm_get (depends_on_info (ord 0) (depends_on_graph p)) n = None \<longleftrightarrow> n \<notin> set names" for n
    using depends_on_info [OF g, of "ord 0"] assms(2) sound(3) by (metis domIff)
  then have "procs_without_depends (init_program_without_depends (ord 0) configs p)
      = filter (\<lambda>c. is_program c \<and> get_program_name c \<notin> set names) configs"
    using e by (simp add: init_program_without_depends_def Let_def)
  moreover have "set names = {n. has_depends_info os configs n}"
    using sound(3) init_depends_mentioned [OF p] by blast
  ultimately show ?thesis using that [OF p g sound(1,2)] res by simp
qed

section \<open>Properties\<close>

text \<open>
  C39. The dependency loop of \<open>sortDepends\<close> returns if and only if the \<open>depends_on\<close> relation has no
  cycle, whatever order Go visits the map in; with a cycle, start-up and reload hang.
\<close>

theorem sort_depends_returns_iff:
  assumes "gm_ok g" and "\<forall>i. range_order (ord i)"
  shows "sort_depends ord g \<noteq> None \<longleftrightarrow> acyclic (depends_rel g)"
  using assms by (rule sort_depends_returns)

lemma sort_depends_returns_iff_witness:
  "sort_depends (\<lambda>_ ks. ks) [(''a'', [''b'']), (''b'', [''a''])] = None"
proof -
  let ?g = "[(''a'', [''b'']), (''b'', [''a''])] :: depends_graph"
  have "(''a'', ''b'') \<in> depends_rel ?g" "(''b'', ''a'') \<in> depends_rel ?g"
    by (simp_all add: depends_rel_def deps_def gm_get_def)
  then have "(''a'', ''a'') \<in> (depends_rel ?g)\<^sup>+" by (rule trancl_trans [OF r_into_trancl r_into_trancl])
  then have "\<not> acyclic (depends_rel ?g)" by (auto simp: acyclic_def)
  moreover have "gm_ok ?g" by (simp add: gm_ok_def)
  ultimately show ?thesis using sort_depends_returns_iff [of ?g "\<lambda>_ ks. ks"] by simp
qed

text \<open>
  C38. The sorted list is a permutation of the configured programs in which every program stands
  after all the programs it depends on, and the programs without dependency information form the
  end of the list, by priority.
\<close>

theorem sort_program_correct:
  assumes "sort_program os ord srt configs = Ok result"
    and "\<forall>i. range_order (ord i)" and "go_sort srt"
  shows "mset result = mset (filter is_program configs)
    \<and> (\<forall>xs c ys d. result = xs @ c # ys \<longrightarrow> d \<in> set configs \<longrightarrow> is_program d
         \<longrightarrow> get_program_name d \<in> depends_on os c \<longrightarrow> d \<in> set xs)
    \<and> (\<exists>first rest. result = first @ rest \<and> sorted (map priority rest)
         \<and> set rest = {c \<in> set configs. is_program c \<and> \<not> has_depends_info os configs (get_program_name c)})"
proof -
  from sort_program_parts [OF assms(1,2)] obtain p names where
    p: "init_depends os configs new_process_sorter = Ok p"
    and order: "in_depends_order (depends_on_graph p) names" and d: "distinct names"
    and names: "set names = {n. has_depends_info os configs n}"
    and res: "result = concat (map (\<lambda>n. filter (\<lambda>c. is_program c \<and> get_program_name c = n) configs) names)
      @ srt by_priority (filter (\<lambda>c. is_program c \<and> get_program_name c \<notin> set names) configs)"
    by (rule sort_program_parts [OF assms(1,2)]) (rule that)
  let ?free = "filter (\<lambda>c. is_program c \<and> get_program_name c \<notin> set names) configs"
  note srt = go_sort.srt_mset [OF assms(3)] go_sort.srt_set [OF assms(3)] go_sort.srt_by_key [OF assms(3)]
  have 1: "mset result = mset (filter is_program configs)"
    unfolding res mset_append mset_by_name [OF d] srt(1) by (induction configs) auto
  have 2: "e \<in> set xs" if r: "result = xs @ c # ys" and e: "e \<in> set configs" "is_program e"
    and dep: "get_program_name e \<in> depends_on os c" for xs c ys e
  proof -
    have "c \<in> set (filter is_program configs)" using mset_eq_setD [OF 1] r by auto
    then have c: "c \<in> set configs" "is_program c" by auto
    have "has_depends_info os configs (get_program_name c)"
      using c dep unfolding has_depends_info_def by blast
    then have n: "get_program_name c \<in> set names" using names by simp
    then obtain us vs where split: "names = us @ get_program_name c # vs" "get_program_name c \<notin> set us"
      by (auto dest: split_list_first)
    have "get_program_name e \<in> deps (depends_on_graph p) (get_program_name c)"
      using init_depends [OF p, of "get_program_name c"] c dep by auto
    then have us: "get_program_name e \<in> set us"
      using order split(1) unfolding in_depends_order_def by blast
    have "c \<notin> set (srt by_priority ?free)" using n by (simp add: srt(2))
    then obtain zs where "concat (map (\<lambda>n. filter (\<lambda>c. is_program c \<and> get_program_name c = n) configs) names)
        = xs @ c # zs" using r res by (auto simp: append_eq_append_conv2 append_eq_Cons_conv)
    from concat_by_name_order [OF split(1) refl us e refl this split(2)] show ?thesis .
  qed
  have by_key: "by_priority = (\<lambda>c d. priority c < priority d)" by (simp add: fun_eq_iff by_priority_def)
  have "sorted (map priority (srt by_priority ?free))" unfolding by_key by (rule srt(3))
  moreover have "set (srt by_priority ?free)
      = {c \<in> set configs. is_program c \<and> \<not> has_depends_info os configs (get_program_name c)}"
    using names by (simp add: srt(2))
  ultimately show ?thesis using 1 2 res by blast
qed

lemma sort_program_correct_witness:
  "(let os = \<lparr>os_environ = [], os_hostname = None, os_sprintf = \<lambda>_ _. [], os_env_file = \<lambda>_. None,
              os_order = \<lambda>ks. ks\<rparr>;
        p = (\<lambda>n kvs. \<lparr>config_dir = [], egroup = [], ename = ''program:'' @ n, key_values = kvs\<rparr>);
        a = p ''a'' [(''depends_on'', ''b'')]; b = p ''b'' []; c = p ''c'' [(''priority'', ''5'')]; d = p ''d'' []
    in sort_program os (\<lambda>_ ks. ks) isort [a, d, b, c] = Ok [b, a, c, d]
       \<and> mset [b, a, c, d] = mset (filter is_program [a, d, b, c]))"
proof -
  let ?os = "\<lparr>os_environ = [], os_hostname = None, os_sprintf = \<lambda>_ _. [], os_env_file = \<lambda>_. None,
              os_order = \<lambda>ks. ks\<rparr>"
  let ?p = "\<lambda>n kvs. \<lparr>config_dir = [], egroup = [], ename = ''program:'' @ n, key_values = kvs\<rparr>"
  let ?a = "?p ''a'' [(''depends_on'', ''b'')]"
  let ?b = "?p ''b'' []" let ?c = "?p ''c'' [(''priority'', ''5'')]" let ?d = "?p ''d'' []"
  have g: "get_string ?os ?a ''depends_on'' [] = Ok ''b''"
    by (simp add: get_string_def gm_get_def eval_with_def new_string_expression_def Let_def
        eval_expr.simps eval_step_def)
  have t: "trim_space ''b'' = ''b''" by code_simp
  have init: "init_depends ?os [?a, ?d, ?b, ?c] new_process_sorter
      = Ok \<lparr>depends_on_graph = [(''a'', [''b''])], procs_without_depends = []\<rparr>"
    using g t by (simp add: init_depends_def new_process_sorter_def is_program_def has_parameter_def
        gm_get_def add_depend_def Let_def get_program_name_def gm_put_def)
  have d: "sort_depends (\<lambda>_ ks. ks) [(''a'', [''b''])] = Some [''b'', ''a'']"
    by (simp add: sort_depends_def depends_on_info_def gm_get_def gm_put_def gm_keys_def Let_def
        finish_free_def finish_def finish_ready_def in_finished_programs_def finish_loop.simps)
  have p: "priority ?c = 5" "priority ?d = 999" by code_simp+
  have r: "sort_program ?os (\<lambda>_ ks. ks) isort [?a, ?d, ?b, ?c] = Ok [?b, ?a, ?c, ?d]"
    unfolding sort_program_def init go_bind.simps
    using p by (simp add: init_program_without_depends_def d Let_def depends_on_info_def gm_get_def gm_put_def
        gm_keys_def is_program_def get_program_name_def isort_def by_priority_def)
  show ?thesis
    unfolding Let_def using sort_program_correct [OF r _ isort.go_sort_axioms] r by simp
qed

end
