(* ===== verification/Process_Group.thy ===== *)
theory Process_Group
  imports Go_Map
begin

text \<open>
  \<open>util/util.go\<close> and \<open>config/process_group.go\<close>: the list helpers and the mapping from programs
  to groups, with the difference of two such mappings that a configuration reload reports.
\<close>

section \<open>List helpers (\<open>util\<close>)\<close>

text \<open>\<open>[]interface{}\<close> values compared with \<open>==\<close>: lists over any type with equality.\<close>

fun in_array :: "'a \<Rightarrow> 'a list \<Rightarrow> bool" where
  "in_array elem [] = False"
| "in_array elem (e # arr) = (if e = elem then True else in_array elem arr)"

fun has_all_elements :: "'a list \<Rightarrow> 'a list \<Rightarrow> bool" where
  "has_all_elements arr1 [] = True"
| "has_all_elements arr1 (e2 # arr2) =
     (if \<not> in_array e2 arr1 then False else has_all_elements arr1 arr2)"

text \<open>\<open>Sub\<close>: the inner loop runs to the end and remembers a match in \<open>exist\<close>.\<close>

fun sub_exist :: "string \<Rightarrow> string list \<Rightarrow> bool \<Rightarrow> bool" where
  "sub_exist s [] ex = ex"
| "sub_exist s (s2 # arr2) ex = sub_exist s arr2 (if s = s2 then True else ex)"

fun util_sub :: "string list \<Rightarrow> string list \<Rightarrow> string list" where
  "util_sub [] arr2 = []"
| "util_sub (s # arr1) arr2 =
     (if \<not> sub_exist s arr2 False then s # util_sub arr1 arr2 else util_sub arr1 arr2)"

fun same_exist :: "string \<Rightarrow> string list \<Rightarrow> bool" where
  "same_exist s [] = False"
| "same_exist s (s2 # arr2) = (if s2 = s then True else same_exist s arr2)"

fun all_exist :: "string list \<Rightarrow> string list \<Rightarrow> bool" where
  "all_exist [] arr2 = True"
| "all_exist (s # arr1) arr2 = (if \<not> same_exist s arr2 then False else all_exist arr1 arr2)"

definition is_same_string_array :: "string list \<Rightarrow> string list \<Rightarrow> bool" where
  "is_same_string_array arr1 arr2 =
     (if length arr1 \<noteq> length arr2 then False else all_exist arr1 arr2)"

section \<open>Process groups\<close>

text \<open>\<open>ProcessGroup\<close>: program name to group name.\<close>

record process_group =
  pg_map :: "(string, string) gomap"

definition new_process_group :: process_group where
  "new_process_group = \<lparr>pg_map = []\<rparr>"

text \<open>\<open>Clone\<close> stores every pair of the old map into a new one, in the order of the loop.\<close>

definition pg_clone :: "(string list \<Rightarrow> string list) \<Rightarrow> process_group \<Rightarrow> process_group" where
  "pg_clone ord pg =
     \<lparr>pg_map = fold (\<lambda>k m. case gm_get (pg_map pg) k of None \<Rightarrow> m | Some v \<Rightarrow> gm_put k v m)
                 (ord (gm_keys (pg_map pg))) []\<rparr>"

definition pg_add :: "string \<Rightarrow> string \<Rightarrow> process_group \<Rightarrow> process_group" where
  "pg_add grp proc_name pg = pg\<lparr>pg_map := gm_put proc_name grp (pg_map pg)\<rparr>"

definition pg_remove :: "string \<Rightarrow> process_group \<Rightarrow> process_group" where
  "pg_remove proc_name pg = pg\<lparr>pg_map := gm_del proc_name (pg_map pg)\<rparr>"

text \<open>
  \<open>GetAllGroup\<close>: the first loop collects the groups as the keys of a map, the second lists
  them; \<open>ord1\<close> and \<open>ord2\<close> are the orders of the two loops.
\<close>

definition get_all_group ::
    "(string list \<Rightarrow> string list) \<Rightarrow> (string list \<Rightarrow> string list) \<Rightarrow> process_group \<Rightarrow> string list" where
  "get_all_group ord1 ord2 pg =
     (let grps = fold (\<lambda>k m. case gm_get (pg_map pg) k of None \<Rightarrow> m | Some g \<Rightarrow> gm_put g True m)
                     (ord1 (gm_keys (pg_map pg))) []
      in ord2 (gm_keys grps))"

definition get_all_process ::
    "(string list \<Rightarrow> string list) \<Rightarrow> process_group \<Rightarrow> string \<Rightarrow> string list" where
  "get_all_process ord pg grp =
     filter (\<lambda>k. gm_get (pg_map pg) k = Some grp) (ord (gm_keys (pg_map pg)))"

definition in_group :: "process_group \<Rightarrow> string \<Rightarrow> string \<Rightarrow> bool" where
  "in_group pg proc_name grp =
     (case gm_get (pg_map pg) proc_name of None \<Rightarrow> False | Some g \<Rightarrow> grp = g)"

text \<open>\<open>ForEachProcess\<close>: the calls it makes, as \<open>(group, program)\<close> pairs in order.\<close>

definition for_each_process ::
    "(string list \<Rightarrow> string list) \<Rightarrow> process_group \<Rightarrow> (string \<times> string) list" where
  "for_each_process ord pg =
     map (\<lambda>k. (case gm_get (pg_map pg) k of None \<Rightarrow> [] | Some g \<Rightarrow> g, k)) (ord (gm_keys (pg_map pg)))"

text \<open>\<open>GetGroup\<close> stores the default when the program has no group yet.\<close>

definition get_group :: "string \<Rightarrow> string \<Rightarrow> process_group \<Rightarrow> string \<times> process_group" where
  "get_group proc_name def_group pg =
     (case gm_get (pg_map pg) proc_name of
        Some g \<Rightarrow> (g, pg)
      | None \<Rightarrow> (def_group, pg\<lparr>pg_map := gm_put proc_name def_group (pg_map pg)\<rparr>))"

text \<open>
  \<open>Sub\<close>: \<open>ord\<close> gives the order of every loop over a map that the call runs, numbered in the
  order in which the loops start (four for the two lists of groups, two for each group).
\<close>

definition changed_groups ::
    "(nat \<Rightarrow> string list \<Rightarrow> string list) \<Rightarrow> nat \<Rightarrow> process_group \<Rightarrow> process_group \<Rightarrow>
       string list \<Rightarrow> string list" where
  "changed_groups ord n pg other grps =
     concat
       (map (\<lambda>(i, grp).
          let proc1 = get_all_process (ord (n + 2 * i)) pg grp;
              proc2 = get_all_process (ord (n + 2 * i + 1)) other grp
          in if length proc2 > 0 \<and> \<not> is_same_string_array proc1 proc2 then [grp] else [])
        (enumerate 0 grps))"

definition pg_sub ::
    "(nat \<Rightarrow> string list \<Rightarrow> string list) \<Rightarrow> process_group \<Rightarrow> process_group \<Rightarrow>
       string list \<times> string list \<times> string list" where
  "pg_sub ord pg other =
     (let this_group = get_all_group (ord 0) (ord 1) pg;
          other_group = get_all_group (ord 2) (ord 3) other;
          added = util_sub this_group other_group;
          removed = util_sub other_group this_group;
          changed = changed_groups ord 4 pg other this_group
      in (added, changed, removed))"

text \<open>\<open>String\<close>: \<open>group:prog,prog;\<close> for every group.\<close>

definition pg_string ::
    "(nat \<Rightarrow> string list \<Rightarrow> string list) \<Rightarrow> process_group \<Rightarrow> string" where
  "pg_string ord pg =
     concat
       (map (\<lambda>(i, grp). grp @ '':'' @ join '','' (get_all_process (ord (2 + i)) pg grp) @ '';'')
        (enumerate 0 (get_all_group (ord 0) (ord 1) pg)))"

section \<open>Lemmas\<close>

lemma in_array_iff [simp]: "in_array e arr \<longleftrightarrow> e \<in> set arr"
  by (induction arr) auto

lemma has_all_elements_iff [simp]: "has_all_elements arr1 arr2 \<longleftrightarrow> set arr2 \<subseteq> set arr1"
  by (induction arr2) auto

lemma sub_exist_iff: "sub_exist s arr ex \<longleftrightarrow> ex \<or> s \<in> set arr"
  by (induction arr arbitrary: ex) auto

lemma util_sub_conv: "util_sub arr1 arr2 = filter (\<lambda>s. s \<notin> set arr2) arr1"
  by (induction arr1) (auto simp: sub_exist_iff)

lemma same_exist_iff: "same_exist s arr \<longleftrightarrow> s \<in> set arr"
  by (induction arr) auto

lemma all_exist_iff: "all_exist arr1 arr2 \<longleftrightarrow> set arr1 \<subseteq> set arr2"
  by (induction arr1) (auto simp: same_exist_iff)

text \<open>On lists without repetitions the comparison is equality of sets.\<close>

lemma is_same_string_array_iff:
  assumes "distinct arr1" and "distinct arr2"
  shows "is_same_string_array arr1 arr2 \<longleftrightarrow> set arr1 = set arr2"
proof
  assume "is_same_string_array arr1 arr2"
  then have "length arr1 = length arr2" "set arr1 \<subseteq> set arr2"
    by (auto simp: is_same_string_array_def all_exist_iff split: if_splits)
  then show "set arr1 = set arr2"
    using assms by (metis List.finite_set card_subset_eq distinct_card)
next
  assume "set arr1 = set arr2"
  then show "is_same_string_array arr1 arr2"
    using assms by (simp add: is_same_string_array_def all_exist_iff) (metis distinct_card)
qed

definition pg_ok :: "process_group \<Rightarrow> bool" where
  "pg_ok pg \<longleftrightarrow> gm_ok (pg_map pg)"

text \<open>What a process group means: the group of each program, and the programs of each group.\<close>

abbreviation group_of :: "process_group \<Rightarrow> string \<Rightarrow> string option" where
  "group_of pg \<equiv> gm_get (pg_map pg)"

definition members :: "process_group \<Rightarrow> string \<Rightarrow> string set" where
  "members pg g = {p. group_of pg p = Some g}"

definition groups :: "process_group \<Rightarrow> string set" where
  "groups pg = ran (group_of pg)"

lemma pg_ok_ops [simp]:
  "pg_ok new_process_group"
  "pg_ok pg \<Longrightarrow> pg_ok (pg_add g p pg)"
  "pg_ok pg \<Longrightarrow> pg_ok (pg_remove p pg)"
  "pg_ok pg \<Longrightarrow> pg_ok (snd (get_group p d pg))"
  by (auto simp: pg_ok_def new_process_group_def pg_add_def pg_remove_def get_group_def
      split: option.split)

lemma collect_groups_gen:
  assumes "gm_ok m"
  shows "gm_ok (fold (\<lambda>k m. case f k of None \<Rightarrow> m | Some g \<Rightarrow> gm_put g True m) ks m) \<and>
    dom (gm_get (fold (\<lambda>k m. case f k of None \<Rightarrow> m | Some g \<Rightarrow> gm_put g True m) ks m)) =
      dom (gm_get m) \<union> {g. \<exists>k \<in> set ks. f k = Some g}"
  using assms
proof (induction ks arbitrary: m)
  case (Cons k ks)
  show ?case
  proof (cases "f k")
    case (Some g)
    have "dom (gm_get (gm_put g True m)) = insert g (dom (gm_get m))"
      using Cons.prems by simp
    with Some Cons.IH [OF gm.ok_put [OF Cons.prems], of g True] show ?thesis by auto
  qed (use Cons in auto)
qed simp

lemma get_all_group_set:
  assumes "range_order ord1" and "range_order ord2"
  shows "set (get_all_group ord1 ord2 pg) = groups pg \<and> distinct (get_all_group ord1 ord2 pg)"
proof -
  let ?r = "fold (\<lambda>k m. case gm_get (pg_map pg) k of None \<Rightarrow> m | Some g \<Rightarrow> gm_put g True m)
              (ord1 (gm_keys (pg_map pg))) []"
  have "gm_ok ?r \<and> dom (gm_get ?r) =
      {g. \<exists>k \<in> set (ord1 (gm_keys (pg_map pg))). gm_get (pg_map pg) k = Some g}"
    using collect_groups_gen [of "[]"] by simp
  moreover have "{g. \<exists>k \<in> set (ord1 (gm_keys (pg_map pg))). gm_get (pg_map pg) k = Some g} = groups pg"
    using assms(1) by (auto simp: range_order_set gm_keys_iff groups_def ran_def)
  ultimately show ?thesis
    using assms(2) gm.set_keys [of ?r] gm.distinct_keys [of ?r]
    by (simp add: get_all_group_def Let_def range_order_simps)
qed

lemma get_all_process_set:
  assumes "range_order ord" and "pg_ok pg"
  shows "set (get_all_process ord pg g) = members pg g \<and> distinct (get_all_process ord pg g)"
  using assms gm.distinct_keys [of "pg_map pg"]
  by (auto simp: get_all_process_def members_def range_order_simps gm_keys_iff pg_ok_def)

lemma changed_groups_conv:
  assumes "\<forall>i. range_order (ord i)" and "pg_ok pg" and "pg_ok other"
  shows "changed_groups ord n pg other gs =
    filter (\<lambda>g. members other g \<noteq> {} \<and> members pg g \<noteq> members other g) gs"
proof -
  have len: "get_all_process (ord i) other g \<noteq> [] \<longleftrightarrow> members other g \<noteq> {}" for i g
    using get_all_process_set [of "ord i" other g] assms by auto
  have same: "is_same_string_array (get_all_process (ord i) pg g) (get_all_process (ord j) other g)
      \<longleftrightarrow> members pg g = members other g" for i j g
    using get_all_process_set [of "ord i" pg g] get_all_process_set [of "ord j" other g] assms
    by (subst is_same_string_array_iff) auto
  have "concat (map (\<lambda>(i :: nat, g). if P g then [g] else []) (enumerate k gs)) = filter P gs" for P k
    by (induction gs arbitrary: k) auto
  then show ?thesis by (simp add: changed_groups_def len same Let_def cong: if_cong)
qed

text \<open>
  The difference that a reload reports: with every loop over a map in any order,
  \<open>added\<close> holds exactly the groups that only the new mapping has, \<open>removed\<close> those that only the
  old one has, \<open>changed\<close> those that both have with different programs, each group once.
\<close>

theorem pg_sub_correct:
  assumes "\<forall>i. range_order (ord i)" and "pg_ok pg" and "pg_ok other"
    and "pg_sub ord pg other = (added, changed, removed)"
  shows "set added = groups pg - groups other \<and>
    set removed = groups other - groups pg \<and>
    set changed = {g \<in> groups pg \<inter> groups other. members pg g \<noteq> members other g} \<and>
    distinct (added @ removed) \<and> distinct changed"
proof -
  have mine: "set (get_all_group (ord 0) (ord 1) pg) = groups pg"
    "distinct (get_all_group (ord 0) (ord 1) pg)"
    and other: "set (get_all_group (ord 2) (ord 3) other) = groups other"
    "distinct (get_all_group (ord 2) (ord 3) other)"
    using get_all_group_set assms(1) by auto
  have eqs: "added = util_sub (get_all_group (ord 0) (ord 1) pg) (get_all_group (ord 2) (ord 3) other)"
    "removed = util_sub (get_all_group (ord 2) (ord 3) other) (get_all_group (ord 0) (ord 1) pg)"
    "changed = changed_groups ord 4 pg other (get_all_group (ord 0) (ord 1) pg)"
    using assms(4) by (auto simp: pg_sub_def Let_def)
  have "members p g \<noteq> {} \<longleftrightarrow> g \<in> groups p" for p g
    by (auto simp: members_def groups_def ran_def)
  then show ?thesis
    using mine other
    by (auto simp: eqs util_sub_conv changed_groups_conv [OF assms(1-3)])
qed

lemma pg_sub_correct_witness:
  "(let new = \<lparr>pg_map = [(''proc-11'', ''group-1''), (''proc-13'', ''group-1''), (''proc-31'', ''group-3'')]\<rparr>;
        old = \<lparr>pg_map = [(''proc-11'', ''group-1''), (''proc-21'', ''group-2'')]\<rparr>
    in pg_sub (\<lambda>_ ks. ks) new old = ([''group-3''], [''group-1''], [''group-2''])
       \<and> set [''group-3''] = groups new - groups old)"
proof -
  let ?new = "\<lparr>pg_map = [(''proc-11'', ''group-1''), (''proc-13'', ''group-1''), (''proc-31'', ''group-3'')]\<rparr>"
  let ?old = "\<lparr>pg_map = [(''proc-11'', ''group-1''), (''proc-21'', ''group-2'')]\<rparr>"
  have eq: "pg_sub (\<lambda>_ ks. ks) ?new ?old = ([''group-3''], [''group-1''], [''group-2''])" by code_simp
  have "pg_ok ?new" "pg_ok ?old" by (simp_all add: pg_ok_def gm_ok_def)
  from pg_sub_correct [OF _ this eq] eq show ?thesis by simp
qed

end
