(* ===== verification/Go_Path.thy ===== *)
theory Go_Path
  imports Go_Prelude
begin

text \<open>
  The functions of Go's \<open>path/filepath\<close> (Unix) and \<open>regexp\<close> packages that the configuration
  loader uses: \<open>Clean\<close>, \<open>Dir\<close>, \<open>Base\<close>, \<open>Join\<close>, \<open>IsAbs\<close>, and \<open>regexp.MatchString\<close>
  for the patterns that \<open>toRegexp\<close> builds.
\<close>

section \<open>Paths\<close>

definition is_abs :: "string \<Rightarrow> bool" where
  "is_abs p \<longleftrightarrow> has_prefix p ''/''"

text \<open>The stack of path elements, the last one first.\<close>

definition clean_elem :: "bool \<Rightarrow> string \<Rightarrow> string list \<Rightarrow> string list" where
  "clean_elem rooted e st =
     (if e = [] \<or> e = ''.'' then st
      else if e = ''..'' then
        (case st of
           t # ts \<Rightarrow> if t \<noteq> ''..'' then ts else e # st
         | [] \<Rightarrow> if rooted then [] else [e])
      else e # st)"

definition path_clean :: "string \<Rightarrow> string" where
  "path_clean p =
     (let out = join ''/'' (rev (fold (clean_elem (is_abs p)) (split_on CHR ''/'' p) []))
      in if is_abs p then CHR ''/'' # out else if out = [] then ''.'' else out)"

definition upto_last_slash :: "string \<Rightarrow> string" where
  "upto_last_slash p = rev (dropWhile (\<lambda>c. c \<noteq> CHR ''/'') (rev p))"

definition after_last_slash :: "string \<Rightarrow> string" where
  "after_last_slash p = rev (takeWhile (\<lambda>c. c \<noteq> CHR ''/'') (rev p))"

definition path_dir :: "string \<Rightarrow> string" where
  "path_dir p = path_clean (upto_last_slash p)"

definition path_base :: "string \<Rightarrow> string" where
  "path_base p =
     (if p = [] then ''.''
      else let q = rev (dropWhile (\<lambda>c. c = CHR ''/'') (rev p))
           in if q = [] then ''/'' else after_last_slash q)"

definition path_join :: "string list \<Rightarrow> string" where
  "path_join ps =
     (let ne = filter (\<lambda>p. p \<noteq> []) ps in if ne = [] then [] else path_clean (join ''/'' ne))"

lemma upto_after_last_slash: "upto_last_slash p @ after_last_slash p = p"
  by (metis after_last_slash_def rev_append rev_rev_ident takeWhile_dropWhile_id upto_last_slash_def)

lemma after_last_slash_no_slash: "CHR ''/'' \<notin> set (after_last_slash p)"
  by (auto simp: after_last_slash_def dest: set_takeWhileD)

lemma path_clean_abs: "is_abs p \<Longrightarrow> is_abs (path_clean p)"
  by (auto simp: path_clean_def is_abs_def Let_def)

section \<open>Regular expressions\<close>

text \<open>
  The regular expressions built from file patterns: literal bytes, \<open>.\<close>, \<open>.*\<close> and \<open>\.\<close>. A
  pattern with another metacharacter or a non-ASCII byte has no such reading (\<^const>\<open>None\<close>).
\<close>

datatype re_tok = Byte char | Any_Byte | Any_Run

definition re_literal :: "char \<Rightarrow> bool" where
  "re_literal c \<longleftrightarrow> (of_char c :: nat) < 128 \<and> c \<notin> set (CHR 0x5C # ''.+*?()|[]{}^$'')"

fun re_parse :: "string \<Rightarrow> re_tok list option" where
  "re_parse [] = Some []"
| "re_parse (c # cs) =
     (if c = CHR 0x5C then
        (case cs of [] \<Rightarrow> None
         | d # ds \<Rightarrow> if d = CHR ''.'' then map_option ((#) (Byte d)) (re_parse ds) else None)
      else if c = CHR ''.'' then
        (case cs of [] \<Rightarrow> Some [Any_Byte]
         | d # ds \<Rightarrow> if d = CHR ''*'' then map_option ((#) Any_Run) (re_parse ds)
                   else map_option ((#) Any_Byte) (re_parse cs))
      else if re_literal c then map_option ((#) (Byte c)) (re_parse cs)
      else None)"

text \<open>Does some prefix of the text match; \<open>.\<close> does not match a newline.\<close>

fun re_prefix :: "re_tok list \<Rightarrow> string \<Rightarrow> bool" where
  "re_prefix [] s = True"
| "re_prefix (Byte c # ts) s = (case s of [] \<Rightarrow> False | d # ds \<Rightarrow> c = d \<and> re_prefix ts ds)"
| "re_prefix (Any_Byte # ts) s = (case s of [] \<Rightarrow> False | d # ds \<Rightarrow> d \<noteq> CHR 0x0A \<and> re_prefix ts ds)"
| "re_prefix (Any_Run # ts) s =
     (re_prefix ts s
      \<or> (case s of [] \<Rightarrow> False | d # ds \<Rightarrow> d \<noteq> CHR 0x0A \<and> re_prefix (Any_Run # ts) ds))"

fun re_search :: "re_tok list \<Rightarrow> string \<Rightarrow> bool" where
  "re_search ts [] = re_prefix ts []"
| "re_search ts (c # cs) = (re_prefix ts (c # cs) \<or> re_search ts cs)"

text \<open>\<open>regexp.MatchString\<close>; \<open>re\<close> answers for the patterns outside the fragment.\<close>

definition match_string :: "(string \<Rightarrow> string \<Rightarrow> bool) \<Rightarrow> string \<Rightarrow> string \<Rightarrow> bool" where
  "match_string re p s = (case re_parse p of Some ts \<Rightarrow> re_search ts s | None \<Rightarrow> re p s)"

lemma re_search_append: "re_search ts s \<Longrightarrow> re_search ts (w @ s)"
  by (induction w) (auto, (cases s; simp)?)

end
