(* ===== verification/Config.thy ===== *)
theory Config
  imports Process_Sort Process_Group Go_Path
begin

text \<open>
  The configuration of \<open>config/config.go\<close>: the map from entry names to entries, the include
  files, the parsing of group, program and other sections, and the queries. Reading INI files is a
  package outside the repository: a parsed file is a list of sections of a type \<open>'s\<close>, and the
  operations on a section are the record \<open>ini_api\<close>, whose documented laws are the locale
  \<open>ini_section\<close>.
\<close>

section \<open>Sections of an INI file\<close>

record 's ini_api =
  sec_name :: "'s \<Rightarrow> string"
  sec_keys :: "'s \<Rightarrow> string list"
  sec_has :: "'s \<Rightarrow> string \<Rightarrow> bool"
  sec_value :: "'s \<Rightarrow> string \<Rightarrow> string option"
  sec_int :: "'s \<Rightarrow> string \<Rightarrow> int option"
  sec_add :: "string \<Rightarrow> string \<Rightarrow> 's \<Rightarrow> 's"

locale ini_section =
  fixes api :: "'s ini_api"
  assumes name_add: "sec_name api (sec_add api k v s) = sec_name api s"
    and value_add: "sec_value api (sec_add api k v s) = (sec_value api s)(k \<mapsto> v)"
    and keys_value: "set (sec_keys api s) = dom (sec_value api s)"
    and distinct_keys: "distinct (sec_keys api s)"
    and has_value: "sec_has api s k \<longleftrightarrow> sec_value api s k \<noteq> None"

definition value_with_default :: "'s ini_api \<Rightarrow> 's \<Rightarrow> string \<Rightarrow> string \<Rightarrow> string" where
  "value_with_default api s k d = (case sec_value api s k of Some v \<Rightarrow> v | None \<Rightarrow> d)"

definition get_section :: "'s ini_api \<Rightarrow> string \<Rightarrow> 's list \<Rightarrow> 's option" where
  "get_section api name secs = find (\<lambda>s. sec_name api s = name) secs"

section \<open>The configuration\<close>

record config =
  config_file :: string
  entries :: "(string, config_entry) gomap"
  program_group :: process_group

definition new_config :: "string \<Rightarrow> config" where
  "new_config file = \<lparr>config_file = file, entries = [], program_group = new_process_group\<rparr>"

definition get_config_file_dir :: "config \<Rightarrow> string" where
  "get_config_file_dir c = path_dir (config_file c)"

text \<open>The entry, and the configuration that holds it; \<open>store_entry\<close> writes through the pointer.\<close>

definition create_entry :: "string \<Rightarrow> string \<Rightarrow> config \<Rightarrow> config_entry \<times> config" where
  "create_entry name dir c =
     (case gm_get (entries c) name of
        Some e \<Rightarrow> (e, c)
      | None \<Rightarrow> (new_entry dir, c\<lparr>entries := gm_put name (new_entry dir) (entries c)\<rparr>))"

definition store_entry :: "string \<Rightarrow> config_entry \<Rightarrow> config \<Rightarrow> config" where
  "store_entry name e c = c\<lparr>entries := gm_put name e (entries c)\<rparr>"

definition entry_parse :: "'s ini_api \<Rightarrow> 's \<Rightarrow> config_entry \<Rightarrow> config_entry" where
  "entry_parse api s e =
     e\<lparr>ename := sec_name api s,
       key_values := fold (\<lambda>k. gm_put k (trim_space (value_with_default api s k []))) (sec_keys api s)
                       (key_values e)\<rparr>"

section \<open>Include files\<close>

text \<open>\<open>toRegexp\<close>.\<close>

definition replace_byte :: "char \<Rightarrow> string \<Rightarrow> string \<Rightarrow> string" where
  "replace_byte c r s = concat (map (\<lambda>d. if d = c then r else [d]) s)"

definition to_regexp :: "string \<Rightarrow> string" where
  "to_regexp pattern =
     join [CHR 0x5C, CHR ''.'']
       (map (\<lambda>t. replace_byte CHR ''?'' ''.'' (replace_byte CHR ''*'' ''.*'' t)) (split_on CHR ''.'' pattern))"

text \<open>\<open>ioutil.ReadDir\<close>, and the matcher for patterns outside the fragment of \<^const>\<open>re_parse\<close>.\<close>

record dir_env =
  de_read_dir :: "string \<Rightarrow> string list option"
  de_regexp :: "string \<Rightarrow> string \<Rightarrow> bool"

definition include_pattern ::
    "os_env \<Rightarrow> dir_env \<Rightarrow> string \<Rightarrow> (string \<rightharpoonup> string) \<Rightarrow> string \<Rightarrow> string list \<Rightarrow> string list go_result" where
  "include_pattern os de cfg_dir env f_raw result =
     (case returned (eval_expr env (os_sprintf os) f_raw) of
        Ok f \<Rightarrow>
          (let dir = (if is_abs f then path_dir f else path_join [cfg_dir, path_dir f])
           in case de_read_dir de dir of
                None \<Rightarrow> Ok result
              | Some names \<Rightarrow>
                  Ok (result @ map (\<lambda>n. path_join [dir, n])
                        (filter (match_string (de_regexp de) (to_regexp (path_base f))) names)))
      | Err e \<Rightarrow> Ok result
      | Panic \<Rightarrow> Panic
      | Loops \<Rightarrow> Loops)"

definition get_include_files ::
    "'s ini_api \<Rightarrow> os_env \<Rightarrow> dir_env \<Rightarrow> config \<Rightarrow> 's list \<Rightarrow> string list go_result" where
  "get_include_files api os de c cfg =
     (case get_section api ''include'' cfg of
        None \<Rightarrow> Ok []
      | Some include_section \<Rightarrow>
          (case sec_value api include_section ''files'' of
             None \<Rightarrow> Ok []
           | Some key \<Rightarrow>
               go_bind (new_string_expression (os_environ os) (os_hostname os) [''here'', get_config_file_dir c])
                 (\<lambda>env. go_fold (include_pattern os de (get_config_file_dir c) env) (str_fields key) [])))"

section \<open>Parsing\<close>

definition set_program_default_params :: "'s ini_api \<Rightarrow> 's list \<Rightarrow> 's list" where
  "set_program_default_params api cfg =
     (case get_section api ''program-default'' cfg of
        None \<Rightarrow> cfg
      | Some def \<Rightarrow>
          map (\<lambda>s. if sec_name api s = ''program-default'' \<or> \<not> has_prefix (sec_name api s) ''program:'' then s
                   else fold (\<lambda>k s. if sec_has api s k then s
                                    else sec_add api k (value_with_default api def k []) s)
                          (sec_keys api def) s) cfg)"

definition parse_group :: "'s ini_api \<Rightarrow> 's list \<Rightarrow> config \<Rightarrow> config" where
  "parse_group api cfg c =
     fold (\<lambda>s c.
         if has_prefix (sec_name api s) ''group:'' then
           (let (e, c) = create_entry (sec_name api s) (get_config_file_dir c) c;
                e = entry_parse api s e;
                c = store_entry (sec_name api s) e c
            in c\<lparr>program_group := fold (pg_add (get_group_name e)) (get_programs e) (program_group c)\<rparr>)
         else c) cfg c"

definition program_or_listener :: "string \<Rightarrow> bool \<times> string" where
  "program_or_listener name =
     (let p = has_prefix name ''program:''; l = has_prefix name ''eventlistener:''
      in (p \<or> l, if p then ''program:'' else if l then ''eventlistener:'' else []))"

text \<open>The string expression of the \<open>i\<close>-th process; \<open>GetGroup\<close> may store the default group.\<close>

definition instance_envs ::
    "'s ini_api \<Rightarrow> os_env \<Rightarrow> string \<Rightarrow> int \<Rightarrow> string \<Rightarrow> string \<Rightarrow> 's \<Rightarrow> (string \<rightharpoonup> string) go_result" where
  "instance_envs api os program_name i grp dir s =
     go_bind (new_string_expression (os_environ os) (os_hostname os)
         [''program_name'', program_name, ''process_num'', itoa i, ''group_name'', grp, ''here'', dir])
       (\<lambda>envs. Ok (case sec_value api s ''environment'' of
            None \<Rightarrow> envs
          | Some v \<Rightarrow> fold (\<lambda>(k, v). se_add (''ENV_'' @ k) v) (parse_env v) envs))"

type_synonym 's parse_state = "'s \<times> config \<times> string list"

definition parse_instance ::
    "'s ini_api \<Rightarrow> os_env \<Rightarrow> string \<Rightarrow> string \<Rightarrow> string \<Rightarrow> string \<Rightarrow> int \<Rightarrow> 's parse_state \<Rightarrow> 's parse_state go_result" where
  "parse_instance api os prefix program_name orig_proc orig_cmd i st =
     (let (s, c, loaded) = st;
          dir = get_config_file_dir c;
          (grp, pg) = get_group program_name program_name (program_group c);
          c = c\<lparr>program_group := pg\<rparr>
      in go_bind (instance_envs api os program_name i grp dir s)
           (\<lambda>envs. case returned (eval_expr envs (os_sprintf os) orig_cmd) of
              Err e \<Rightarrow> Ok (s, c, loaded)
            | Panic \<Rightarrow> Panic
            | Loops \<Rightarrow> Loops
            | Ok cmd \<Rightarrow>
                (let s = sec_add api ''command'' cmd s
                 in case returned (eval_expr envs (os_sprintf os) orig_proc) of
                      Err e \<Rightarrow> Ok (s, c, loaded)
                    | Panic \<Rightarrow> Panic
                    | Loops \<Rightarrow> Loops
                    | Ok proc_name \<Rightarrow>
                        (let s = sec_add api ''process_name'' proc_name s;
                             s = sec_add api ''numprocs_start'' (itoa (i - 1)) s;
                             s = sec_add api ''process_num'' (itoa i) s;
                             (e, c) = create_entry proc_name dir c;
                             e = (entry_parse api s e)\<lparr>ename := prefix @ proc_name\<rparr>;
                             (grp, pg) = get_group program_name program_name (program_group c);
                             c = c\<lparr>program_group := pg\<rparr>
                         in Ok (s, store_entry proc_name (set_group grp e) c, loaded @ [proc_name])))))"

definition parse_program_section ::
    "'s ini_api \<Rightarrow> os_env \<Rightarrow> 's \<Rightarrow> 's list \<times> config \<times> string list
       \<Rightarrow> ('s list \<times> config \<times> string list) go_result" where
  "parse_program_section api os s st =
     (let (secs, c, loaded) = st; (yes, prefix) = program_or_listener (sec_name api s)
      in if yes then
           (let num_procs = (case sec_int api s ''numprocs'' of Some n \<Rightarrow> n | None \<Rightarrow> 1);
                program_name = drop (length prefix) (sec_name api s);
                orig_proc = (case sec_value api s ''process_name'' of Some p \<Rightarrow> p | None \<Rightarrow> program_name);
                orig_cmd = value_with_default api s ''command'' []
            in go_bind (go_fold (parse_instance api os prefix program_name orig_proc orig_cmd)
                          [1..num_procs] (s, c, loaded))
                 (\<lambda>(s, c, loaded). Ok (secs @ [s], c, loaded)))
         else Ok (secs @ [s], c, loaded))"

text \<open>The sections, which the loop changes in place, the configuration and the loaded programs.\<close>

definition parse_program ::
    "'s ini_api \<Rightarrow> os_env \<Rightarrow> 's list \<Rightarrow> config \<Rightarrow> ('s list \<times> config \<times> string list) go_result" where
  "parse_program api os cfg c = go_fold (parse_program_section api os) cfg ([], c, [])"

definition parse_other :: "'s ini_api \<Rightarrow> 's list \<Rightarrow> config \<Rightarrow> config" where
  "parse_other api cfg c =
     fold (\<lambda>s c.
         if \<not> has_prefix (sec_name api s) ''group:'' \<and> \<not> has_prefix (sec_name api s) ''program:''
            \<and> \<not> has_prefix (sec_name api s) ''eventlistener:'' then
           (let (e, c) = create_entry (sec_name api s) (get_config_file_dir c) c
            in store_entry (sec_name api s) (entry_parse api s e) c)
         else c) cfg c"

definition parse_config :: "'s ini_api \<Rightarrow> os_env \<Rightarrow> 's list \<Rightarrow> config \<Rightarrow> (config \<times> string list) go_result" where
  "parse_config api os cfg c =
     (let cfg = set_program_default_params api cfg; c = parse_group api cfg c
      in go_bind (parse_program api os cfg c)
           (\<lambda>(cfg, c, loaded). Ok (parse_other api cfg c, loaded)))"

text \<open>\<open>Load\<close>: \<open>load_file f secs\<close> is \<open>myini.LoadFile(f)\<close>.\<close>

definition load_config ::
    "'s ini_api \<Rightarrow> (string \<Rightarrow> 's list \<Rightarrow> 's list) \<Rightarrow> os_env \<Rightarrow> dir_env \<Rightarrow> config
       \<Rightarrow> (config \<times> string list) go_result" where
  "load_config api load_file os de c =
     (let c = c\<lparr>program_group := new_process_group\<rparr>; cfg = load_file (config_file c) []
      in go_bind (get_include_files api os de c cfg)
           (\<lambda>files. parse_config api os (fold load_file files cfg) c))"

section \<open>Queries\<close>

definition get_unix_http_server :: "config \<Rightarrow> config_entry option" where
  "get_unix_http_server c = gm_get (entries c) ''unix_http_server''"

definition get_supervisord :: "config \<Rightarrow> config_entry option" where
  "get_supervisord c = gm_get (entries c) ''supervisord''"

definition get_inet_http_server :: "config \<Rightarrow> config_entry option" where
  "get_inet_http_server c = gm_get (entries c) ''inet_http_server''"

definition get_supervisorctl :: "config \<Rightarrow> config_entry option" where
  "get_supervisorctl c = gm_get (entries c) ''supervisorctl''"

definition get_entries ::
    "(string list \<Rightarrow> string list) \<Rightarrow> (config_entry \<Rightarrow> bool) \<Rightarrow> config \<Rightarrow> config_entry list" where
  "get_entries ord P c =
     filter P (List.map_filter (gm_get (entries c)) (ord (gm_keys (entries c))))"

definition get_groups :: "(string list \<Rightarrow> string list) \<Rightarrow> config \<Rightarrow> config_entry list" where
  "get_groups ord c = get_entries ord is_group c"

definition get_event_listeners :: "(string list \<Rightarrow> string list) \<Rightarrow> config \<Rightarrow> config_entry list" where
  "get_event_listeners ord c = get_entries ord is_event_listener c"

text \<open>\<open>Config.GetPrograms\<close>: \<open>ord 0\<close> orders the entries, the rest of \<open>ord\<close> is for the sorter.\<close>

type_synonym entry_sort = "(config_entry \<Rightarrow> config_entry \<Rightarrow> bool) \<Rightarrow> config_entry list \<Rightarrow> config_entry list"

definition get_all_programs ::
    "os_env \<Rightarrow> (nat \<Rightarrow> string list \<Rightarrow> string list) \<Rightarrow> entry_sort \<Rightarrow> config \<Rightarrow> config_entry list go_result" where
  "get_all_programs os ord srt c =
     sort_program os (\<lambda>i. ord (Suc i)) srt (get_entries (ord 0) is_program c)"

definition get_program_names ::
    "os_env \<Rightarrow> (nat \<Rightarrow> string list \<Rightarrow> string list) \<Rightarrow> (nat \<Rightarrow> string list \<Rightarrow> string list) \<Rightarrow> entry_sort
       \<Rightarrow> config \<Rightarrow> string list go_result" where
  "get_program_names os ord ord' srt c =
     go_bind (get_all_programs os ord srt c)
       (\<lambda>programs. go_bind (sort_program os ord' srt programs)
         (\<lambda>programs. Ok (map get_program_name programs)))"

definition get_program :: "(string list \<Rightarrow> string list) \<Rightarrow> string \<Rightarrow> config \<Rightarrow> config_entry option" where
  "get_program ord name c =
     find (\<lambda>e. is_program e \<and> get_program_name e = name)
       (List.map_filter (gm_get (entries c)) (ord (gm_keys (entries c))))"

definition config_string ::
    "(string list \<Rightarrow> string list) \<Rightarrow> (string list \<Rightarrow> string list) \<Rightarrow> config \<Rightarrow> string" where
  "config_string ord ord' c =
     concat (map (\<lambda>e. ''['' @ ename e @ '']'' @ [CHR 0x0A] @ entry_string ord' e @ [CHR 0x0A])
       (List.map_filter (gm_get (entries c)) (ord (gm_keys (entries c)))))"

definition remove_program :: "string \<Rightarrow> config \<Rightarrow> config" where
  "remove_program name c =
     c\<lparr>entries := gm_del name (entries c), program_group := pg_remove name (program_group c)\<rparr>"

section \<open>Lemmas\<close>

text \<open>Text without white space at its ends is not trimmed.\<close>

lemma space_encodings_hd: "\<forall>e \<in> set space_encodings. e \<noteq> [] \<and> \<not> (33 \<le> (of_char (hd e) :: nat) \<and> (of_char (hd e) :: nat) \<le> 127)"
  and space_encodings_last: "\<forall>e \<in> set space_encodings. e \<noteq> [] \<and> \<not> (33 \<le> (of_char (last e) :: nat) \<and> (of_char (last e) :: nat) \<le> 127)"
  by code_simp+

lemma space_len_printable:
  assumes "33 \<le> (of_char c :: nat)" and "(of_char c :: nat) \<le> 127"
  shows "space_len (c # cs) = 0" and "space_len_end (c # cs) = 0"
proof -
  have "\<not> has_prefix (c # cs) e" if e: "e \<in> set space_encodings" for e
  proof (cases e)
    case (Cons d ds)
    then show ?thesis using bspec [OF space_encodings_hd e] assms by auto
  qed (use bspec [OF space_encodings_hd e] in simp)
  then have "find (has_prefix (c # cs)) space_encodings = None" by (simp add: find_None_iff)
  then show "space_len (c # cs) = 0" by (simp add: space_len_def)
  have "\<not> has_prefix (c # cs) (rev e)" if e: "e \<in> set space_encodings" for e
  proof (cases e rule: rev_cases)
    case (snoc ds d)
    then show ?thesis using bspec [OF space_encodings_last e] assms by auto
  qed (use bspec [OF space_encodings_last e] in simp)
  then have "find (\<lambda>e. has_prefix (c # cs) (rev e)) space_encodings = None" by (simp add: find_None_iff)
  then show "space_len_end (c # cs) = 0" by (simp add: space_len_end_def)
qed

lemma trim_space_id:
  assumes "\<forall>c \<in> set s. 33 \<le> (of_char c :: nat) \<and> (of_char c :: nat) \<le> 127"
  shows "trim_space s = s"
proof (cases s)
  case Nil
  then show ?thesis by (simp add: trim_space_def trim_left.simps trim_right_rev.simps)
next
  case (Cons c cs)
  obtain d ds where r: "rev s = d # ds" using Cons by (cases "rev s") auto
  then have "d \<in> set s" by (metis list.set_intros(1) set_rev)
  then have "trim_right_rev (rev s) = rev s"
    using space_len_printable(2) [of d ds] assms r by (simp add: trim_right_rev.simps)
  moreover have "trim_left s = s"
    using space_len_printable(1) [of c cs] assms Cons by (simp add: trim_left.simps)
  ultimately show ?thesis by (simp add: trim_space_def)
qed

lemma digits_printable: "c \<in> set (digits n) \<Longrightarrow> 33 \<le> (of_char c :: nat) \<and> (of_char c :: nat) \<le> 127"
proof (induction n rule: digits.induct)
  case (1 n)
  then show ?case by (cases "n < 10") (auto simp: digits.simps [of n])
qed

lemma trim_itoa [simp]: "trim_space (itoa i) = itoa i"
  using digits_printable by (intro trim_space_id) (auto simp: itoa_def)

context ini_section begin

lemma value_fold_default:
  "sec_value api (fold (\<lambda>k s. if sec_has api s k then s else sec_add api k (f k) s) ks s)
     = (\<lambda>k. if sec_value api s k = None \<and> k \<in> set ks then Some (f k) else sec_value api s k)"
  by (induction ks arbitrary: s) (auto simp: has_value value_add fun_eq_iff)

lemma name_fold_default:
  "sec_name api (fold (\<lambda>k s. if sec_has api s k then s else sec_add api k (f k) s) ks s) = sec_name api s"
  by (induction ks arbitrary: s) (auto simp: name_add)

text \<open>The keys of an entry after parsing a section: the section's values over the old ones.\<close>

lemma entry_parse_keys:
  assumes "gm_ok (key_values e)"
  shows "gm_get (key_values (entry_parse api s e)) k
    = (case sec_value api s k of Some v \<Rightarrow> Some (trim_space v) | None \<Rightarrow> gm_get (key_values e) k)"
proof -
  have "gm_get (fold (\<lambda>k. gm_put k (f k)) ks m) k = (if k \<in> set ks then Some (f k) else gm_get m k)"
    if "gm_ok m" for f :: "string \<Rightarrow> string" and ks m
    using that by (induction ks arbitrary: m) auto
  then show ?thesis
    using assms keys_value [of s]
    by (auto simp: entry_parse_def value_with_default_def split: option.splits)
qed

lemma entry_parse_ok: "gm_ok (key_values e) \<Longrightarrow> gm_ok (key_values (entry_parse api s e))"
proof -
  have "gm_ok m \<Longrightarrow> gm_ok (fold (\<lambda>k. gm_put k (f k)) ks m)" for f :: "string \<Rightarrow> string" and ks m
    by (induction ks arbitrary: m) auto
  then show "gm_ok (key_values e) \<Longrightarrow> gm_ok (key_values (entry_parse api s e))"
    by (simp add: entry_parse_def)
qed

end

text \<open>Every entry of the configuration has distinct keys.\<close>

definition config_ok :: "config \<Rightarrow> bool" where
  "config_ok c \<longleftrightarrow> gm_ok (entries c) \<and> (\<forall>n e. gm_get (entries c) n = Some e \<longrightarrow> gm_ok (key_values e))"

lemma create_entry_ok:
  assumes "config_ok c" and "create_entry n dir c = (e, c')"
  shows "config_ok c' \<and> gm_ok (key_values e) \<and> config_file c' = config_file c
    \<and> program_group c' = program_group c \<and> (\<forall>m. m \<noteq> n \<longrightarrow> gm_get (entries c') m = gm_get (entries c) m)"
  using assms by (auto simp: create_entry_def config_ok_def new_entry_def split: option.splits if_splits)

lemma store_entry_ok: "config_ok c \<Longrightarrow> gm_ok (key_values e) \<Longrightarrow> config_ok (store_entry n e c)"
  by (auto simp: store_entry_def config_ok_def)

lemma get_group_again: "gm_ok (pg_map pg) \<Longrightarrow> get_group p d pg = (g, pg') \<Longrightarrow> get_group p d pg' = (g, pg')"
  by (auto simp: get_group_def split: option.splits)

lemma get_group_ok: "gm_ok (pg_map pg) \<Longrightarrow> get_group p d pg = (g, pg') \<Longrightarrow> gm_ok (pg_map pg')"
  by (auto simp: get_group_def split: option.splits)

lemma eval_template_any:
  "list_all (segment_ok se) segs \<Longrightarrow> eval_expr se sp (template segs) = Some (Ok (substitute se segs))"
  using eval_template_prefix [of se segs "[]" sp] by simp

text \<open>What one iteration of the \<open>numprocs\<close> loop does when the expressions evaluate.\<close>

definition instance_entry :: "string \<Rightarrow> string \<Rightarrow> int \<Rightarrow> string \<Rightarrow> string \<Rightarrow> config_entry \<Rightarrow> bool" where
  "instance_entry prefix grp i cmd name e \<longleftrightarrow>
     ename e = prefix @ name \<and> egroup e = grp
     \<and> gm_get (key_values e) ''process_num'' = Some (itoa i)
     \<and> gm_get (key_values e) ''numprocs_start'' = Some (itoa (i - 1))
     \<and> gm_get (key_values e) ''process_name'' = Some (trim_space name)
     \<and> gm_get (key_values e) ''command'' = Some (trim_space cmd)"

lemma parse_instance_step:
  assumes ini: "ini_section api" and ok: "config_ok c" "gm_ok (pg_map (program_group c))"
    and grp: "get_group prog prog (program_group c) = (grp, pg)"
    and env: "instance_envs api os prog i grp (get_config_file_dir c) s = Ok env"
    and segs: "list_all (segment_ok env) (cmd_segs @ name_segs)"
  obtains s' c' where
    "parse_instance api os prefix prog (template name_segs) (template cmd_segs) i (s, c, loaded)
      = Ok (s', c', loaded @ [substitute env name_segs])"
    and "config_ok c'" and "config_file c' = config_file c" and "program_group c' = pg"
    and "sec_name api s' = sec_name api s"
    and "sec_value api s' ''environment'' = sec_value api s ''environment''"
    and "\<And>m. m \<noteq> substitute env name_segs \<Longrightarrow> gm_get (entries c') m = gm_get (entries c) m"
    and "\<exists>e. gm_get (entries c') (substitute env name_segs) = Some e
      \<and> instance_entry prefix grp i (substitute env cmd_segs) (substitute env name_segs) e"
proof -
  let ?name = "substitute env name_segs" and ?cmd = "substitute env cmd_segs"
  define s1 where "s1 = sec_add api ''process_num'' (itoa i) (sec_add api ''numprocs_start'' (itoa (i - 1))
    (sec_add api ''process_name'' ?name (sec_add api ''command'' ?cmd s)))"
  define c1 where "c1 = c\<lparr>program_group := pg\<rparr>"
  have ok1: "config_ok c1" using ok(1) by (simp add: c1_def config_ok_def)
  obtain e c2 where e: "create_entry ?name (get_config_file_dir c) c1 = (e, c2)" by fastforce
  note c2 = create_entry_ok [OF ok1 e]
  define e' where "e' = set_group grp ((entry_parse api s1 e)\<lparr>ename := prefix @ ?name\<rparr>)"
  have pg2: "get_group prog prog (program_group c2) = (grp, pg)"
    using c2 get_group_again [OF ok(2) grp] by (simp add: c1_def)
  have "eval_expr env (os_sprintf os) (template cmd_segs) = Some (Ok ?cmd)"
    "eval_expr env (os_sprintf os) (template name_segs) = Some (Ok ?name)"
    using segs by (auto intro: eval_template_any)
  then have run: "parse_instance api os prefix prog (template name_segs) (template cmd_segs) i (s, c, loaded)
      = Ok (s1, store_entry ?name e' (c2\<lparr>program_group := pg\<rparr>), loaded @ [?name])"
    using grp env e pg2
    by (simp add: parse_instance_def Let_def c1_def s1_def e'_def get_config_file_dir_def)
  have val: "sec_value api s1 = (sec_value api s)(''command'' \<mapsto> ?cmd, ''process_name'' \<mapsto> ?name,
      ''numprocs_start'' \<mapsto> itoa (i - 1), ''process_num'' \<mapsto> itoa i)"
    by (simp add: s1_def ini_section.value_add [OF ini])
  have keys: "gm_get (key_values e') k = (case sec_value api s1 k of Some v \<Rightarrow> Some (trim_space v)
      | None \<Rightarrow> gm_get (key_values e) k)" for k
    using ini_section.entry_parse_keys [OF ini, of e s1 k] c2 by (simp add: e'_def set_group_def)
  have inst: "instance_entry prefix grp i ?cmd ?name e'"
    by (simp add: instance_entry_def keys val) (simp add: e'_def set_group_def)
  have "config_ok (c2\<lparr>program_group := pg\<rparr>)" using c2 by (simp add: config_ok_def)
  moreover have "gm_ok (key_values e')"
    using ini_section.entry_parse_ok [OF ini, of e s1] c2 by (simp add: e'_def set_group_def)
  ultimately have ok2: "config_ok (store_entry ?name e' (c2\<lparr>program_group := pg\<rparr>))"
    by (rule store_entry_ok)
  have ok3: "gm_ok (entries c2)" using c2 by (simp add: config_ok_def)
  show ?thesis
  proof (rule that [OF run ok2])
    show "sec_name api s1 = sec_name api s" by (simp add: s1_def ini_section.name_add [OF ini])
    show "sec_value api s1 ''environment'' = sec_value api s ''environment''" by (simp add: val)
  qed (use c2 inst ok3 in \<open>auto simp: store_entry_def c1_def\<close>)
qed

text \<open>The whole loop, over any list of process numbers.\<close>

lemma parse_instances:
  assumes ini: "ini_section api"
    and "config_ok c" "gm_ok (pg_map (program_group c))" "get_group prog prog (program_group c) = (grp, pg)"
    and "\<forall>i \<in> set is. instance_envs api os prog i grp (get_config_file_dir c) s = Ok (E i)
      \<and> list_all (segment_ok (E i)) (cmd_segs @ name_segs)"
    and "distinct (map (\<lambda>i. substitute (E i) name_segs) is)"
  shows "\<exists>s' c'. go_fold (parse_instance api os prefix prog (template name_segs) (template cmd_segs)) is (s, c, loaded)
      = Ok (s', c', loaded @ map (\<lambda>i. substitute (E i) name_segs) is) \<and> config_ok c'
    \<and> (\<forall>m. m \<notin> (\<lambda>i. substitute (E i) name_segs) ` set is \<longrightarrow> gm_get (entries c') m = gm_get (entries c) m)
    \<and> (\<forall>i \<in> set is. \<exists>e. gm_get (entries c') (substitute (E i) name_segs) = Some e
        \<and> instance_entry prefix grp i (substitute (E i) cmd_segs) (substitute (E i) name_segs) e)"
  using assms(2-)
proof (induction "is" arbitrary: s c loaded)
  case (Cons i "is")
  let ?name = "\<lambda>i. substitute (E i) name_segs"
  obtain s1 c1 where step:
    "parse_instance api os prefix prog (template name_segs) (template cmd_segs) i (s, c, loaded)
      = Ok (s1, c1, loaded @ [?name i])"
    and c1: "config_ok c1" "config_file c1 = config_file c" "program_group c1 = pg"
    and s1: "sec_name api s1 = sec_name api s" "sec_value api s1 ''environment'' = sec_value api s ''environment''"
    and other: "\<And>m. m \<noteq> ?name i \<Longrightarrow> gm_get (entries c1) m = gm_get (entries c) m"
    and mine: "\<exists>e. gm_get (entries c1) (?name i) = Some e
      \<and> instance_entry prefix grp i (substitute (E i) cmd_segs) (?name i) e"
    using parse_instance_step [OF ini Cons.prems(1-3), of os i s "E i" cmd_segs name_segs prefix loaded]
      Cons.prems(4) by auto
  have "instance_envs api os prog j grp (get_config_file_dir c1) s1 = instance_envs api os prog j grp (get_config_file_dir c) s" for j
    using c1 s1 by (simp add: instance_envs_def get_config_file_dir_def)
  then obtain s' c' where
    run: "go_fold (parse_instance api os prefix prog (template name_segs) (template cmd_segs)) is
      (s1, c1, loaded @ [?name i]) = Ok (s', c', (loaded @ [?name i]) @ map ?name is)"
    and c': "config_ok c'"
    and rest: "\<And>m. m \<notin> ?name ` set is \<Longrightarrow> gm_get (entries c') m = gm_get (entries c1) m"
    and all: "\<forall>i \<in> set is. \<exists>e. gm_get (entries c') (?name i) = Some e
        \<and> instance_entry prefix grp i (substitute (E i) cmd_segs) (?name i) e"
    using Cons.IH [of c1 s1 "loaded @ [?name i]"] Cons.prems c1
      get_group_again [OF Cons.prems(2,3)] get_group_ok [OF Cons.prems(2,3)] by auto
  have "?name i \<notin> ?name ` set is" using Cons.prems(5) by simp
  then show ?case using step run c' rest all other mine by auto
qed auto

section \<open>Properties\<close>

text \<open>
  C40. A program section with \<open>numprocs = n\<close> which has a command and a process name, templates that can be
  evaluated for every instance and give the instances pairwise different names, loads, into a
  configuration that has every name once (\<open>config_ok\<close>) and from any reader of INI files (\<open>ini_section\<close>),
  exactly the processes \<open>1..n\<close>: each has its own entry, with its number,
  its command with the variables replaced, the program's group, and the section's prefix; the
  entries of other names are not touched.
\<close>

theorem parse_program_instances:
  assumes "ini_section api" and "config_ok c" and "gm_ok (pg_map (program_group c))"
    and "program_or_listener (sec_name api s) = (True, prefix)"
    and "sec_int api s ''numprocs'' = Some n"
    and "sec_value api s ''command'' = Some (template cmd_segs)"
    and "sec_value api s ''process_name'' = Some (template name_segs)"
    and "prog = drop (length prefix) (sec_name api s)"
    and "grp = fst (get_group prog prog (program_group c))"
    and "\<forall>i \<in> {1..n}. instance_envs api os prog i grp (get_config_file_dir c) s = Ok (E i)
      \<and> list_all (segment_ok (E i)) (cmd_segs @ name_segs)"
    and "inj_on (\<lambda>i. substitute (E i) name_segs) {1..n}"
  shows "\<exists>s' c'. parse_program_section api os s (secs, c, loaded)
      = Ok (secs @ [s'], c', loaded @ map (\<lambda>i. substitute (E i) name_segs) [1..n])
    \<and> (\<forall>m. m \<notin> (\<lambda>i. substitute (E i) name_segs) ` {1..n} \<longrightarrow> gm_get (entries c') m = gm_get (entries c) m)
    \<and> (\<forall>i \<in> {1..n}. \<exists>e. gm_get (entries c') (substitute (E i) name_segs) = Some e
        \<and> instance_entry prefix grp i (substitute (E i) cmd_segs) (substitute (E i) name_segs) e)"
proof -
  have "distinct (map (\<lambda>i. substitute (E i) name_segs) [1..n])"
    using assms(11) by (simp add: distinct_map)
  moreover have "get_group prog prog (program_group c) = (grp, snd (get_group prog prog (program_group c)))"
    using assms(9) by simp
  ultimately show ?thesis
    using parse_instances [OF assms(1-3), of prog grp _ "[1..n]" os s E cmd_segs name_segs prefix loaded] assms
    by (fastforce simp: parse_program_section_def value_with_default_def)
qed

text \<open>
  After \<open>setProgramDefaultParams\<close> a program section has its own values and, for the keys it
  lacks, those of \<open>[program-default]\<close>; other sections, and the number of sections, are unchanged.
\<close>

theorem program_defaults_correct:
  assumes "ini_section api" and "get_section api ''program-default'' cfg = Some def" and "i < length cfg"
  shows "length (set_program_default_params api cfg) = length cfg
    \<and> sec_name api (set_program_default_params api cfg ! i) = sec_name api (cfg ! i)
    \<and> sec_value api (set_program_default_params api cfg ! i)
      = (if has_prefix (sec_name api (cfg ! i)) ''program:''
         then sec_value api def ++ sec_value api (cfg ! i) else sec_value api (cfg ! i))"
proof -
  have "\<not> (has_prefix n ''program:'' \<and> n = ''program-default'')" for n
    by (auto simp: has_prefix_def)
  moreover have "(\<lambda>k. if sec_value api s k = None \<and> k \<in> set (sec_keys api def)
        then Some (value_with_default api def k []) else sec_value api s k)
      = sec_value api def ++ sec_value api s" for s
    using ini_section.keys_value [OF assms(1), of def]
    by (auto simp: fun_eq_iff map_add_def value_with_default_def split: option.splits)
  ultimately show ?thesis
    using assms(2,3) ini_section.value_fold_default [OF assms(1)] ini_section.name_fold_default [OF assms(1)]
    by (auto simp: set_program_default_params_def)
qed

text \<open>
  The regular expression for an include pattern is not anchored: \<open>*.conf\<close> also selects files
  that only contain \<open>.conf\<close>, such as backups.
\<close>

lemma include_not_anchored:
  "match_string re (to_regexp ''*.conf'') (a @ ''.conf'' @ b)"
proof -
  have p: "to_regexp ''*.conf'' = ''.*'' @ [CHR 0x5C] @ ''.conf''" by code_simp
  have "re_parse (''.*'' @ [CHR 0x5C] @ ''.conf'') = Some (Any_Run # map Byte ''.conf'')" by code_simp
  then show ?thesis
    unfolding match_string_def p using re_search_append [of "Any_Run # map Byte ''.conf''" "''.conf'' @ b" a]
    by simp
qed

section \<open>Sections as association lists\<close>

text \<open>An instance of the interface: a name and an association list.\<close>

definition assoc_ini :: "(string \<times> (string, string) gomap) ini_api" where
  "assoc_ini =
     \<lparr>sec_name = fst, sec_keys = (\<lambda>s. remdups (gm_keys (snd s))), sec_has = (\<lambda>s k. gm_get (snd s) k \<noteq> None),
      sec_value = (\<lambda>s. gm_get (snd s)), sec_int = (\<lambda>s k. Option.bind (gm_get (snd s) k) atoi),
      sec_add = (\<lambda>k v s. (fst s, gm_put k v (snd s)))\<rparr>"

interpretation assoc_ini: ini_section assoc_ini
proof
  fix s :: "string \<times> (string, string) gomap" and k v
  show "sec_value assoc_ini (sec_add assoc_ini k v s) = (sec_value assoc_ini s)(k \<mapsto> v)"
    by (simp add: assoc_ini_def gm_get_def gm_put_def update_conv' fun_eq_iff)
  show "set (sec_keys assoc_ini s) = dom (sec_value assoc_ini s)"
    by (auto simp: assoc_ini_def gm_keys_iff dom_def)
qed (simp_all add: assoc_ini_def)

definition plain_os :: os_env where
  "plain_os = \<lparr>os_environ = [], os_hostname = None, os_sprintf = \<lambda>_ _. [], os_env_file = \<lambda>_. None,
     os_order = \<lambda>ks. ks\<rparr>"

lemma parse_program_instances_witness:
  "\<exists>s' c'. parse_program_section assoc_ini plain_os
      (''program:w'', [(''numprocs'', ''2''), (''command'', ''/bin/w %(process_num)s''), (''process_name'', ''w%(process_num)s'')])
      ([], new_config ''/etc/s.conf'', []) = Ok ([s'], c', [''w1'', ''w2''])"
proof -
  let ?s = "(''program:w'', [(''numprocs'', ''2''), (''command'', ''/bin/w %(process_num)s''), (''process_name'', ''w%(process_num)s'')])"
  let ?E = "\<lambda>i. [''program_name'' \<mapsto> ''w'', ''process_num'' \<mapsto> itoa i, ''group_name'' \<mapsto> ''w'', ''here'' \<mapsto> ''/etc'']"
  have d: "path_dir ''/etc/s.conf'' = ''/etc''" by code_simp
  have i: "itoa 1 = ''1''" "itoa 2 = ''2''" "upto 1 2 = [1, 2]" "{1..2::int} = {1, 2}" by code_simp+
  have n: "atoi ''2'' = Some 2" by code_simp
  have g: "get_group ''w'' ''w'' new_process_group = (''w'', \<lparr>pg_map = [(''w'', ''w'')]\<rparr>)" by code_simp
  have "\<exists>s' c'. parse_program_section assoc_ini plain_os ?s ([], new_config ''/etc/s.conf'', [])
      = Ok ([] @ [s'], c', [] @ map (\<lambda>i. substitute (?E i) [Lit ''w'', Var ''process_num'']) [1..2])
    \<and> (\<forall>m. m \<notin> (\<lambda>i. substitute (?E i) [Lit ''w'', Var ''process_num'']) ` {1..2} \<longrightarrow>
         gm_get (entries c') m = gm_get (entries (new_config ''/etc/s.conf'')) m)
    \<and> (\<forall>i \<in> {1..2}. \<exists>e. gm_get (entries c') (substitute (?E i) [Lit ''w'', Var ''process_num'']) = Some e
        \<and> instance_entry ''program:'' ''w'' i (substitute (?E i) [Lit ''/bin/w '', Var ''process_num''])
            (substitute (?E i) [Lit ''w'', Var ''process_num'']) e)"
  proof (rule parse_program_instances [where prog = "''w''", OF assoc_ini.ini_section_axioms])
    show "\<forall>i \<in> {1..2}. instance_envs assoc_ini plain_os ''w'' i ''w'' (get_config_file_dir (new_config ''/etc/s.conf'')) ?s = Ok (?E i)
      \<and> list_all (segment_ok (?E i)) ([Lit ''/bin/w '', Var ''process_num''] @ [Lit ''w'', Var ''process_num''])"
      by (simp add: instance_envs_def new_string_expression_def plain_os_def assoc_ini_def gm_get_def
          get_config_file_dir_def new_config_def d i)
    show "inj_on (\<lambda>i. substitute (?E i) [Lit ''w'', Var ''process_num'']) {1..2}"
      by (simp add: i inj_on_def)
  qed (simp_all add: config_ok_def new_config_def new_process_group_def program_or_listener_def assoc_ini_def
      gm_get_def n g [unfolded new_process_group_def] Let_def)
  then show ?thesis by (auto simp: i)
qed

lemma program_defaults_correct_witness:
  "sec_value assoc_ini (set_program_default_params assoc_ini
     [(''program-default'', [(''autostart'', ''false''), (''user'', ''u'')]), (''program:a'', [(''user'', ''root'')])] ! 1)
   = [''autostart'' \<mapsto> ''false'', ''user'' \<mapsto> ''root'']"
proof -
  let ?cfg = "[(''program-default'', [(''autostart'', ''false''), (''user'', ''u'')]), (''program:a'', [(''user'', ''root'')])]"
  have "get_section assoc_ini ''program-default'' ?cfg = Some (?cfg ! 0)"
    by (simp add: get_section_def assoc_ini_def)
  from program_defaults_correct [OF assoc_ini.ini_section_axioms this, of 1]
  show ?thesis by (simp add: assoc_ini_def gm_get_def fun_eq_iff map_add_def)
qed

end
