(* ===== verification/Process.thy ===== *)
theory Process
  imports Config_Entry
begin

text \<open>
  One supervised program, \<open>process/process.go\<close>: the goroutine of \<open>Start\<close> that runs and restarts
  it (\<open>run\<close>), the goroutines of each attempt that monitor the start-up and wait for the exit, and
  the calls of other goroutines (\<open>Start\<close>, \<open>Stop\<close>, \<open>GetPid\<close>). A step is one access to what they
  share, with one exception: in \<open>waitForExit\<close> the return of \<open>cmd.Wait\<close> and the state \<open>Stopped\<close> that is stored
  after it are one step. Sleeping is not a step, so a timer may fire at any moment. A panic ends the
  daemon here, as it does in a goroutine of its own; where \<open>Stop\<close> or \<open>GetPid\<close> run inside an HTTP handler,
  \<open>net/http\<close> recovers from it and the daemon goes on without that call. \<open>p.lock\<close> is the field
  \<open>lock\<close>; the state is an atomic variable and is read and written outside the lock too.
\<close>

section \<open>States and settings\<close>

datatype pstate = Stopped | Starting | Running | Backoff | Stopping | Exited | Fatal | Unknown

fun state_code :: "pstate \<Rightarrow> int" where
  "state_code Stopped = 0"
| "state_code Starting = 10"
| "state_code Running = 20"
| "state_code Backoff = 30"
| "state_code Stopping = 40"
| "state_code Exited = 100"
| "state_code Fatal = 200"
| "state_code Unknown = 1000"

fun state_string :: "pstate \<Rightarrow> string" where
  "state_string Stopped = ''Stopped''"
| "state_string Starting = ''Starting''"
| "state_string Running = ''Running''"
| "state_string Backoff = ''Backoff''"
| "state_string Stopping = ''Stopping''"
| "state_string Exited = ''Exited''"
| "state_string Fatal = ''Fatal''"
| "state_string Unknown = ''Unknown''"

definition is_running :: "pstate \<Rightarrow> bool" where
  "is_running s \<longleftrightarrow> s = Starting \<or> s = Running \<or> s = Stopping"

text \<open>\<open>int32(...)\<close> and the arithmetic of \<open>atomic.Int32\<close>.\<close>

definition wrap32 :: "int \<Rightarrow> int" where
  "wrap32 i = (i + 2147483648) mod 4294967296 - 2147483648"

definition get_start_seconds :: "config_entry \<Rightarrow> int" where
  "get_start_seconds c = get_int c ''startsecs'' 1"

definition get_restart_pause :: "config_entry \<Rightarrow> int" where
  "get_restart_pause c = get_int c ''restartpause'' 0"

definition get_start_retries :: "config_entry \<Rightarrow> int" where
  "get_start_retries c = wrap32 (get_int c ''startretries'' 3)"

definition is_auto_start :: "os_env \<Rightarrow> config_entry \<Rightarrow> bool go_result" where
  "is_auto_start os c = go_bind (get_string os c ''autostart'' ''true'') (\<lambda>s. Ok (s = ''true''))"

definition get_priority :: "config_entry \<Rightarrow> int" where
  "get_priority c = get_int c ''priority'' 999"

definition get_exit_codes :: "os_env \<Rightarrow> config_entry \<Rightarrow> int list go_result" where
  "get_exit_codes os c =
     go_bind (get_string os c ''exitcodes'' ''0,2'')
       (\<lambda>s. Ok (List.map_filter atoi (split_on CHR '','' s)))"

text \<open>\<open>GetName\<close>.\<close>

definition get_name :: "config_entry \<Rightarrow> string" where
  "get_name c =
     (if is_program c then get_program_name c
      else if is_event_listener c then get_event_listener_name c else [])"

text \<open>The settings that the goroutines read.\<close>

record pconf =
  start_secs :: int
  restart_pause :: int
  start_retries :: int
  autorestart :: string
  exit_codes :: "int list"
  prog :: bool

definition pconf_of :: "os_env \<Rightarrow> config_entry \<Rightarrow> pconf go_result" where
  "pconf_of os c =
     go_bind (get_string os c ''autorestart'' ''unexpected'')
       (\<lambda>a. go_bind (get_exit_codes os c)
         (\<lambda>codes. Ok \<lparr>start_secs = get_start_seconds c, restart_pause = get_restart_pause c,
            start_retries = get_start_retries c, autorestart = a, exit_codes = codes,
            prog = is_program c\<rparr>))"

section \<open>The shared state\<close>

text \<open>\<open>p.cmd\<close>: nil, created (its \<open>Process\<close> is nil), started, or waited for with an exit status.\<close>

datatype cmd = No_Cmd | Created | Started | Waited int

fun has_process :: "cmd \<Rightarrow> bool" where
  "has_process No_Cmd = False"
| "has_process Created = False"
| "has_process Started = True"
| "has_process (Waited _) = True"

text \<open>The operating system's process: none, running, or exited and not yet waited for.\<close>

datatype os_proc = No_Proc | Alive | Zombie int

text \<open>Where the goroutine of \<open>Start\<close> is in \<open>run\<close> and in its restart loop.\<close>

datatype runner_pc =
    R_Idle | R_Enter | R_Check | R_Loop | R_Paused | R_Starting | R_Create | R_Exec
  | R_Watch | R_Exited | R_Wait_Mon | R_Decide | R_Retry | R_After | R_End

text \<open>The goroutines of one attempt: \<open>monitorProgramIsRunning\<close> and \<open>waitForExit\<close>.\<close>

datatype mon_pc = M_None | M_Wait | M_Set | M_In | M_Finish | M_Done
datatype wait_pc = W_None | W_Wait | W_Stored | W_Done

datatype owner = Free | By_Run | By_Mon nat

datatype proc_event = Proc_Event pstate pstate int

text \<open>
  The fields named in the code, the goroutines by attempt number, the \<open>Start(true)\<close> callers that
  still wait on their condition variable (by the number of the \<open>Start\<close>), the events emitted, and
  how many \<open>Stop\<close> and \<open>GetPid\<close> calls are between two of their accesses.
\<close>

record proc =
  state :: pstate
  in_start :: bool
  stop_by_user :: bool
  retry_times :: int
  lock :: owner
  pcmd :: cmd
  os_proc :: os_proc
  runner :: runner_pc
  attempt :: nat
  start_id :: nat
  att_start :: "nat \<Rightarrow> nat"
  mon :: "nat \<Rightarrow> mon_pc"
  waiter :: "nat \<Rightarrow> wait_pc"
  program_exited :: "nat \<Rightarrow> bool"
  monitor_exited :: "nat \<Rightarrow> bool"
  waiting :: "nat \<Rightarrow> bool"
  emitted :: "proc_event list"
  stop_flagged :: nat
  stop_checked :: nat
  pid_loaded :: nat
  panicked :: bool

definition new_process :: proc where
  "new_process =
     \<lparr>state = Stopped, in_start = False, stop_by_user = False, retry_times = 0, lock = Free,
      pcmd = No_Cmd, os_proc = No_Proc, runner = R_Idle, attempt = 0, start_id = 0,
      att_start = \<lambda>_. 0, mon = \<lambda>_. M_None, waiter = \<lambda>_. W_None, program_exited = \<lambda>_. False,
      monitor_exited = \<lambda>_. False, waiting = \<lambda>_. False, emitted = [], stop_flagged = 0,
      stop_checked = 0, pid_loaded = 0, panicked = False\<rparr>"

section \<open>Operations\<close>

definition get_exit_code :: "proc \<Rightarrow> int option" where
  "get_exit_code p = (case pcmd p of Waited c \<Rightarrow> Some c | _ \<Rightarrow> None)"

definition in_exit_codes :: "pconf \<Rightarrow> int \<Rightarrow> bool" where
  "in_exit_codes cf code \<longleftrightarrow> code \<in> set (exit_codes cf)"

definition is_auto_restart :: "pconf \<Rightarrow> proc \<Rightarrow> bool" where
  "is_auto_restart cf p =
     (if autorestart cf = ''false'' then False
      else if autorestart cf = ''true'' then True
      else (case get_exit_code p of Some c \<Rightarrow> \<not> in_exit_codes cf c | None \<Rightarrow> False))"

text \<open>
  \<open>changeStateTo\<close>. The events that carry a pid read \<open>p.cmd.Process.Pid\<close>, which panics when there
  is no \<open>Process\<close>.
\<close>

definition event_arg :: "pconf \<Rightarrow> pstate \<Rightarrow> proc \<Rightarrow> int" where
  "event_arg cf to p =
     (if to = Starting \<or> to = Backoff then retry_times p
      else if to = Exited then
        (case get_exit_code p of Some c \<Rightarrow> if in_exit_codes cf c then 1 else 0 | None \<Rightarrow> 0)
      else 0)"

definition change_state :: "pconf \<Rightarrow> pstate \<Rightarrow> proc \<Rightarrow> proc" where
  "change_state cf to p =
     (if prog cf then
        (if to \<in> {Running, Stopping, Exited, Stopped} \<and> \<not> has_process (pcmd p)
         then p\<lparr>panicked := True\<rparr>
         else p\<lparr>state := to, emitted := emitted p @ [Proc_Event to (state p) (event_arg cf to p)]\<rparr>)
      else p\<lparr>state := to\<rparr>)"

text \<open>\<open>finishCb\<close> of the given \<open>Start\<close>: the caller that waits, if any, goes on.\<close>

definition finish_cb :: "nat \<Rightarrow> proc \<Rightarrow> proc" where
  "finish_cb i p = p\<lparr>waiting := (waiting p)(i := False)\<rparr>"

definition fail_to_start_program :: "pconf \<Rightarrow> proc \<Rightarrow> proc" where
  "fail_to_start_program cf p = finish_cb (start_id p) (change_state cf Fatal p)"

text \<open>\<open>Start(wait)\<close>, up to the creation of its goroutine.\<close>

definition start :: "bool \<Rightarrow> proc \<Rightarrow> proc" where
  "start wait p =
     (if in_start p then p
      else p\<lparr>in_start := True, stop_by_user := False, runner := R_Enter,
             start_id := Suc (start_id p), waiting := (waiting p)(Suc (start_id p) := wait)\<rparr>)"

text \<open>Leaving \<open>run\<close> releases the lock.\<close>

definition leave_run :: "proc \<Rightarrow> proc" where
  "leave_run p = p\<lparr>lock := Free, runner := R_After\<rparr>"

text \<open>\<open>p.cmd.Start()\<close> succeeded: the goroutines of the attempt start and \<open>run\<close> releases the lock.\<close>

definition spawn :: "pconf \<Rightarrow> proc \<Rightarrow> proc" where
  "spawn cf p =
     (let k = Suc (attempt p);
          p = p\<lparr>pcmd := Started, os_proc := Alive, attempt := k,
                att_start := (att_start p)(k := start_id p), waiter := (waiter p)(k := W_Wait)\<rparr>;
          p = (if start_secs cf \<le> 0
               then change_state cf Running
                      (p\<lparr>monitor_exited := (monitor_exited p)(k := True), mon := (mon p)(k := M_Finish)\<rparr>)
               else p\<lparr>mon := (mon p)(k := M_Wait)\<rparr>)
      in p\<lparr>lock := Free, runner := R_Watch\<rparr>)"

text \<open>
  The outcome of \<open>createProgramCommand\<close> (which fails on the command line, on an empty command,
  leaving \<open>p.cmd\<close> nil, or on the user, leaving the new command) and of \<open>p.cmd.Start()\<close>.
\<close>

datatype outcome = Success | Fail_Parse | Fail_Command | Fail_User | Fail_Exec

fun create_outcome :: "outcome \<Rightarrow> cmd \<Rightarrow> cmd option" where
  "create_outcome Success c = Some Created"
| "create_outcome Fail_Parse c = Some c"
| "create_outcome Fail_Command c = Some No_Cmd"
| "create_outcome Fail_User c = Some Created"
| "create_outcome Fail_Exec c = None"

text \<open>
  One step of the goroutine of \<open>Start\<close>; \<open>out\<close> is the outcome of the call it makes, where there is
  one. \<^const>\<open>None\<close>: it waits (for the lock, for the program to end, or for the monitor).
\<close>

definition run_step :: "pconf \<Rightarrow> outcome \<Rightarrow> proc \<Rightarrow> proc option" where
  "run_step cf out p =
     (case runner p of
        R_Idle \<Rightarrow> None
      | R_Enter \<Rightarrow> if lock p = Free then Some (p\<lparr>lock := By_Run, runner := R_Check\<rparr>) else None
      | R_Check \<Rightarrow>
          if is_running (state p) then Some (leave_run (finish_cb (start_id p) p))
          else Some (p\<lparr>retry_times := 0, runner := R_Loop\<rparr>)
      | R_Loop \<Rightarrow>
          if stop_by_user p then Some (leave_run p)
          else if 0 < restart_pause cf \<and> retry_times p \<noteq> 0
          then Some (p\<lparr>lock := Free, runner := R_Paused\<rparr>)
          else Some (p\<lparr>runner := R_Starting\<rparr>)
      | R_Paused \<Rightarrow> if lock p = Free then Some (p\<lparr>lock := By_Run, runner := R_Starting\<rparr>) else None
      | R_Starting \<Rightarrow>
          Some ((change_state cf Starting p)\<lparr>retry_times := wrap32 (retry_times p + 1), runner := R_Create\<rparr>)
      | R_Create \<Rightarrow>
          (case create_outcome out (pcmd p) of
             None \<Rightarrow> None
           | Some c \<Rightarrow>
               if out = Success then Some (p\<lparr>pcmd := c, runner := R_Exec\<rparr>)
               else Some (leave_run (fail_to_start_program cf (p\<lparr>pcmd := c\<rparr>))))
      | R_Exec \<Rightarrow>
          if out = Success then Some (spawn cf p)
          else if start_retries cf \<le> retry_times p then Some (leave_run (fail_to_start_program cf p))
          else Some ((change_state cf Backoff p)\<lparr>runner := R_Loop\<rparr>)
      | R_Watch \<Rightarrow>
          if waiter p (attempt p) = W_Done \<or> \<not> is_running (state p) then Some (p\<lparr>runner := R_Exited\<rparr>)
          else None
      | R_Exited \<Rightarrow>
          Some (p\<lparr>program_exited := (program_exited p)(attempt p := True), runner := R_Wait_Mon\<rparr>)
      | R_Wait_Mon \<Rightarrow>
          if monitor_exited p (attempt p) \<and> lock p = Free
          then Some (p\<lparr>lock := By_Run, runner := R_Decide\<rparr>) else None
      | R_Decide \<Rightarrow>
          if state p = Running \<or> state p = Stopping then
            Some (leave_run (change_state cf (if stop_by_user p then Stopped else Exited) p))
          else Some ((change_state cf Backoff p)\<lparr>runner := R_Retry\<rparr>)
      | R_Retry \<Rightarrow>
          if start_retries cf \<le> retry_times p then Some (leave_run (fail_to_start_program cf p))
          else Some (p\<lparr>runner := R_Loop\<rparr>)
      | R_After \<Rightarrow>
          if stop_by_user p \<or> \<not> is_auto_restart cf p then Some (p\<lparr>runner := R_End\<rparr>)
          else Some (p\<lparr>runner := R_Enter\<rparr>)
      | R_End \<Rightarrow> if lock p = Free then Some (p\<lparr>in_start := False, runner := R_Idle\<rparr>) else None)"

text \<open>The steps of the monitor of attempt \<open>k\<close>.\<close>

definition mon_step :: "pconf \<Rightarrow> nat \<Rightarrow> proc \<Rightarrow> proc option" where
  "mon_step cf k p =
     (case mon p k of
        M_None \<Rightarrow> None
      | M_Wait \<Rightarrow> Some (p\<lparr>monitor_exited := (monitor_exited p)(k := True), mon := (mon p)(k := M_Set)\<rparr>)
      | M_Set \<Rightarrow>
          if lock p \<noteq> Free then None
          else if \<not> program_exited p k \<and> state p = Starting
          then Some (p\<lparr>lock := By_Mon k, mon := (mon p)(k := M_In)\<rparr>)
          else Some (p\<lparr>mon := (mon p)(k := M_Finish)\<rparr>)
      | M_In \<Rightarrow> Some ((change_state cf Running p)\<lparr>lock := Free, mon := (mon p)(k := M_Finish)\<rparr>)
      | M_Finish \<Rightarrow> Some (finish_cb (att_start p k) (p\<lparr>mon := (mon p)(k := M_Done)\<rparr>))
      | M_Done \<Rightarrow> None)"

text \<open>The steps of \<open>waitForExit\<close> of attempt \<open>k\<close>.\<close>

definition wait_step :: "nat \<Rightarrow> proc \<Rightarrow> proc option" where
  "wait_step k p =
     (case waiter p k of
        W_Wait \<Rightarrow>
          (case os_proc p of
             Zombie c \<Rightarrow> Some (p\<lparr>os_proc := No_Proc, pcmd := Waited c, state := Stopped,
                                waiter := (waiter p)(k := W_Stored)\<rparr>)
           | _ \<Rightarrow> None)
      | W_Stored \<Rightarrow> if lock p = Free then Some (p\<lparr>waiter := (waiter p)(k := W_Done)\<rparr>) else None
      | _ \<Rightarrow> None)"

text \<open>\<open>Stop\<close>: setting the flag under the lock, testing the state, storing \<open>Stopping\<close>.\<close>

definition stop_flag :: "proc \<Rightarrow> proc option" where
  "stop_flag p =
     (if lock p = Free then Some (p\<lparr>stop_by_user := True, stop_flagged := Suc (stop_flagged p)\<rparr>) else None)"

definition stop_check :: "proc \<Rightarrow> proc option" where
  "stop_check p =
     (case stop_flagged p of
        0 \<Rightarrow> None
      | Suc n \<Rightarrow> Some (if is_running (state p)
                     then p\<lparr>stop_flagged := n, stop_checked := Suc (stop_checked p)\<rparr>
                     else p\<lparr>stop_flagged := n\<rparr>))"

definition stop_store :: "pconf \<Rightarrow> proc \<Rightarrow> proc option" where
  "stop_store cf p =
     (case stop_checked p of 0 \<Rightarrow> None | Suc n \<Rightarrow> Some (change_state cf Stopping (p\<lparr>stop_checked := n\<rparr>)))"

text \<open>\<open>GetPid\<close> reads the state, then the command under the lock.\<close>

definition pid_load :: "proc \<Rightarrow> proc option" where
  "pid_load p =
     (if state p \<in> {Stopped, Fatal, Unknown, Exited, Backoff} then Some p
      else Some (p\<lparr>pid_loaded := Suc (pid_loaded p)\<rparr>))"

definition pid_read :: "proc \<Rightarrow> proc option" where
  "pid_read p =
     (case pid_loaded p of
        0 \<Rightarrow> None
      | Suc n \<Rightarrow> if lock p \<noteq> Free then None
                else Some (p\<lparr>pid_loaded := n, panicked := (panicked p \<or> \<not> has_process (pcmd p))\<rparr>))"

section \<open>Executions\<close>

datatype action =
    Start bool | Run outcome | Mon nat | Wait nat | Exit int
  | Stop_Flag | Stop_Check | Stop_Store | Pid_Load | Pid_Read

text \<open>A panic in any goroutine ends the daemon.\<close>

fun act :: "pconf \<Rightarrow> action \<Rightarrow> proc \<Rightarrow> proc option" where
  "act cf a p =
     (if panicked p then None
      else (case a of
          Start w \<Rightarrow> if lock p = Free then Some (start w p) else None
        | Run out \<Rightarrow> run_step cf out p
        | Mon k \<Rightarrow> mon_step cf k p
        | Wait k \<Rightarrow> wait_step k p
        | Exit c \<Rightarrow> if os_proc p = Alive then Some (p\<lparr>os_proc := Zombie c\<rparr>) else None
        | Stop_Flag \<Rightarrow> stop_flag p
        | Stop_Check \<Rightarrow> stop_check p
        | Stop_Store \<Rightarrow> stop_store cf p
        | Pid_Load \<Rightarrow> pid_load p
        | Pid_Read \<Rightarrow> pid_read p))"

fun acts :: "pconf \<Rightarrow> action list \<Rightarrow> proc \<Rightarrow> proc option" where
  "acts cf [] p = Some p"
| "acts cf (a # as) p = (case act cf a p of None \<Rightarrow> None | Some p' \<Rightarrow> acts cf as p')"

inductive reach :: "pconf \<Rightarrow> proc \<Rightarrow> bool" for cf where
  init: "reach cf new_process"
| step: "reach cf p \<Longrightarrow> act cf a p = Some p' \<Longrightarrow> reach cf p'"

section \<open>Lemmas\<close>

text \<open>\<open>changeStateTo\<close> touches the state, the events and the panic flag only.\<close>

lemma change_state_fields [simp]:
  "in_start (change_state cf to p) = in_start p"
  "stop_by_user (change_state cf to p) = stop_by_user p"
  "retry_times (change_state cf to p) = retry_times p"
  "lock (change_state cf to p) = lock p"
  "pcmd (change_state cf to p) = pcmd p"
  "os_proc (change_state cf to p) = os_proc p"
  "runner (change_state cf to p) = runner p"
  "attempt (change_state cf to p) = attempt p"
  "start_id (change_state cf to p) = start_id p"
  "att_start (change_state cf to p) = att_start p"
  "mon (change_state cf to p) = mon p"
  "waiter (change_state cf to p) = waiter p"
  "program_exited (change_state cf to p) = program_exited p"
  "monitor_exited (change_state cf to p) = monitor_exited p"
  "waiting (change_state cf to p) = waiting p"
  "stop_flagged (change_state cf to p) = stop_flagged p"
  "stop_checked (change_state cf to p) = stop_checked p"
  "pid_loaded (change_state cf to p) = pid_loaded p"
  by (simp_all add: change_state_def)

lemma state_change_state: "\<not> panicked (change_state cf to p) \<Longrightarrow> state (change_state cf to p) = to"
  by (auto simp: change_state_def split: if_splits)

lemma panicked_change_state:
  "panicked (change_state cf to p) \<longleftrightarrow>
     panicked p \<or> (prog cf \<and> to \<in> {Running, Stopping, Exited, Stopped} \<and> \<not> has_process (pcmd p))"
  by (auto simp: change_state_def)

text \<open>
  The invariant. Only the goroutine of \<open>Start\<close> takes the lock for long; the monitor that holds it
  is that of the current attempt, whose program has not been seen to exit; and while the program
  exists, the goroutine watches it and the state is one that \<open>IsRunning\<close> accepts.
\<close>

definition holds_lock :: "runner_pc \<Rightarrow> bool" where
  "holds_lock r \<longleftrightarrow> r \<in> {R_Check, R_Loop, R_Starting, R_Create, R_Exec, R_Decide, R_Retry}"

definition inv_lock :: "proc \<Rightarrow> bool" where
  "inv_lock p \<longleftrightarrow> (in_start p \<longleftrightarrow> runner p \<noteq> R_Idle) \<and> (lock p = By_Run \<longleftrightarrow> holds_lock (runner p))
     \<and> (\<forall>k. lock p = By_Mon k \<longleftrightarrow> mon p k = M_In)"

definition inv_attempt :: "proc \<Rightarrow> bool" where
  "inv_attempt p \<longleftrightarrow>
     (\<forall>k. attempt p < k \<longrightarrow> mon p k = M_None \<and> waiter p k = W_None \<and> \<not> program_exited p k)
     \<and> (\<forall>k. mon p k \<noteq> M_None \<and> (k \<noteq> attempt p \<or> runner p \<notin> {R_Watch, R_Exited}) \<longrightarrow> program_exited p k)
     \<and> (\<forall>k. mon p k = M_In \<longrightarrow> k = attempt p \<and> runner p \<in> {R_Watch, R_Exited, R_Wait_Mon})"

definition inv_proc :: "proc \<Rightarrow> bool" where
  "inv_proc p \<longleftrightarrow>
     (os_proc p \<noteq> No_Proc \<longrightarrow> runner p = R_Watch \<and> is_running (state p) \<and> waiter p (attempt p) = W_Wait)
     \<and> (\<forall>k. waiter p k = W_Wait \<longrightarrow> k = attempt p \<and> os_proc p \<noteq> No_Proc)
     \<and> (runner p \<in> {R_Create, R_Exec} \<longrightarrow> is_running (state p))
     \<and> (runner p \<in> {R_Watch, R_Exited, R_Wait_Mon, R_Decide} \<longrightarrow> has_process (pcmd p))"

definition inv_retry :: "pconf \<Rightarrow> proc \<Rightarrow> bool" where
  "inv_retry cf p \<longleftrightarrow> 0 \<le> retry_times p \<and> retry_times p \<le> max 1 (start_retries cf)
     \<and> (runner p \<in> {R_Loop, R_Paused, R_Starting} \<longrightarrow> retry_times p = 0 \<or> retry_times p < start_retries cf)"

definition proc_inv :: "pconf \<Rightarrow> proc \<Rightarrow> bool" where
  "proc_inv cf p \<longleftrightarrow> inv_lock p \<and> inv_attempt p \<and> inv_proc p \<and> inv_retry cf p"

lemmas inv_defs = proc_inv_def inv_lock_def inv_attempt_def inv_proc_def inv_retry_def holds_lock_def

lemma inv_new_process: "proc_inv cf new_process"
  by (auto simp: inv_defs new_process_def)

lemma wrap32_id: "- 2147483648 \<le> i \<Longrightarrow> i < 2147483648 \<Longrightarrow> wrap32 i = i"
  by (simp add: wrap32_def)

text \<open>The settings: \<open>startretries\<close> is an \<open>int32\<close>.\<close>

definition conf_ok :: "pconf \<Rightarrow> bool" where
  "conf_ok cf \<longleftrightarrow> start_retries cf < 2147483648"

lemma wrap32_less: "wrap32 i < 2147483648"
proof -
  have "(i + 2147483648) mod 4294967296 < 4294967296" by simp
  then show ?thesis by (simp add: wrap32_def)
qed

lemma conf_ok_pconf_of: "pconf_of os c = Ok cf \<Longrightarrow> conf_ok cf"
  by (auto simp: pconf_of_def conf_ok_def get_start_retries_def wrap32_less)

lemma spawn_fields:
  "mon (spawn cf p) = (mon p)(Suc (attempt p) := (if start_secs cf \<le> 0 then M_Finish else M_Wait))"
  "waiter (spawn cf p) = (waiter p)(Suc (attempt p) := W_Wait)"
  "attempt (spawn cf p) = Suc (attempt p)" "runner (spawn cf p) = R_Watch" "lock (spawn cf p) = Free"
  "pcmd (spawn cf p) = Started" "os_proc (spawn cf p) = Alive" "in_start (spawn cf p) = in_start p"
  "program_exited (spawn cf p) = program_exited p" "retry_times (spawn cf p) = retry_times p"
  by (simp_all add: spawn_def Let_def)

lemma spawn_inv:
  assumes "proc_inv cf p" and "runner p = R_Exec" and "is_running (state (spawn cf p))"
  shows "proc_inv cf (spawn cf p)"
proof -
  have l: "inv_lock p" and a: "inv_attempt p" and q: "inv_proc p" and r: "inv_retry cf p"
    using assms(1) by (auto simp: proc_inv_def)
  have "lock p = By_Run" using l assms(2) by (simp add: inv_lock_def holds_lock_def)
  then have no_in: "mon p k \<noteq> M_In" for k using l by (auto simp: inv_lock_def)
  then have "inv_lock (spawn cf p)"
    using l assms(2) by (auto simp: inv_lock_def spawn_fields holds_lock_def)
  moreover have "inv_attempt (spawn cf p)"
    using a assms(2) no_in by (auto simp: inv_attempt_def spawn_fields)
  moreover have "inv_proc (spawn cf p)"
    using q assms(2,3) by (auto simp: inv_proc_def spawn_fields)
  moreover have "inv_retry cf (spawn cf p)"
    using r assms(2) by (simp add: inv_retry_def spawn_fields)
  ultimately show ?thesis by (simp add: proc_inv_def)
qed

text \<open>The goroutine of \<open>Start\<close> moves on, with no program to watch.\<close>

lemma move_inv:
  assumes "proc_inv cf p" and "os_proc p = No_Proc" and "os_proc q = No_Proc"
    and "mon q = mon p" "attempt q = attempt p" "waiter q = waiter p"
    and "in_start q \<longleftrightarrow> runner q \<noteq> R_Idle" and "lock q = By_Run \<longleftrightarrow> holds_lock (runner q)"
    and "\<And>k. lock q = By_Mon k \<longleftrightarrow> lock p = By_Mon k"
    and "program_exited q = program_exited p
      \<or> program_exited q = (program_exited p)(attempt p := True) \<and> runner p = R_Exited"
    and "runner q \<notin> {R_Watch, R_Exited} \<Longrightarrow> runner p \<notin> {R_Watch, R_Exited} \<or> program_exited q (attempt p)"
    and "runner q \<in> {R_Watch, R_Exited} \<Longrightarrow> runner p \<in> {R_Watch, R_Exited}"
    and "runner q \<in> {R_Watch, R_Exited, R_Wait_Mon} \<or> (\<forall>k. lock p \<noteq> By_Mon k)"
    and "runner q \<in> {R_Create, R_Exec} \<Longrightarrow> is_running (state q)"
    and "runner q \<in> {R_Watch, R_Exited, R_Wait_Mon, R_Decide} \<Longrightarrow> has_process (pcmd q)"
    and "inv_retry cf q"
  shows "proc_inv cf q"
proof -
  have l: "inv_lock p" and a: "inv_attempt p" and q: "inv_proc p"
    using assms(1) by (auto simp: proc_inv_def)
  have at_lock: "mon p k = M_In \<longleftrightarrow> lock p = By_Mon k" for k using l by (simp add: inv_lock_def)
  have "inv_lock q" using assms(4,7,8,9) at_lock by (simp add: inv_lock_def)
  moreover have "inv_proc q"
  proof -
    have "waiter q k \<noteq> W_Wait" for k using q assms(2,6) unfolding inv_proc_def by auto
    then show ?thesis using assms(3,14,15) unfolding inv_proc_def by blast
  qed
  moreover have "inv_attempt q"
    unfolding inv_attempt_def assms(4-6)
  proof (intro conjI allI impI)
    fix k
    assume "attempt p < k"
    then show "mon p k = M_None" "waiter p k = W_None" "\<not> program_exited q k"
      using a assms(10) by (auto simp: inv_attempt_def)
  next
    fix k
    assume k: "mon p k \<noteq> M_None \<and> (k \<noteq> attempt p \<or> runner q \<notin> {R_Watch, R_Exited})"
    show "program_exited q k"
    proof (cases "k = attempt p \<and> runner p \<in> {R_Watch, R_Exited}")
      case True
      then show ?thesis using k assms(11) by blast
    next
      case False
      then have "program_exited p k" using a k unfolding inv_attempt_def by blast
      then show ?thesis using assms(10) by auto
    qed
  next
    fix k
    assume "mon p k = M_In"
    then have "k = attempt p" "lock p = By_Mon k"
      using a at_lock unfolding inv_attempt_def by auto
    then show "k = attempt p" and "runner q \<in> {R_Watch, R_Exited, R_Wait_Mon}" using assms(13) by auto
  qed
  ultimately show ?thesis using assms(16) by (simp add: proc_inv_def)
qed

lemma run_step_inv:
  assumes "proc_inv cf p" and "conf_ok cf" and "run_step cf out p = Some p'" and "\<not> panicked p'"
  shows "proc_inv cf p'"
proof -
  have l: "inv_lock p" and a: "inv_attempt p" and q: "inv_proc p" and r: "inv_retry cf p"
    using assms(1) by (auto simp: proc_inv_def)
  have none: "runner p \<noteq> R_Watch \<Longrightarrow> os_proc p = No_Proc" using q by (auto simp: inv_proc_def)
  have st: "in_start p \<longleftrightarrow> runner p \<noteq> R_Idle" and lk: "lock p = By_Run \<longleftrightarrow> holds_lock (runner p)"
    using l by (auto simp: inv_lock_def)
  have hp: "runner p \<in> {R_Watch, R_Exited, R_Wait_Mon, R_Decide} \<Longrightarrow> has_process (pcmd p)"
    and rn: "runner p \<in> {R_Create, R_Exec} \<Longrightarrow> is_running (state p)"
    using q unfolding inv_proc_def by blast+
  have ml: "runner p \<notin> {R_Watch, R_Exited, R_Wait_Mon} \<Longrightarrow> lock p \<noteq> By_Mon k" for k
    using l a unfolding inv_lock_def inv_attempt_def by blast
  note defs = run_step_def leave_run_def fail_to_start_program_def finish_cb_def
  note go = move_inv [OF assms(1) none]
  show ?thesis
  proof (cases "runner p")
    case R_Idle
    then show ?thesis using assms(3) by (simp add: run_step_def)
  next
    case R_Enter
    then have "lock p = Free" and "p' = p\<lparr>lock := By_Run, runner := R_Check\<rparr>"
      using assms(3) by (simp_all add: run_step_def split: if_splits)
    then show ?thesis using R_Enter st r none by (intro go) (simp_all add: holds_lock_def inv_retry_def)
  next
    case R_Check
    then have "p' = leave_run (finish_cb (start_id p) p) \<or> p' = p\<lparr>retry_times := 0, runner := R_Loop\<rparr>"
      using assms(3) by (simp add: run_step_def split: if_splits)
    then show ?thesis using R_Check st r none lk
      by (intro go) (auto simp: holds_lock_def inv_retry_def leave_run_def finish_cb_def)
  next
    case R_Loop
    then have "p' = leave_run p \<or> p' = p\<lparr>lock := Free, runner := R_Paused\<rparr> \<or> p' = p\<lparr>runner := R_Starting\<rparr>"
      using assms(3) by (simp add: run_step_def split: if_splits)
    then show ?thesis using R_Loop st r none lk
      by (intro go) (auto simp: holds_lock_def inv_retry_def leave_run_def)
  next
    case R_Paused
    then have "lock p = Free" and "p' = p\<lparr>lock := By_Run, runner := R_Starting\<rparr>"
      using assms(3) by (simp_all add: run_step_def split: if_splits)
    then show ?thesis using R_Paused st r none by (intro go) (simp_all add: holds_lock_def inv_retry_def)
  next
    case R_Starting
    then have p': "p' = (change_state cf Starting p)\<lparr>retry_times := wrap32 (retry_times p + 1), runner := R_Create\<rparr>"
      using assms(3) by (simp add: run_step_def)
    have "\<not> panicked (change_state cf Starting p)" using assms(4) by (simp add: p')
    then have s: "is_running (state p')" by (simp add: p' state_change_state is_running_def)
    have w: "wrap32 (retry_times p + 1) = retry_times p + 1"
      using r R_Starting assms(2) by (intro wrap32_id) (auto simp: inv_retry_def conf_ok_def)
    have "inv_retry cf p'" using r R_Starting by (auto simp: inv_retry_def p' w)
    with s show ?thesis using R_Starting st none lk
      by (intro go) (simp_all add: p' holds_lock_def)
  next
    case R_Create
    then obtain c where "p' = p\<lparr>pcmd := c, runner := R_Exec\<rparr>
        \<or> p' = leave_run (fail_to_start_program cf (p\<lparr>pcmd := c\<rparr>))"
      using assms(3) by (auto simp: run_step_def split: if_splits option.splits)
    then show ?thesis
    proof
      assume "p' = p\<lparr>pcmd := c, runner := R_Exec\<rparr>"
      then show ?thesis using R_Create st r none lk rn
        by (intro go) (simp_all add: holds_lock_def inv_retry_def)
    next
      assume "p' = leave_run (fail_to_start_program cf (p\<lparr>pcmd := c\<rparr>))"
      then show ?thesis using R_Create st r none lk
        by (intro go) (simp_all add: holds_lock_def inv_retry_def defs)
    qed
  next
    case R_Exec
    show ?thesis
    proof (cases "out = Success")
      case True
      then have p': "p' = spawn cf p" using R_Exec assms(3) by (simp add: run_step_def)
      have "is_running (state p')"
      proof (cases "start_secs cf \<le> 0")
        case True
        then have "state p' = Running" using p' assms(4)
          by (simp add: spawn_def Let_def state_change_state)
        then show ?thesis by (simp add: is_running_def)
      next
        case False
        then show ?thesis using p' rn R_Exec by (simp add: spawn_def Let_def)
      qed
      then show ?thesis using spawn_inv [OF assms(1) R_Exec] p' by simp
    next
      case False
      then have "p' = leave_run (fail_to_start_program cf p)
          \<or> p' = (change_state cf Backoff p)\<lparr>runner := R_Loop\<rparr> \<and> retry_times p < start_retries cf"
        using R_Exec assms(3) by (auto simp: run_step_def split: if_splits)
      then show ?thesis
      proof
        assume "p' = leave_run (fail_to_start_program cf p)"
        then show ?thesis using R_Exec st r none lk
          by (intro go) (simp_all add: holds_lock_def inv_retry_def defs)
      next
        assume "p' = (change_state cf Backoff p)\<lparr>runner := R_Loop\<rparr> \<and> retry_times p < start_retries cf"
        then show ?thesis using R_Exec st r none lk
          by (intro go) (simp_all add: holds_lock_def inv_retry_def)
      qed
    qed
  next
    case R_Watch
    have "waiter p (attempt p) = W_Done \<or> \<not> is_running (state p)" and p': "p' = p\<lparr>runner := R_Exited\<rparr>"
      using R_Watch assms(3) by (simp_all add: run_step_def split: if_splits)
    then have "os_proc p = No_Proc" using q unfolding inv_proc_def by (metis wait_pc.distinct(9))
    then show ?thesis using R_Watch st r lk hp p'
      by (intro move_inv [OF assms(1)]) (simp_all add: holds_lock_def inv_retry_def)
  next
    case R_Exited
    then have "p' = p\<lparr>program_exited := (program_exited p)(attempt p := True), runner := R_Wait_Mon\<rparr>"
      using assms(3) by (simp add: run_step_def)
    then show ?thesis using R_Exited st r none lk hp
      by (intro go) (simp_all add: holds_lock_def inv_retry_def)
  next
    case R_Wait_Mon
    then have "lock p = Free" and "p' = p\<lparr>lock := By_Run, runner := R_Decide\<rparr>"
      using assms(3) by (simp_all add: run_step_def split: if_splits)
    then show ?thesis using R_Wait_Mon st r none hp
      by (intro go) (simp_all add: holds_lock_def inv_retry_def)
  next
    case R_Decide
    then obtain to where "p' = leave_run (change_state cf to p) \<or> p' = (change_state cf to p)\<lparr>runner := R_Retry\<rparr>"
      using assms(3) by (auto simp: run_step_def split: if_splits)
    then show ?thesis
    proof
      assume "p' = leave_run (change_state cf to p)"
      then show ?thesis using R_Decide st r none lk
        by (intro go) (simp_all add: holds_lock_def inv_retry_def leave_run_def)
    next
      assume "p' = (change_state cf to p)\<lparr>runner := R_Retry\<rparr>"
      then show ?thesis using R_Decide st r none lk
        by (intro go) (simp_all add: holds_lock_def inv_retry_def)
    qed
  next
    case R_Retry
    then have "p' = leave_run (fail_to_start_program cf p)
        \<or> p' = p\<lparr>runner := R_Loop\<rparr> \<and> retry_times p < start_retries cf"
      using assms(3) by (auto simp: run_step_def split: if_splits)
    then show ?thesis
    proof
      assume "p' = leave_run (fail_to_start_program cf p)"
      then show ?thesis using R_Retry st r none lk
        by (intro go) (simp_all add: holds_lock_def inv_retry_def defs)
    next
      assume "p' = p\<lparr>runner := R_Loop\<rparr> \<and> retry_times p < start_retries cf"
      then show ?thesis using R_Retry st r none lk
        by (intro go) (simp_all add: holds_lock_def inv_retry_def)
    qed
  next
    case R_After
    then have "p' = p\<lparr>runner := R_End\<rparr> \<or> p' = p\<lparr>runner := R_Enter\<rparr>"
      using assms(3) by (auto simp: run_step_def split: if_splits)
    then show ?thesis
    proof
      assume "p' = p\<lparr>runner := R_End\<rparr>"
      then show ?thesis using R_After st r none lk ml
        by (intro go) (simp_all add: holds_lock_def inv_retry_def)
    next
      assume "p' = p\<lparr>runner := R_Enter\<rparr>"
      then show ?thesis using R_After st r none lk ml
        by (intro go) (simp_all add: holds_lock_def inv_retry_def)
    qed
  next
    case R_End
    then have "lock p = Free" and "p' = p\<lparr>in_start := False, runner := R_Idle\<rparr>"
      using assms(3) by (simp_all add: run_step_def split: if_splits)
    then show ?thesis using R_End st r none lk
      by (intro go) (simp_all add: holds_lock_def inv_retry_def)
  qed
qed

text \<open>The components of the invariant depend on few fields.\<close>

lemma inv_lock_cong:
  "inv_lock p \<Longrightarrow> in_start q = in_start p \<Longrightarrow> runner q = runner p \<Longrightarrow> lock q = lock p \<Longrightarrow> mon q = mon p
    \<Longrightarrow> inv_lock q"
  by (simp add: inv_lock_def)

lemma inv_attempt_cong:
  "inv_attempt p \<Longrightarrow> runner q = runner p \<Longrightarrow> attempt q = attempt p \<Longrightarrow> mon q = mon p
    \<Longrightarrow> waiter q = waiter p \<Longrightarrow> program_exited q = program_exited p \<Longrightarrow> inv_attempt q"
  unfolding inv_attempt_def by simp

lemma inv_proc_cong:
  "inv_proc p \<Longrightarrow> runner q = runner p \<Longrightarrow> attempt q = attempt p \<Longrightarrow> os_proc q = os_proc p
    \<Longrightarrow> waiter q = waiter p \<Longrightarrow> pcmd q = pcmd p \<Longrightarrow> is_running (state p) \<longrightarrow> is_running (state q) \<Longrightarrow> inv_proc q"
  unfolding inv_proc_def by simp

lemma inv_retry_cong:
  "inv_retry cf p \<Longrightarrow> runner q = runner p \<Longrightarrow> retry_times q = retry_times p \<Longrightarrow> inv_retry cf q"
  by (simp add: inv_retry_def)

lemma inv_cong:
  assumes "proc_inv cf p" and "in_start q = in_start p" "runner q = runner p" "lock q = lock p" "mon q = mon p"
    "attempt q = attempt p" "waiter q = waiter p" "program_exited q = program_exited p"
    "os_proc q = os_proc p" "pcmd q = pcmd p" "retry_times q = retry_times p"
    and "is_running (state p) \<longrightarrow> is_running (state q)"
  shows "proc_inv cf q"
  using assms inv_lock_cong [of p q] inv_attempt_cong [of p q] inv_proc_cong [of p q] inv_retry_cong [of cf p q]
  by (simp add: proc_inv_def)

text \<open>A step of a monitor: only the lock and the monitor's own position matter.\<close>

lemma mon_update_inv:
  assumes "proc_inv cf p" and "q = p\<lparr>lock := l, mon := (mon p)(k := m)\<rparr>" and "mon p k \<noteq> M_None" "m \<noteq> M_None"
    and "l = lock p \<and> m \<noteq> M_In \<and> mon p k \<noteq> M_In \<or> l = By_Mon k \<and> lock p = Free \<and> m = M_In
      \<or> l = Free \<and> lock p = By_Mon k \<and> m \<noteq> M_In"
    and "m = M_In \<longrightarrow> \<not> program_exited p k"
  shows "proc_inv cf q"
proof -
  have l: "inv_lock p" and a: "inv_attempt p" and q: "inv_proc p" and r: "inv_retry cf p"
    using assms(1) by (auto simp: proc_inv_def)
  have at_lock: "mon p j = M_In \<longleftrightarrow> lock p = By_Mon j" for j
    using l by (simp add: inv_lock_def)
  have run: "lock p = By_Run \<longleftrightarrow> l = By_Run" using assms(5) by auto
  have "mon q j = M_In \<longleftrightarrow> l = By_Mon j" for j
    using assms(5) at_lock by (cases "j = k") (auto simp: assms(2))
  then have "inv_lock q" using l run by (simp add: inv_lock_def assms(2))
  moreover have "inv_attempt q"
  proof -
    have "m = M_In \<Longrightarrow> k = attempt p \<and> runner p \<in> {R_Watch, R_Exited}"
      using a assms(3,6) unfolding inv_attempt_def by blast
    moreover have "k \<le> attempt p" using a assms(3) unfolding inv_attempt_def by (metis not_le)
    ultimately show ?thesis using a assms(3,4) unfolding inv_attempt_def assms(2) by auto
  qed
  moreover have "inv_proc q" using q assms(2) by (simp add: inv_proc_def)
  moreover have "inv_retry cf q" using r assms(2) by (simp add: inv_retry_def)
  ultimately show ?thesis by (simp add: proc_inv_def)
qed

lemma mon_step_inv:
  assumes "proc_inv cf p" and "mon_step cf k p = Some p'" and "\<not> panicked p'"
  shows "proc_inv cf p'"
proof (cases "mon p k")
  case M_None
  then show ?thesis using assms by (simp add: mon_step_def)
next
  case M_Wait
  have "lock p \<noteq> By_Mon k" using assms(1) M_Wait by (auto simp: proc_inv_def inv_lock_def)
  then have "proc_inv cf (p\<lparr>lock := lock p, mon := (mon p)(k := M_Set)\<rparr>)"
    using M_Wait by (intro mon_update_inv [OF assms(1) refl]) auto
  then show ?thesis using M_Wait assms(2) by (auto simp: mon_step_def intro: inv_cong)
next
  case M_Set
  then have f: "lock p = Free" using assms(2) by (auto simp: mon_step_def split: if_splits)
  show ?thesis
  proof (cases "\<not> program_exited p k \<and> state p = Starting")
    case True
    then have "proc_inv cf (p\<lparr>lock := By_Mon k, mon := (mon p)(k := M_In)\<rparr>)"
      using M_Set f by (intro mon_update_inv [OF assms(1) refl]) auto
    then show ?thesis using True M_Set f assms(2) by (simp add: mon_step_def)
  next
    case False
    then have "proc_inv cf (p\<lparr>lock := Free, mon := (mon p)(k := M_Finish)\<rparr>)"
      using M_Set f by (intro mon_update_inv [OF assms(1) refl]) auto
    then show ?thesis using False M_Set f assms(2)
      by (intro inv_cong [of cf "p\<lparr>lock := Free, mon := (mon p)(k := M_Finish)\<rparr>" p']) (auto simp: mon_step_def)
  qed
next
  case M_In
  have "lock p = By_Mon k" using assms(1) M_In by (simp add: proc_inv_def inv_lock_def)
  then have "proc_inv cf (p\<lparr>lock := Free, mon := (mon p)(k := M_Finish)\<rparr>)"
    using M_In by (intro mon_update_inv [OF assms(1) refl]) auto
  moreover have "state p' = Running" using M_In assms by (auto simp: mon_step_def state_change_state)
  ultimately show ?thesis using M_In assms(2)
    by (auto simp: mon_step_def is_running_def intro: inv_cong)
next
  case M_Finish
  have "lock p \<noteq> By_Mon k" using assms(1) M_Finish by (auto simp: proc_inv_def inv_lock_def)
  then have "proc_inv cf (p\<lparr>lock := lock p, mon := (mon p)(k := M_Done)\<rparr>)"
    using M_Finish by (intro mon_update_inv [OF assms(1) refl]) auto
  then show ?thesis using M_Finish assms(2) by (auto simp: mon_step_def finish_cb_def intro: inv_cong)
next
  case M_Done
  then show ?thesis using assms by (simp add: mon_step_def)
qed

lemma wait_step_inv:
  assumes "proc_inv cf p" and "wait_step k p = Some p'"
  shows "proc_inv cf p'"
proof -
  have l: "inv_lock p" and a: "inv_attempt p" and q: "inv_proc p" and r: "inv_retry cf p"
    using assms(1) by (auto simp: proc_inv_def)
  have wk: "waiter p k = W_Wait \<or> waiter p k = W_Stored"
    using assms(2) by (auto simp: wait_step_def split: wait_pc.splits)
  have fs: "in_start p' = in_start p" "runner p' = runner p" "lock p' = lock p" "mon p' = mon p"
    "attempt p' = attempt p" "program_exited p' = program_exited p" "retry_times p' = retry_times p"
    and w: "waiter p' = (waiter p)(k := (if waiter p k = W_Wait then W_Stored else W_Done))"
    using assms(2) by (auto simp: wait_step_def split: wait_pc.splits os_proc.splits if_splits)
  have "k \<le> attempt p" using a wk unfolding inv_attempt_def by (metis not_le wait_pc.distinct(1,3))
  then have "inv_attempt p'" using a unfolding inv_attempt_def fs w by auto
  moreover have "inv_lock p'" using l fs by (simp add: inv_lock_def)
  moreover have "inv_retry cf p'" using r fs by (simp add: inv_retry_def)
  moreover have "inv_proc p'"
  proof (cases "waiter p k = W_Wait")
    case True
    then have "os_proc p' = No_Proc" "has_process (pcmd p')" "k = attempt p" "runner p = R_Watch"
      using assms(2) q by (auto simp: wait_step_def inv_proc_def split: os_proc.splits)
    then show ?thesis using q True unfolding inv_proc_def fs w by auto
  next
    case False
    then have "os_proc p' = os_proc p" "state p' = state p" "pcmd p' = pcmd p"
      using assms(2) wk by (auto simp: wait_step_def split: if_splits)
    moreover have "waiter p' j = W_Wait \<longleftrightarrow> waiter p j = W_Wait" for j
      using False by (simp add: w)
    ultimately show ?thesis using q by (simp add: inv_proc_def fs)
  qed
  ultimately show ?thesis by (simp add: proc_inv_def)
qed

lemma start_inv:
  assumes "proc_inv cf p" and "lock p = Free"
  shows "proc_inv cf (start w p)"
proof (cases "in_start p")
  case True
  then show ?thesis using assms by (simp add: start_def)
next
  case False
  then have "runner p = R_Idle" using assms by (simp add: proc_inv_def inv_lock_def)
  with False show ?thesis using assms by (auto simp: start_def inv_defs)
qed

lemma exit_inv:
  assumes "proc_inv cf p" and "os_proc p = Alive"
  shows "proc_inv cf (p\<lparr>os_proc := Zombie c\<rparr>)"
proof -
  have "inv_proc (p\<lparr>os_proc := Zombie c\<rparr>)" using assms by (simp add: proc_inv_def inv_proc_def)
  then show ?thesis using assms(1) by (simp add: proc_inv_def inv_lock_def inv_attempt_def inv_retry_def)
qed

lemma stop_inv:
  "proc_inv cf p \<Longrightarrow> stop_flag p = Some p' \<Longrightarrow> proc_inv cf p'"
  "proc_inv cf p \<Longrightarrow> stop_check p = Some p' \<Longrightarrow> proc_inv cf p'"
  by (auto simp: stop_flag_def stop_check_def intro: inv_cong split: if_splits nat.splits)

lemma stop_store_inv:
  assumes "proc_inv cf p" and "stop_store cf p = Some p'" and "\<not> panicked p'"
  shows "proc_inv cf p'"
proof -
  have "state p' = Stopping" using assms(2,3)
    by (auto simp: stop_store_def state_change_state split: nat.splits)
  then show ?thesis using assms(1,2)
    by (auto simp: stop_store_def is_running_def intro: inv_cong split: nat.splits)
qed

lemma pid_inv:
  "proc_inv cf p \<Longrightarrow> pid_load p = Some p' \<Longrightarrow> proc_inv cf p'"
  "proc_inv cf p \<Longrightarrow> pid_read p = Some p' \<Longrightarrow> proc_inv cf p'"
  by (auto simp: pid_load_def pid_read_def intro: inv_cong split: if_splits nat.splits)

lemma act_inv:
  assumes "proc_inv cf p" and "conf_ok cf" and "act cf a p = Some p'" and "\<not> panicked p'"
  shows "proc_inv cf p'"
  using assms
  by (cases a)
    (auto split: if_splits intro: run_step_inv mon_step_inv wait_step_inv start_inv exit_inv stop_inv
      stop_store_inv pid_inv)

lemma act_not_panicked: "act cf a p = Some p' \<Longrightarrow> \<not> panicked p"
  by (auto split: if_splits)

lemma reach_inv:
  assumes "reach cf p" and "conf_ok cf" and "\<not> panicked p"
  shows "proc_inv cf p"
  using assms(1,3)
proof (induction rule: reach.induct)
  case init
  show ?case by (rule inv_new_process)
next
  case (step p a p')
  then show ?case using act_inv [OF _ assms(2)] act_not_panicked by blast
qed

lemma acts_reach: "reach cf p \<Longrightarrow> acts cf as p = Some p' \<Longrightarrow> reach cf p'"
  by (induction "as" arbitrary: p) (auto split: option.splits intro: reach.step simp del: act.simps)

lemma acts_invariant:
  assumes "\<And>a p p'. I p \<Longrightarrow> act cf a p = Some p' \<Longrightarrow> A a \<Longrightarrow> I p'"
  shows "I p \<Longrightarrow> acts cf as p = Some p' \<Longrightarrow> list_all A as \<Longrightarrow> I p'"
  using assms by (induction "as" arbitrary: p) (auto split: option.splits simp del: act.simps)

text \<open>The settings of a program section without keys.\<close>

definition default_conf :: pconf where
  "default_conf = \<lparr>start_secs = 1, restart_pause = 0, start_retries = 3, autorestart = ''unexpected'',
     exit_codes = [0, 2], prog = True\<rparr>"

text \<open>A run of \<open>acts\<close> from the new process, whose final state satisfies \<open>P\<close>.\<close>

definition trace_ends :: "pconf \<Rightarrow> action list \<Rightarrow> (proc \<Rightarrow> bool) \<Rightarrow> bool" where
  "trace_ends cf as P = (case acts cf as new_process of None \<Rightarrow> False | Some p \<Rightarrow> P p)"

lemma trace_reach: "trace_ends cf as P \<Longrightarrow> \<exists>p. reach cf p \<and> acts cf as new_process = Some p \<and> P p"
  by (auto simp: trace_ends_def intro: acts_reach reach.init split: option.splits)

section \<open>Stopping for good\<close>

text \<open>After \<open>Stop\<close> has set the flag outside the window of a restart, no program is started.\<close>

definition stop_seen :: "nat \<Rightarrow> proc \<Rightarrow> bool" where
  "stop_seen n p \<longleftrightarrow> stop_by_user p \<and> attempt p = n
     \<and> runner p \<notin> {R_Paused, R_Starting, R_Create, R_Exec}"

fun is_start :: "action \<Rightarrow> bool" where
  "is_start (Start _) = True"
| "is_start _ = False"

lemma run_step_stop_seen: "stop_seen n p \<Longrightarrow> run_step cf out p = Some p' \<Longrightarrow> stop_seen n p'"
  by (cases "runner p")
    (auto simp: stop_seen_def run_step_def leave_run_def finish_cb_def fail_to_start_program_def split: if_splits)

lemma act_stop_seen:
  assumes "stop_seen n p" and "act cf a p = Some p'" and "\<not> is_start a"
  shows "stop_seen n p'"
proof (cases a)
  case (Run out)
  then show ?thesis using assms by (auto intro: run_step_stop_seen split: if_splits)
next
  case (Mon k)
  then show ?thesis using assms
    by (cases "mon p k") (auto simp: mon_step_def stop_seen_def finish_cb_def split: if_splits)
next
  case (Wait k)
  then show ?thesis using assms
    by (cases "waiter p k") (auto simp: wait_step_def stop_seen_def split: if_splits os_proc.splits)
qed (use assms in \<open>auto simp: stop_seen_def stop_flag_def stop_check_def stop_store_def pid_load_def pid_read_def
    split: if_splits nat.splits\<close>)

section \<open>Stuck in Stopping\<close>

definition stuck :: "proc \<Rightarrow> bool" where
  "stuck p \<longleftrightarrow> state p = Stopping \<and> os_proc p = No_Proc
     \<and> runner p \<in> {R_Idle, R_Enter, R_Check, R_After, R_End}
     \<and> (\<forall>k. waiter p k \<noteq> W_Wait) \<and> (\<forall>k. mon p k \<noteq> M_In)"

lemma act_stuck:
  assumes "stuck p" and "act cf a p = Some p'"
  shows "stuck p'"
proof (cases a)
  case (Start w)
  then show ?thesis using assms by (auto simp: stuck_def start_def split: if_splits)
next
  case (Run out)
  then have run: "run_step cf out p = Some p'" using assms(2) by (simp split: if_splits)
  show ?thesis
  proof (cases "runner p")
    case R_Check
    then have "p' = leave_run (finish_cb (start_id p) p)"
      using run assms(1) by (simp add: run_step_def stuck_def is_running_def)
    then show ?thesis using assms(1) by (simp add: stuck_def leave_run_def finish_cb_def)
  qed (use run assms(1) in \<open>auto simp: stuck_def run_step_def split: if_splits\<close>)
next
  case (Mon k)
  then show ?thesis using assms
    by (cases "mon p k") (auto simp: mon_step_def stuck_def finish_cb_def split: if_splits)
next
  case (Wait k)
  then show ?thesis using assms
    by (cases "waiter p k") (auto simp: wait_step_def stuck_def split: if_splits os_proc.splits)
next
  case (Exit c)
  then show ?thesis using assms by (auto simp: stuck_def split: if_splits)
qed (use assms in \<open>auto simp: stuck_def stop_flag_def stop_check_def stop_store_def change_state_def pid_load_def
    pid_read_def split: if_splits nat.splits\<close>)

lemma acts_stuck: "stuck p \<Longrightarrow> acts cf as p = Some p' \<Longrightarrow> stuck p'"
  by (rule acts_invariant [of stuck cf "\<lambda>_. True"]) (auto simp del: act.simps simp: list_all_iff intro: act_stuck)

section \<open>A caller of Start that waits for ever\<close>

definition left_waiting :: "nat \<Rightarrow> proc \<Rightarrow> bool" where
  "left_waiting i p \<longleftrightarrow> waiting p i \<and> i \<le> start_id p \<and> (start_id p = i \<longrightarrow> runner p = R_Idle)
     \<and> (in_start p \<or> runner p = R_Idle) \<and> (\<forall>k. mon p k \<noteq> M_None \<longrightarrow> att_start p k \<noteq> i)"

lemma run_step_left_waiting:
  assumes "left_waiting i p" and "run_step cf out p = Some p'"
  shows "left_waiting i p'"
proof (cases "runner p")
  case R_Exec
  then show ?thesis using assms
    by (auto simp: left_waiting_def run_step_def spawn_def Let_def leave_run_def finish_cb_def
        fail_to_start_program_def split: if_splits)
qed (use assms in \<open>auto simp: left_waiting_def run_step_def leave_run_def finish_cb_def
    fail_to_start_program_def split: if_splits option.splits\<close>)

lemma act_left_waiting:
  assumes "left_waiting i p" and "act cf a p = Some p'"
  shows "left_waiting i p'"
proof (cases a)
  case (Start w)
  then show ?thesis using assms by (auto simp: left_waiting_def start_def split: if_splits)
next
  case (Run out)
  then show ?thesis using assms by (auto intro: run_step_left_waiting split: if_splits)
next
  case (Mon k)
  then have m: "mon_step cf k p = Some p'" using assms(2) by (simp split: if_splits)
  then have "mon p k \<noteq> M_None" by (auto simp: mon_step_def)
  then have k: "att_start p k \<noteq> i" using assms(1) by (simp add: left_waiting_def)
  have "start_id p' = start_id p" "runner p' = runner p" "in_start p' = in_start p" "att_start p' = att_start p"
    "waiting p' i = waiting p i" "mon p' j \<noteq> M_None \<Longrightarrow> mon p j \<noteq> M_None" for j
    using m k by (cases "mon p k"; auto simp: mon_step_def finish_cb_def split: if_splits)+
  then show ?thesis using assms(1) by (simp add: left_waiting_def)
next
  case (Wait k)
  then show ?thesis using assms
    by (cases "waiter p k") (auto simp: wait_step_def left_waiting_def split: if_splits os_proc.splits)
next
  case (Exit c)
  then show ?thesis using assms by (auto simp: left_waiting_def split: if_splits)
qed (use assms in \<open>auto simp: left_waiting_def stop_flag_def stop_check_def stop_store_def pid_load_def
    pid_read_def split: if_splits nat.splits\<close>)

lemma acts_left_waiting: "left_waiting i p \<Longrightarrow> acts cf as p = Some p' \<Longrightarrow> left_waiting i p'"
  by (rule acts_invariant [of "left_waiting i" cf "\<lambda>_. True"])
    (auto simp del: act.simps simp: list_all_iff intro: act_left_waiting)

section \<open>Executions without the two races\<close>

text \<open>
  \<open>Stop\<close> stores \<open>Stopping\<close> right after its test, and the exit of the program is not stored while
  the monitor is between its test and its store.
\<close>

definition calm :: "proc \<Rightarrow> action \<Rightarrow> bool" where
  "calm p a \<longleftrightarrow> (0 < stop_checked p \<longrightarrow> a = Stop_Store)
     \<and> (case a of Wait k \<Rightarrow> (case lock p of By_Mon _ \<Rightarrow> waiter p k \<noteq> W_Wait | _ \<Rightarrow> True) | _ \<Rightarrow> True)"

inductive calm_reach :: "pconf \<Rightarrow> proc \<Rightarrow> bool" for cf where
  init: "calm_reach cf new_process"
| step: "calm_reach cf p \<Longrightarrow> calm p a \<Longrightarrow> act cf a p = Some p' \<Longrightarrow> calm_reach cf p'"

fun calm_acts :: "pconf \<Rightarrow> action list \<Rightarrow> proc \<Rightarrow> proc option" where
  "calm_acts cf [] p = Some p"
| "calm_acts cf (a # as) p =
     (if calm p a then (case act cf a p of None \<Rightarrow> None | Some p' \<Rightarrow> calm_acts cf as p') else None)"

lemma calm_acts_reach: "calm_reach cf p \<Longrightarrow> calm_acts cf as p = Some p' \<Longrightarrow> calm_reach cf p'"
  by (induction "as" arbitrary: p)
    (auto split: option.splits if_splits intro: calm_reach.step simp del: act.simps)

lemma calm_reach_reach: "calm_reach cf p \<Longrightarrow> reach cf p"
  by (induction rule: calm_reach.induct) (auto intro: reach.intros simp del: act.simps)

definition watching :: "runner_pc \<Rightarrow> bool" where
  "watching r \<longleftrightarrow> r \<in> {R_Watch, R_Exited, R_Wait_Mon, R_Decide}"

text \<open>Once the exit is stored, the state stays \<open>Stopped\<close> until \<open>run\<close> looks at it.\<close>

definition calm_inv :: "proc \<Rightarrow> bool" where
  "calm_inv p \<longleftrightarrow> state p \<noteq> Exited
     \<and> (watching (runner p) \<longrightarrow> waiter p (attempt p) \<noteq> W_None)
     \<and> (watching (runner p) \<and> runner p \<noteq> R_Watch \<longrightarrow> waiter p (attempt p) \<noteq> W_Wait)
     \<and> (watching (runner p) \<and> waiter p (attempt p) \<noteq> W_Wait \<longrightarrow> state p = Stopped \<and> (\<forall>k. lock p \<noteq> By_Mon k))
     \<and> (0 < stop_checked p \<longrightarrow> is_running (state p))"

lemma change_state_not_Exited: "to \<noteq> Exited \<Longrightarrow> state p \<noteq> Exited \<Longrightarrow> state (change_state cf to p) \<noteq> Exited"
  by (simp add: change_state_def)

lemma calm_inv_run:
  assumes "calm_inv p" and "proc_inv cf p" and "run_step cf out p = Some p'" and "\<not> panicked p'"
    and "stop_checked p = 0"
  shows "calm_inv p'"
proof -
  have not_exited: "state p \<noteq> Exited" using assms(1) by (simp add: calm_inv_def)
  show ?thesis
proof (cases "runner p")
  case R_Exec
  show ?thesis
  proof (cases "out = Success")
    case True
    then have p': "p' = spawn cf p" using R_Exec assms(3) by (simp add: run_step_def)
    have "state p' = Running \<or> state p' = state p"
    proof (cases "start_secs cf \<le> 0")
      case True
      then show ?thesis using p' assms(4) by (simp add: spawn_def Let_def state_change_state)
    next
      case False
      then show ?thesis using p' by (simp add: spawn_def Let_def)
    qed
    moreover have "stop_checked p' = 0" using assms(5) p' by (simp add: spawn_def Let_def)
    ultimately show ?thesis using assms(1) unfolding calm_inv_def p'
      by (auto simp: spawn_fields)
  next
    case False
    then have "p' = leave_run (fail_to_start_program cf p) \<or> p' = (change_state cf Backoff p)\<lparr>runner := R_Loop\<rparr>"
      using R_Exec assms(3) by (auto simp: run_step_def split: if_splits)
    then show ?thesis using not_exited assms(5)
      by (elim disjE) (simp_all add: calm_inv_def watching_def leave_run_def fail_to_start_program_def finish_cb_def
          change_state_not_Exited)
  qed
next
  case R_Watch
  then have go: "waiter p (attempt p) = W_Done \<or> \<not> is_running (state p)" and p': "p' = p\<lparr>runner := R_Exited\<rparr>"
    using assms(3) by (simp_all add: run_step_def split: if_splits)
  have "waiter p (attempt p) \<noteq> W_Wait"
    using go assms(2) unfolding proc_inv_def inv_proc_def by (metis wait_pc.distinct(9))
  then show ?thesis using R_Watch assms(1,5) by (simp add: calm_inv_def watching_def p')
next
  case R_Decide
  then have "state p = Stopped" using assms(1) by (simp add: calm_inv_def watching_def)
  then have p': "p' = (change_state cf Backoff p)\<lparr>runner := R_Retry\<rparr>"
    using R_Decide assms(3) by (simp add: run_step_def)
  then have "\<not> panicked (change_state cf Backoff p)" using assms(4) by simp
  then show ?thesis using assms(5) by (simp add: calm_inv_def watching_def p' state_change_state)
next
  case R_Starting
  then have p': "p' = (change_state cf Starting p)\<lparr>retry_times := wrap32 (retry_times p + 1), runner := R_Create\<rparr>"
    using assms(3) by (simp add: run_step_def)
  then have "\<not> panicked (change_state cf Starting p)" using assms(4) by simp
  then show ?thesis using assms(5) by (simp add: calm_inv_def watching_def p' state_change_state)
next
  case R_Create
  then obtain c where "p' = p\<lparr>pcmd := c, runner := R_Exec\<rparr>
      \<or> p' = leave_run (fail_to_start_program cf (p\<lparr>pcmd := c\<rparr>))"
    using assms(3) by (auto simp: run_step_def split: if_splits option.splits)
  then show ?thesis using not_exited assms(5)
    by (elim disjE) (simp_all add: calm_inv_def watching_def leave_run_def fail_to_start_program_def finish_cb_def
        change_state_not_Exited)
next
  case R_Retry
  then have "p' = leave_run (fail_to_start_program cf p) \<or> p' = p\<lparr>runner := R_Loop\<rparr>"
    using assms(3) by (auto simp: run_step_def split: if_splits)
  then show ?thesis using not_exited assms(5)
    by (elim disjE) (simp_all add: calm_inv_def watching_def leave_run_def fail_to_start_program_def finish_cb_def
        change_state_not_Exited)
qed (use assms in \<open>auto simp: calm_inv_def watching_def run_step_def leave_run_def finish_cb_def split: if_splits\<close>)
qed

lemma calm_inv_mon:
  assumes "calm_inv p" and "proc_inv cf p" and "mon_step cf k p = Some p'" and "\<not> panicked p'"
    and "stop_checked p = 0"
  shows "calm_inv p'"
proof (cases "mon p k")
  case M_In
  then have "lock p = By_Mon k" and in_watch: "watching (runner p)"
    using assms(2) by (auto simp: proc_inv_def inv_lock_def inv_attempt_def watching_def)
  then have "waiter p (attempt p) = W_Wait" using assms(1) by (auto simp: calm_inv_def)
  moreover have "state p' = Running" using M_In assms(3,4) by (auto simp: mon_step_def state_change_state)
  ultimately show ?thesis using M_In assms(1,3,5) by (auto simp: mon_step_def calm_inv_def)
next
  case M_Set
  then have "lock p = Free" using assms(3) by (auto simp: mon_step_def split: if_splits)
  then show ?thesis using M_Set assms(1,3,5) by (auto simp: mon_step_def calm_inv_def split: if_splits)
qed (use assms in \<open>auto simp: mon_step_def calm_inv_def finish_cb_def\<close>)

lemma calm_inv_wait:
  assumes "calm_inv p" and "proc_inv cf p" and "wait_step k p = Some p'" and "calm p (Wait k)"
    and "stop_checked p = 0"
  shows "calm_inv p'"
proof (cases "waiter p k")
  case W_Wait
  then have "\<forall>j. lock p \<noteq> By_Mon j" using assms(4) by (auto simp: calm_def split: owner.splits)
  moreover have "k = attempt p" using W_Wait assms(2) by (simp add: proc_inv_def inv_proc_def)
  ultimately show ?thesis using W_Wait assms(1,3,5)
    by (auto simp: wait_step_def calm_inv_def split: os_proc.splits)
next
  case W_Stored
  then have p': "p' = p\<lparr>waiter := (waiter p)(k := W_Done)\<rparr>"
    using assms(3) by (simp add: wait_step_def split: if_splits)
  have "waiter p' (attempt p) = W_Wait \<longleftrightarrow> waiter p (attempt p) = W_Wait"
    "waiter p' (attempt p) = W_None \<longleftrightarrow> waiter p (attempt p) = W_None"
    using W_Stored by (auto simp: p')
  then show ?thesis using assms(1) unfolding calm_inv_def by (simp add: p')
qed (use assms in \<open>auto simp: wait_step_def\<close>)

lemma calm_inv_act:
  assumes "calm_inv p" and "proc_inv cf p" and "act cf a p = Some p'" and "\<not> panicked p'" and "calm p a"
  shows "calm_inv p'"
proof (cases "0 < stop_checked p")
  case True
  then have a: "a = Stop_Store" and run: "is_running (state p)" using assms(1,5) by (auto simp: calm_def calm_inv_def)
  have "state p' = Stopping" using a assms(3,4)
    by (auto simp: stop_store_def state_change_state split: if_splits nat.splits)
  moreover have "waiter p' = waiter p" "runner p' = runner p" "attempt p' = attempt p" "lock p' = lock p"
    using a assms(3) by (auto simp: stop_store_def split: if_splits nat.splits)
  moreover have "is_running Stopping" by (simp add: is_running_def)
  moreover have "\<not> (watching (runner p) \<and> waiter p (attempt p) \<noteq> W_Wait)"
    using assms(1) run by (auto simp: calm_inv_def is_running_def)
  ultimately show ?thesis using assms(1) by (auto simp: calm_inv_def)
next
  case False
  then show ?thesis
  proof (cases a)
    case (Start w)
    then show ?thesis using assms(1-3) False
      by (auto simp: start_def calm_inv_def watching_def proc_inv_def inv_lock_def split: if_splits)
  next
    case (Run out)
    then have "run_step cf out p = Some p'" using assms(3) by (simp split: if_splits)
    then show ?thesis using calm_inv_run assms(1,2,4) False by blast
  next
    case (Mon k)
    then have "mon_step cf k p = Some p'" using assms(3) by (simp split: if_splits)
    then show ?thesis using calm_inv_mon assms(1,2,4) False by blast
  next
    case (Wait k)
    then have "wait_step k p = Some p'" using assms(3) by (simp split: if_splits)
    then show ?thesis using calm_inv_wait assms(1,2,5) False Wait by blast
  next
    case (Exit c)
    then show ?thesis using assms(1,3) by (auto simp: calm_inv_def split: if_splits)
  qed (use assms(1,3) False in \<open>auto simp: calm_inv_def stop_flag_def stop_check_def stop_store_def
      pid_load_def pid_read_def split: if_splits nat.splits\<close>)
qed

lemma calm_reach_inv:
  assumes "calm_reach cf p" and "conf_ok cf" and "\<not> panicked p"
  shows "calm_inv p"
  using assms(1,3)
proof (induction rule: calm_reach.induct)
  case init
  show ?case by (simp add: calm_inv_def new_process_def watching_def)
next
  case (step p a p')
  then have "\<not> panicked p" using act_not_panicked by blast
  with step show ?case
    using calm_inv_act reach_inv [OF calm_reach_reach [OF step.hyps(1)] assms(2)] by blast
qed

end
