(* ===== verification/Process_Props.thy ===== *)
theory Process_Props
  imports Process
begin

text \<open>
  What holds of every execution of the goroutines of one program, and the interleavings that end
  badly. A negative property gives the execution: a list of steps from the new process.
\<close>

section \<open>Safety\<close>

text \<open>
  C36. One instance: whenever the program's process exists (running, or exited and not yet waited
  for), \<open>IsRunning\<close> holds and the goroutine of \<open>Start\<close> is watching it; so whenever
  \<open>p.cmd.Start()\<close> creates a process, no earlier one exists.
\<close>

theorem single_instance:
  assumes "reach cf p" and "conf_ok cf" and "\<not> panicked p"
  shows "(os_proc p \<noteq> No_Proc \<longrightarrow> is_running (state p) \<and> in_start p \<and> runner p = R_Watch)
    \<and> (\<forall>out p'. act cf (Run out) p = Some p' \<and> attempt p' \<noteq> attempt p \<longrightarrow> os_proc p = No_Proc)"
proof -
  have inv: "proc_inv cf p" by (rule reach_inv [OF assms])
  then have 1: "os_proc p \<noteq> No_Proc \<longrightarrow> is_running (state p) \<and> in_start p \<and> runner p = R_Watch"
    by (auto simp: proc_inv_def inv_proc_def inv_lock_def)
  moreover have "attempt p' = attempt p" if "runner p = R_Watch" "act cf (Run out) p = Some p'" for out p'
    using that by (auto simp: run_step_def split: if_splits)
  ultimately show ?thesis by blast
qed

definition started_ok :: "action list" where
  "started_ok = [Start False, Run Success, Run Success, Run Success, Run Success, Run Success, Run Success]"

lemma single_instance_witness:
  "(case acts default_conf started_ok new_process of None \<Rightarrow> False
    | Some p \<Rightarrow> os_proc p = Alive \<and> is_running (state p) \<and> runner p = R_Watch)"
proof -
  have "trace_ends default_conf started_ok (\<lambda>p. os_proc p = Alive \<and> \<not> panicked p)" by code_simp
  from trace_reach [OF this] obtain p where p: "reach default_conf p" "\<not> panicked p" "os_proc p = Alive"
    "acts default_conf started_ok new_process = Some p" by blast
  have "conf_ok default_conf" by (simp add: conf_ok_def default_conf_def)
  from single_instance [OF p(1) this p(2)] p(3,4) show ?thesis by simp
qed

text \<open>
  Bounded attempts: in one call of \<open>run\<close> the counter \<open>retryTimes\<close> never exceeds
  \<open>startretries\<close> (or one, if \<open>startretries\<close> is less), so it never wraps around.
\<close>

theorem retries_bounded:
  assumes "reach cf p" and "conf_ok cf" and "\<not> panicked p"
  shows "0 \<le> retry_times p \<and> retry_times p \<le> max 1 (start_retries cf)"
  using reach_inv [OF assms] by (simp add: proc_inv_def inv_retry_def)

lemma retries_bounded_witness:
  "(case acts default_conf started_ok new_process of None \<Rightarrow> False | Some p \<Rightarrow> retry_times p \<le> max 1 3)"
proof -
  have "trace_ends default_conf started_ok (\<lambda>p. \<not> panicked p)" by code_simp
  from trace_reach [OF this] obtain p where p: "reach default_conf p" "\<not> panicked p"
    "acts default_conf started_ok new_process = Some p" by blast
  have "conf_ok default_conf" by (simp add: conf_ok_def default_conf_def)
  from retries_bounded [OF p(1) this p(2)] p(3) show ?thesis by (simp add: default_conf_def)
qed

text \<open>
  Stopping is final: once \<open>Stop\<close> has set its flag at a moment when the goroutine of \<open>Start\<close> is
  not about to start the program, no process is created until \<open>Start\<close> is called again, whatever
  \<open>autorestart\<close> and \<open>startretries\<close> say.
\<close>

theorem stop_prevents_restart:
  assumes "stop_by_user p" and "runner p \<notin> {R_Paused, R_Starting, R_Create, R_Exec}"
    and "acts cf as p = Some p'" and "list_all (\<lambda>a. \<not> is_start a) as"
  shows "stop_by_user p' \<and> attempt p' = attempt p"
proof -
  have "stop_seen (attempt p) p" using assms(1,2) by (simp add: stop_seen_def)
  from acts_invariant [where I = "stop_seen (attempt p)", OF act_stop_seen this assms(3,4)]
  show ?thesis by (simp add: stop_seen_def)
qed

lemma stop_prevents_restart_witness:
  "(case acts default_conf (started_ok @ [Stop_Flag]) new_process of None \<Rightarrow> False
    | Some p \<Rightarrow> (case acts default_conf [Exit 1, Wait 1, Run Success, Run Success] p of None \<Rightarrow> False
        | Some p' \<Rightarrow> stop_by_user p' \<and> attempt p' = attempt p))"
proof -
  have "trace_ends default_conf (started_ok @ [Stop_Flag])
    (\<lambda>p. stop_by_user p \<and> runner p = R_Watch \<and> acts default_conf [Exit 1, Wait 1, Run Success, Run Success] p \<noteq> None)"
    unfolding trace_ends_def by code_simp
  from trace_reach [OF this] obtain p p' where p: "stop_by_user p" "runner p = R_Watch"
    "acts default_conf (started_ok @ [Stop_Flag]) new_process = Some p"
    "acts default_conf [Exit 1, Wait 1, Run Success, Run Success] p = Some p'" by blast
  from stop_prevents_restart [OF p(1) _ p(4)] p show ?thesis by simp
qed

section \<open>What a program that ends is reported as\<close>

text \<open>
  \<open>waitForExit\<close> stores \<open>Stopped\<close> before \<open>run\<close> looks at the state. Unless \<open>Stop\<close> or the monitor
  interleaves with exactly that store, \<open>run\<close> then always takes the branch of a failed start: the
  program goes to \<open>Backoff\<close>, never to \<open>Exited\<close>, however long it ran and whatever its exit code.
\<close>

theorem exited_never_reported:
  assumes "calm_reach cf p" and "conf_ok cf" and "\<not> panicked p"
  shows "state p \<noteq> Exited
    \<and> (\<forall>out p'. runner p = R_Decide \<and> act cf (Run out) p = Some p' \<longrightarrow>
         state p' = Backoff \<and> runner p' = R_Retry)"
proof -
  have inv: "calm_inv p" by (rule calm_reach_inv [OF assms])
  have decide: "state p' = Backoff \<and> runner p' = R_Retry"
    if d: "runner p = R_Decide" and run: "act cf (Run out) p = Some p'" for out p'
  proof -
    have "state p = Stopped" using inv d by (simp add: calm_inv_def watching_def)
    then have "p' = (change_state cf Backoff p)\<lparr>runner := R_Retry\<rparr>"
      using run d by (simp add: run_step_def split: if_splits)
    moreover have "\<not> panicked (change_state cf Backoff p)"
      using assms(3) by (simp add: panicked_change_state)
    ultimately show ?thesis by (simp add: state_change_state)
  qed
  have "state p \<noteq> Exited" using inv by (simp add: calm_inv_def)
  with decide show ?thesis by blast
qed

text \<open>A program that started well, ran, and ended with exit code 0.\<close>

definition ended_ok :: "action list" where
  "ended_ok = started_ok @ [Mon 1, Mon 1, Mon 1, Mon 1, Exit 0, Wait 1, Wait 1, Run Success, Run Success, Run Success]"

lemma exited_never_reported_witness:
  "(case calm_acts default_conf (ended_ok @ [Run Success]) new_process of None \<Rightarrow> False
    | Some p \<Rightarrow> state p = Backoff)"
proof -
  let ?P = "\<lambda>p. runner p = R_Decide \<and> \<not> panicked p"
  have "(case calm_acts default_conf ended_ok new_process of None \<Rightarrow> False | Some p \<Rightarrow> ?P p)" by code_simp
  then obtain p where p: "calm_acts default_conf ended_ok new_process = Some p" "?P p"
    by (auto split: option.splits)
  have "(case calm_acts default_conf (ended_ok @ [Run Success]) new_process of None \<Rightarrow> False | Some p \<Rightarrow> True)"
    by code_simp
  then obtain q where q: "calm_acts default_conf (ended_ok @ [Run Success]) new_process = Some q"
    by (auto split: option.splits)
  have app: "calm_acts cf (as @ [a]) r = Some s \<Longrightarrow> \<exists>t. calm_acts cf as r = Some t \<and> act cf a t = Some s"
    for cf "as" a r s
    by (induction "as" arbitrary: r) (auto split: option.splits if_splits simp del: act.simps)
  have step: "act default_conf (Run Success) p = Some q" using app [OF q] p(1) by simp
  have "calm_reach default_conf p" using p(1) by (intro calm_acts_reach [OF calm_reach.init])
  moreover have "conf_ok default_conf" by (simp add: conf_ok_def default_conf_def)
  ultimately show ?thesis using exited_never_reported [of default_conf p] p(2) step q by simp
qed

section \<open>Executions that end badly\<close>

text \<open>The states that some steps of the goroutines lead to from \<open>p\<close>.\<close>

definition after :: "pconf \<Rightarrow> proc \<Rightarrow> proc set" where
  "after cf p = {p'. \<exists>as. acts cf as p = Some p'}"

text \<open>
  \<open>Stop\<close> tests the state and stores \<open>Stopping\<close> in two steps. When the program ends in between
  and its goroutine finishes, the state stays \<open>Stopping\<close> for ever: no later step of any goroutine
  changes it, no process is ever created again, and \<open>Stop(true)\<close> never returns.
\<close>

theorem stopping_forever:
  "\<exists>p. reach default_conf p \<and> in_start p = False
     \<and> after default_conf p \<subseteq> {p'. state p' = Stopping \<and> os_proc p' = No_Proc}"
proof -
  let ?t = "started_ok @ [Mon 1, Mon 1, Mon 1, Mon 1, Stop_Flag, Stop_Check, Exit 0, Wait 1, Wait 1,
    Run Success, Run Success, Run Success, Run Success, Run Success, Run Success, Run Success, Run Success, Stop_Store]"
  have "trace_ends default_conf ?t (\<lambda>p. \<not> in_start p \<and> state p = Stopping \<and> os_proc p = No_Proc
      \<and> runner p = R_Idle \<and> attempt p = 1 \<and> waiter p 1 = W_Done \<and> mon p 1 = M_Done \<and> \<not> panicked p)"
    by code_simp
  from trace_reach [OF this] obtain p where p: "reach default_conf p" "\<not> in_start p" "state p = Stopping"
    "os_proc p = No_Proc" "runner p = R_Idle" "attempt p = 1" "mon p 1 = M_Done" "\<not> panicked p" by blast
  have "conf_ok default_conf" by (simp add: conf_ok_def default_conf_def)
  from reach_inv [OF p(1) this p(8)]
  have "waiter p k \<noteq> W_Wait" "mon p k \<noteq> M_In" for k
    using p(4,5) by (auto simp: proc_inv_def inv_proc_def inv_attempt_def)
  then have "stuck p" using p by (simp add: stuck_def)
  then have "after default_conf p \<subseteq> {p'. state p' = Stopping \<and> os_proc p' = No_Proc}"
    using acts_stuck [of p] unfolding stuck_def after_def by blast
  then show ?thesis using p(1,2) by blast
qed

text \<open>
  A \<open>Stop\<close> that comes between \<open>Start(true)\<close> and the loop of \<open>run\<close> makes \<open>run\<close> return
  without calling \<open>finishCb\<close>: the caller of \<open>Start(true)\<close> waits for ever.
\<close>

lemma start_waits_forever:
  "\<exists>p. reach default_conf p \<and> in_start p = False \<and> after default_conf p \<subseteq> {p'. waiting p' 1}"
proof -
  let ?t = "[Start True, Stop_Flag, Run Success, Run Success, Run Success, Run Success, Run Success]"
  have "trace_ends default_conf ?t (\<lambda>p. \<not> in_start p \<and> runner p = R_Idle \<and> waiting p 1 \<and> start_id p = 1
      \<and> attempt p = 0 \<and> \<not> panicked p \<and> mon p 0 = M_None)"
    by code_simp
  from trace_reach [OF this] obtain p where p: "reach default_conf p" "\<not> in_start p" "runner p = R_Idle"
    "waiting p 1" "start_id p = 1" "attempt p = 0" "\<not> panicked p" "mon p 0 = M_None" by blast
  have "conf_ok default_conf" by (simp add: conf_ok_def default_conf_def)
  from reach_inv [OF p(1) this p(7)] have "mon p k = M_None" for k
    using p(6,8) by (cases k) (auto simp: proc_inv_def inv_attempt_def)
  then have "left_waiting 1 p" using p by (simp add: left_waiting_def)
  then have "after default_conf p \<subseteq> {p'. waiting p' 1}"
    using acts_left_waiting [of 1 p] unfolding left_waiting_def after_def by blast
  then show ?thesis using p by blast
qed

text \<open>
  Crash: while a program cannot be started, \<open>GetPid\<close> (called for every status request) may read
  the state \<open>Starting\<close> and then dereference the missing \<open>p.cmd.Process\<close>; and with a
  \<open>restartpause\<close>, a \<open>Stop\<close> during the pause may do the same in \<open>changeStateTo\<close>.
\<close>

lemma nil_process_panics:
  "(\<exists>p. reach default_conf p \<and> panicked p)
   \<and> (\<exists>p. reach (default_conf\<lparr>restart_pause := 1\<rparr>) p \<and> panicked p \<and> pid_loaded p = 0)"
proof -
  have 1: "trace_ends default_conf
      [Start False, Run Success, Run Success, Run Success, Run Success, Pid_Load, Run Fail_Command, Pid_Read] panicked"
    by code_simp
  have 2: "trace_ends (default_conf\<lparr>restart_pause := 1\<rparr>)
      [Start False, Run Success, Run Success, Run Success, Run Success, Run Success, Run Fail_Exec, Run Success,
       Stop_Flag, Run Success, Run Success, Run Success, Stop_Check, Stop_Store] (\<lambda>p. panicked p \<and> pid_loaded p = 0)"
    by code_simp
  from trace_reach [OF 1] trace_reach [OF 2] show ?thesis by blast
qed

text \<open>
  Lost commands: a \<open>Start\<close> that follows a completed \<open>Stop\<close> while the old goroutine has not
  ended does nothing, so a restart can leave the program stopped; and a \<open>Stop\<close> during the
  restart pause is ignored, the program is started after the pause.
\<close>

lemma commands_lost:
  "(\<exists>p. reach default_conf p \<and> \<not> is_running (state p) \<and> act default_conf (Start True) p = Some p
      \<and> (\<exists>p'. acts default_conf [Run Success, Run Success] p = Some p' \<and> runner p' = R_Idle \<and> os_proc p' = No_Proc))
   \<and> (\<exists>p. reach (default_conf\<lparr>restart_pause := 1\<rparr>) p \<and> stop_by_user p \<and> stop_flagged p = 0
      \<and> stop_checked p = 0 \<and> os_proc p = Alive)"
proof -
  have 1: "trace_ends default_conf
      (started_ok @ [Mon 1, Mon 1, Mon 1, Mon 1, Stop_Flag, Stop_Check, Stop_Store, Exit 0, Wait 1, Wait 1,
        Run Success, Run Success, Run Success, Run Success, Run Success, Run Success])
      (\<lambda>p. \<not> is_running (state p) \<and> lock p = Free \<and> in_start p \<and> \<not> panicked p
         \<and> (case acts default_conf [Run Success, Run Success] p of None \<Rightarrow> False
            | Some p' \<Rightarrow> runner p' = R_Idle \<and> os_proc p' = No_Proc))"
    by code_simp
  have 2: "trace_ends (default_conf\<lparr>restart_pause := 1\<rparr>)
      [Start False, Run Success, Run Success, Run Success, Run Success, Run Success, Run Fail_Exec, Run Success,
       Stop_Flag, Stop_Check, Run Success, Run Success, Run Success, Run Success]
      (\<lambda>p. stop_by_user p \<and> stop_flagged p = 0 \<and> stop_checked p = 0 \<and> os_proc p = Alive)"
    by code_simp
  from trace_reach [OF 1] obtain p where "reach default_conf p" "\<not> is_running (state p)" "lock p = Free"
    "in_start p" "\<not> panicked p" "case acts default_conf [Run Success, Run Success] p of None \<Rightarrow> False
            | Some p' \<Rightarrow> runner p' = R_Idle \<and> os_proc p' = No_Proc" by blast
  moreover from this have "act default_conf (Start True) p = Some p" by (simp add: start_def)
  ultimately have "\<exists>p. reach default_conf p \<and> \<not> is_running (state p) \<and> act default_conf (Start True) p = Some p
      \<and> (\<exists>p'. acts default_conf [Run Success, Run Success] p = Some p' \<and> runner p' = R_Idle \<and> os_proc p' = No_Proc)"
    by (auto split: option.splits simp del: acts.simps act.simps)
  with trace_reach [OF 2] show ?thesis by blast
qed

end
