(* ===== verification/Js_Prelude.thy ===== *)
theory Js_Prelude
  imports Go_Prelude
begin

text \<open>
  What the theories about the JavaScript of the web interface share: results of calls that may
  throw, and the string methods. A JavaScript string is a \<^typ>\<open>string\<close>, one \<^typ>\<open>char\<close> per UTF-16
  unit, so the theories speak of texts whose units are below 256. Numbers that index strings are
  integers; \<open>undefined\<close> is \<^const>\<open>None\<close>. The collection \<open>js_str\<close> holds rules for the string methods.
\<close>

named_theorems js_str

section \<open>Results\<close>

datatype 'a js = Value 'a | Throw string

fun js_bind :: "'a js \<Rightarrow> ('a \<Rightarrow> 'b js) \<Rightarrow> 'b js" where
  "js_bind (Value a) f = f a"
| "js_bind (Throw e) f = Throw e"

lemma js_bind_Value_iff [simp]: "js_bind r f = Value b \<longleftrightarrow> (\<exists>a. r = Value a \<and> f a = Value b)"
  by (cases r) auto

lemma js_bind_Throw_iff: "js_bind r f = Throw e \<longleftrightarrow> r = Throw e \<or> (\<exists>a. r = Value a \<and> f a = Throw e)"
  by (cases r) auto

lemma js_bind_cong [fundef_cong]:
  "r = r' \<Longrightarrow> (\<And>a. r' = Value a \<Longrightarrow> f a = f' a) \<Longrightarrow> js_bind r f = js_bind r' f'"
  by (cases r') auto

section \<open>Strings\<close>

definition newline :: char where
  "newline = CHR 0x0A"

text \<open>White space of \<open>trim\<close> and of \<open>\s\<close> in regular expressions.\<close>

definition js_space :: "char \<Rightarrow> bool" where
  "js_space c \<longleftrightarrow> (let n = (of_char c :: nat) in (9 \<le> n \<and> n \<le> 13) \<or> n = 32 \<or> n = 160)"

text \<open>\<open>\w\<close> in regular expressions, and ASCII \<open>toLowerCase\<close>.\<close>

definition word_char :: "char \<Rightarrow> bool" where
  "word_char c \<longleftrightarrow> (CHR ''a'' \<le> c \<and> c \<le> CHR ''z'') \<or> (CHR ''A'' \<le> c \<and> c \<le> CHR ''Z'') \<or> (CHR ''0'' \<le> c \<and> c \<le> CHR ''9'') \<or> c = CHR ''_''"

definition js_lower :: "string \<Rightarrow> string" where
  "js_lower = map (\<lambda>c. if CHR ''A'' \<le> c \<and> c \<le> CHR ''Z'' then char_of (of_char c + 32 :: nat) else c)"

text \<open>\<open>s.trimEnd()\<close> and \<open>s.trim()\<close>.\<close>

definition js_trim_end :: "string \<Rightarrow> string" where
  "js_trim_end s = rev (dropWhile js_space (rev s))"

definition js_trim :: "string \<Rightarrow> string" where
  "js_trim s = js_trim_end (dropWhile js_space s)"

text \<open>\<open>s.slice(a, b)\<close>, of a string or an array, with indices counted from the end when negative.\<close>

definition js_index :: "'a list \<Rightarrow> int \<Rightarrow> nat" where
  "js_index s i = (if i < 0 then nat (int (length s) + i) else min (nat i) (length s))"

definition js_slice :: "'a list \<Rightarrow> int \<Rightarrow> int \<Rightarrow> 'a list" where
  "js_slice s a b = take (js_index s b - js_index s a) (drop (js_index s a) s)"

definition js_slice_from :: "'a list \<Rightarrow> int \<Rightarrow> 'a list" where
  "js_slice_from s a = drop (js_index s a) s"

text \<open>\<open>s.replace(/\S/g, "")\<close> and \<open>s.replace(/[^\n]+$/, "")\<close>.\<close>

definition only_spaces :: "string \<Rightarrow> string" where
  "only_spaces s = filter js_space s"

definition cut_last_line :: "string \<Rightarrow> string" where
  "cut_last_line s = rev (dropWhile (\<lambda>c. c \<noteq> newline) (rev s))"

text \<open>\<open>String(n)\<close> for an integer is \<^const>\<open>itoa\<close>; \<open>s.split("\n")\<close> is \<^term>\<open>split_on newline\<close>.\<close>

section \<open>Sets\<close>

text \<open>\<open>add\<close> of a \<open>Set\<close>, which keeps the order of insertion.\<close>

definition set_add :: "'a \<Rightarrow> 'a list \<Rightarrow> 'a list" where
  "set_add x xs = (if x \<in> set xs then xs else xs @ [x])"

section \<open>Lemmas\<close>

lemma set_set_add [simp]: "set (set_add x xs) = insert x (set xs)"
  by (auto simp: set_add_def)

lemma js_slice_nat [js_str]: "js_slice s (int a) (int b) = take (b - a) (drop a s)"
proof (cases "a \<le> length s")
  case True
  then show ?thesis by (simp add: js_slice_def js_index_def min_def)
qed (simp add: js_slice_def js_index_def)

lemma only_spaces_space: "c \<in> set (only_spaces s) \<Longrightarrow> js_space c"
  by (simp add: only_spaces_def)

lemma only_spaces_id: "list_all js_space s \<Longrightarrow> only_spaces s = s"
  by (simp add: only_spaces_def list_all_iff filter_id_conv)

lemma dropWhile_hd_id: "s = [] \<or> \<not> P (hd s) \<Longrightarrow> dropWhile P s = s"
  by (cases s) simp_all

lemma js_trim_id:
  assumes "s = [] \<or> \<not> js_space (hd s) \<and> \<not> js_space (last s)"
  shows "js_trim s = s"
  using assms by (auto simp: js_trim_def js_trim_end_def dropWhile_hd_id hd_rev)

lemma length_split_on: "length (split_on c s) = Suc (count_list s c)"
  by (induction s) (auto split: list.splits)

end
