(* ===== verification/Css_Input.thy ===== *)
theory Css_Input
  imports Js_Prelude
begin

text \<open>
  Positions in a style sheet, from the PostCSS part of \<open>webgui/tailwind.js\<close>: \<open>Input.fromOffset\<close>
  (a binary search in the cached offsets of the lines), the search for a position (\<open>Wr\<close>), and
  \<open>Node.positionInside\<close>, \<open>positionBy\<close> and \<open>rangeBy\<close>.
\<close>

section \<open>From an offset to a line and a column\<close>

record position =
  line :: int
  column :: int

text \<open>The input: its text and the cache \<open>this[va]\<close> of the offsets at which its lines start.\<close>

record input =
  css :: string
  cache :: "int list option"

definition new_input :: "string \<Rightarrow> input" where
  "new_input s = \<lparr>css = s, cache = None\<rparr>"

fun line_offsets :: "int \<Rightarrow> string list \<Rightarrow> int list" where
  "line_offsets a [] = []"
| "line_offsets a (l # ls) = a # line_offsets (a + int (length l) + 1) ls"

text \<open>The loop of the search: \<open>n\<close> and \<open>s\<close> are the bounds, \<open>a\<close> the middle.\<close>

function search :: "int list \<Rightarrow> int \<Rightarrow> int \<Rightarrow> int \<Rightarrow> int" where
  "search i e n s =
     (if n < s then
        (let a = n + (s - n) div 2
         in if e < i ! nat a then search i e n (a - 1)
            else if i ! nat (a + 1) \<le> e then search i e (a + 1) s
            else a)
      else n)"
  by pat_completeness auto
termination
  by (relation "measure (\<lambda>(i, e, n, s). nat (s - n))") (auto simp: Let_def)

declare search.simps [simp del]

definition offset_position :: "int list \<Rightarrow> int \<Rightarrow> position" where
  "offset_position i e =
     (let n = (if last i \<le> e then int (length i) - 1 else search i e 0 (int (length i) - 2))
      in \<lparr>line = n + 1, column = e - i ! nat n + 1\<rparr>)"

definition from_offset :: "int \<Rightarrow> input \<Rightarrow> position \<times> input" where
  "from_offset e inp =
     (case cache inp of
        Some i \<Rightarrow> (offset_position i e, inp)
      | None \<Rightarrow> (let i = line_offsets 0 (split_on newline (css inp))
                in (offset_position i e, inp\<lparr>cache := Some i\<rparr>)))"

section \<open>From a position to an offset\<close>

text \<open>
  \<open>Wr(r, e)\<close>: the loop keeps the line \<open>i\<close> and column \<open>t\<close> of offset \<open>s\<close>; a position that is not found
  gives 0. A position may carry its offset.
\<close>

fun find_position :: "string \<Rightarrow> int \<Rightarrow> int \<Rightarrow> int \<Rightarrow> position \<Rightarrow> int" where
  "find_position [] s i t e = 0"
| "find_position (c # cs) s i t e =
     (if i = line e \<and> t = column e then s
      else if c = newline then find_position cs (s + 1) (i + 1) 1 e
      else find_position cs (s + 1) i (t + 1) e)"

record mark = position +
  offset :: "int option"

definition position_offset :: "string \<Rightarrow> mark \<Rightarrow> int" where
  "position_offset r e =
     (case offset e of Some o' \<Rightarrow> o' | None \<Rightarrow> find_position r 0 1 1 (position.truncate e))"

section \<open>Positions inside a node\<close>

record source =
  src_input :: input
  src_start :: mark
  src_end :: "mark option"

text \<open>The loop of \<open>positionInside\<close> over the offsets from \<open>n\<close> to \<open>s\<close>; outside the text the
  comparison with a newline is false.\<close>

definition at :: "string \<Rightarrow> int \<Rightarrow> char option" where
  "at r a = (if 0 \<le> a \<and> a < int (length r) then Some (r ! nat a) else None)"

definition advance :: "string \<Rightarrow> int \<Rightarrow> position \<Rightarrow> position" where
  "advance r a p =
     (if at r a = Some newline then \<lparr>line = line p + 1, column = 1\<rparr>
      else \<lparr>line = line p, column = column p + 1\<rparr>)"

definition position_inside :: "source \<Rightarrow> int \<Rightarrow> position" where
  "position_inside src e =
     (let r = css (src_input src); n = position_offset r (src_start src)
      in fold (advance r) [n..n + e - 1] (position.truncate (src_start src)))"

text \<open>
  The text of the node that \<open>positionBy\<close> and \<open>rangeBy\<close> search for a word. \<open>Wr\<close> reads \<open>e.line\<close>
  for every character, so it throws when the node has no end and the text is not empty.
\<close>

definition node_text :: "source \<Rightarrow> string js" where
  "node_text src =
     (let r = css (src_input src)
      in case src_end src of
           None \<Rightarrow> if r = [] then Value [] else Throw ''TypeError''
         | Some e \<Rightarrow> Value (js_slice r (position_offset r (src_start src)) (position_offset r e)))"

text \<open>The options of \<open>rangeBy\<close> (and of \<open>positionBy\<close>, which reads \<open>index\<close> and \<open>word\<close> only).\<close>

record range_opts =
  ro_word :: "string option"
  ro_index :: "int option"
  ro_start :: "position option"
  ro_end :: "position option"
  ro_end_index :: "int option"

text \<open>A number or a string in a condition: 0 and the empty string count as false.\<close>

definition truthy_int :: "int option \<Rightarrow> int option" where
  "truthy_int i = (if i = Some 0 then None else i)"

definition truthy_str :: "string option \<Rightarrow> string option" where
  "truthy_str s = (if s = Some [] then None else s)"

definition position_by :: "source \<Rightarrow> range_opts \<Rightarrow> position js" where
  "position_by src e =
     (case truthy_int (ro_index e) of
        Some i \<Rightarrow> Value (position_inside src i)
      | None \<Rightarrow>
          (case truthy_str (ro_word e) of
             None \<Rightarrow> Value (position.truncate (src_start src))
           | Some w \<Rightarrow>
               js_bind (node_text src)
                 (\<lambda>t. Value (case str_index t w of
                      None \<Rightarrow> position.truncate (src_start src)
                    | Some n \<Rightarrow> position_inside src (int n)))))"

definition before_or_at :: "position \<Rightarrow> position \<Rightarrow> bool" where
  "before_or_at i t \<longleftrightarrow> line i < line t \<or> line i = line t \<and> column i \<le> column t"

definition range_by :: "source \<Rightarrow> range_opts \<Rightarrow> (position \<times> position) js" where
  "range_by src e =
     (let t0 = position.truncate (src_start src);
          i0 = (case src_end src of
                  Some m \<Rightarrow> \<lparr>line = line m, column = column m + 1\<rparr>
                | None \<Rightarrow> \<lparr>line = line t0, column = column t0 + 1\<rparr>)
      in js_bind
           (case truthy_str (ro_word e) of
              Some w \<Rightarrow>
                js_bind (node_text src)
                  (\<lambda>txt. Value (case str_index txt w of
                       None \<Rightarrow> (t0, i0)
                     | Some s \<Rightarrow> (position_inside src (int s), position_inside src (int s + int (length w)))))
            | None \<Rightarrow>
                Value
                  (case ro_start e of Some p \<Rightarrow> p
                   | None \<Rightarrow> (case truthy_int (ro_index e) of Some i \<Rightarrow> position_inside src i | None \<Rightarrow> t0),
                   case ro_end e of Some p \<Rightarrow> p
                   | None \<Rightarrow> (case ro_end_index e of Some i \<Rightarrow> position_inside src i
                             | None \<Rightarrow> (case truthy_int (ro_index e) of
                                          Some i \<Rightarrow> position_inside src (i + 1) | None \<Rightarrow> i0))))
           (\<lambda>(t, i). Value (t, if before_or_at i t then \<lparr>line = line t, column = column t + 1\<rparr> else i)))"

section \<open>The reference: counting lines and columns\<close>

text \<open>The position of an offset, found by walking over the text from its start.\<close>

definition scan :: "string \<Rightarrow> nat \<Rightarrow> position" where
  "scan r e = fold (advance r) (map int [0..<e]) \<lparr>line = 1, column = 1\<rparr>"

lemma scan_0 [simp]: "scan r 0 = \<lparr>line = 1, column = 1\<rparr>"
  by (simp add: scan_def)

lemma scan_Suc [simp]: "scan r (Suc e) = advance r (int e) (scan r e)"
  by (simp add: scan_def)

lemma at_nat [simp]: "at r (int a) = (if a < length r then Some (r ! a) else None)"
  by (simp add: at_def)

lemma upto_nat: "[int a..int a + int b - 1] = map int [a..<a + b]"
proof (induction b)
  case (Suc b)
  have "[int a..int a + int (Suc b) - 1] = [int a..int a + int b - 1] @ [int a + int b]"
    using upto_rec2 [of "int a" "int a + int b"] by simp
  then show ?case using Suc by simp
qed simp

lemma fold_scan: "fold (advance r) (map int [a..<a + b]) (scan r a) = scan r (a + b)"
  by (induction b) simp_all

text \<open>The offsets at which the lines start.\<close>

fun starts :: "int \<Rightarrow> string \<Rightarrow> int list" where
  "starts a [] = []"
| "starts a (c # cs) = (if c = newline then a # starts (a + 1) cs else starts (a + 1) cs)"

lemma line_offsets_starts: "line_offsets a (split_on newline s) = a # starts (a + 1) s"
proof (induction s arbitrary: a)
  case (Cons c cs)
  obtain w ws where "split_on newline cs = w # ws" by (cases "split_on newline cs") auto
  then show ?case using Cons [of "a + 1"] by (auto simp: algebra_simps)
qed simp

lemma set_starts: "x \<in> set (starts a s) \<longleftrightarrow> (\<exists>k<length s. x = a + int k \<and> s ! k = newline)"
proof (induction s arbitrary: a)
  case (Cons c cs)
  show ?case
    by (auto simp: Cons less_Suc_eq_0_disj)
qed simp

lemma sorted_starts: "sorted_wrt (<) (starts a s)"
  by (induction s arbitrary: a) (auto simp: set_starts)

definition offsets :: "string \<Rightarrow> int list" where
  "offsets s = line_offsets 0 (split_on newline s)"

lemma offsets_props:
  "sorted_wrt (<) (offsets s)" "offsets s \<noteq> []" "offsets s ! 0 = 0"
  "x \<in> set (offsets s) \<longleftrightarrow> x = 0 \<or> at s (x - 1) = Some newline"
  unfolding offsets_def line_offsets_starts
  using sorted_starts [of 1 s]
  by (auto simp: set_starts at_def split: if_splits intro: exI [of _ "nat (x - 1)"])

lemma filter_sorted_step:
  assumes "sorted_wrt (<) (xs :: int list)"
  shows "filter (\<lambda>x. x \<le> e + 1) xs = filter (\<lambda>x. x \<le> e) xs @ (if e + 1 \<in> set xs then [e + 1] else [])"
  using assms
proof (induction xs)
  case (Cons x xs)
  have e: "filter (\<lambda>x. x \<le> e) xs = []" "filter (\<lambda>x. x \<le> e + 1) xs = []" "e + 1 \<notin> set xs" if "e < x"
    using Cons.prems that by (auto simp: filter_empty_conv)
  show ?case using Cons e by (cases "x \<le> e") auto
qed simp

lemma scan_filter:
  "scan s e = (let l = filter (\<lambda>x. x \<le> int e) (offsets s) in \<lparr>line = int (length l), column = int e - last l + 1\<rparr>)
    \<and> filter (\<lambda>x. x \<le> int e) (offsets s) \<noteq> []"
proof (induction e)
  case 0
  have "filter (\<lambda>x. x \<le> 0) (offsets s) = [0]"
    using offsets_props(1,2,3) [of s] by (cases "offsets s") (auto simp: filter_empty_conv)
  then show ?case by simp
next
  case (Suc e)
  have "filter (\<lambda>x. x \<le> int (Suc e)) (offsets s)
      = filter (\<lambda>x. x \<le> int e) (offsets s) @ (if at s (int e) = Some newline then [int e + 1] else [])"
    using filter_sorted_step [OF offsets_props(1), of "int e" s] offsets_props(4) [of "int e + 1" s]
    by (simp add: add.commute)
  then show ?case using Suc by (auto simp: Let_def advance_def)
qed

section \<open>The binary search finds the line\<close>

lemma search_finds:
  "0 \<le> n \<Longrightarrow> n \<le> s \<Longrightarrow> i ! nat n \<le> e \<Longrightarrow> e < i ! nat (s + 1) \<Longrightarrow>
   (let r = search i e n s in n \<le> r \<and> r \<le> s \<and> i ! nat r \<le> e \<and> e < i ! nat (r + 1))"
proof (induction i e n s rule: search.induct)
  case (1 i e n s)
  show ?case
  proof (cases "n < s")
    case True
    define a where "a = n + (s - n) div 2"
    have a: "n \<le> a" "a < s" using True by (auto simp: a_def)
    consider "e < i ! nat a" | "\<not> e < i ! nat a" "i ! nat (a + 1) \<le> e"
      | "\<not> e < i ! nat a" "\<not> i ! nat (a + 1) \<le> e" by blast
    then show ?thesis
    proof cases
      case 1
      moreover from this have "n \<noteq> a" using "1.prems" by auto
      ultimately show ?thesis
        using "1.IH"(1) [OF True a_def] "1.prems" a True
        by (subst search.simps) (auto simp: a_def [symmetric] Let_def)
    next
      case 2
      then show ?thesis
        using "1.IH"(2) [OF True a_def] "1.prems" a True
        by (subst search.simps) (auto simp: a_def [symmetric] Let_def)
    next
      case 3
      then show ?thesis
        using "1.prems" a True by (subst search.simps) (auto simp: a_def [symmetric] Let_def)
    qed
  qed (use "1.prems" in \<open>subst search.simps, auto\<close>)
qed

lemma sorted_filter_take:
  assumes "sorted_wrt (<) (i :: int list)" "n < length i" "i ! n \<le> e" "n + 1 < length i \<Longrightarrow> e < i ! (n + 1)"
  shows "filter (\<lambda>x. x \<le> e) i = take (Suc n) i"
proof -
  have le: "i ! k \<le> i ! m" if "k \<le> m" "m < length i" for k m
    using sorted_wrt_nth_less [OF assms(1)] that by (cases "k = m") (auto simp: less_imp_le)
  have "x \<le> e" if "x \<in> set (take (Suc n) i)" for x
  proof -
    obtain k where "k \<le> n" "x = i ! k" using \<open>x \<in> set (take (Suc n) i)\<close> by (auto simp: in_set_conv_nth less_Suc_eq_le)
    then show ?thesis using le [of k n] assms(2,3) by auto
  qed
  moreover have "\<not> x \<le> e" if "x \<in> set (drop (Suc n) i)" for x
  proof -
    obtain k where "k < length (drop (Suc n) i)" "x = drop (Suc n) i ! k"
      using \<open>x \<in> set (drop (Suc n) i)\<close> by (metis in_set_conv_nth)
    then show ?thesis using le [of "n + 1" "Suc n + k"] assms(4) by (auto simp: less_diff_conv)
  qed
  ultimately have "filter (\<lambda>x. x \<le> e) (take (Suc n) i @ drop (Suc n) i) = take (Suc n) i"
    unfolding filter_append by (simp add: filter_id_conv filter_empty_conv)
  then show ?thesis by simp
qed

lemma offset_position_scan: "offset_position (offsets s) (int e) = scan s e"
proof -
  let ?i = "offsets s"
  let ?n = "if last ?i \<le> int e then int (length ?i) - 1 else search ?i (int e) 0 (int (length ?i) - 2)"
  have i: "?i \<noteq> []" "?i ! 0 = 0" "sorted_wrt (<) ?i" by (rule offsets_props)+
  have n: "0 \<le> ?n \<and> ?n < int (length ?i) \<and> ?i ! nat ?n \<le> int e
      \<and> (?n + 1 < int (length ?i) \<longrightarrow> int e < ?i ! nat (?n + 1))"
  proof (cases "last ?i \<le> int e")
    case True
    then show ?thesis using i by (cases ?i) (auto simp: last_conv_nth nat_diff_distrib')
  next
    case False
    then have "length ?i \<noteq> 1" using i by (cases ?i) auto
    then have l: "2 \<le> length ?i" using i by (cases ?i) (auto simp: neq_Nil_conv)
    then have "?i ! nat (int (length ?i) - 2 + 1) = last ?i" using i by (simp add: last_conv_nth nat_diff_distrib')
    then show ?thesis
      using search_finds [of 0 "int (length ?i) - 2" ?i "int e"] False l i by (auto simp: Let_def)
  qed
  then have "filter (\<lambda>x. x \<le> int e) ?i = take (Suc (nat ?n)) ?i"
    by (intro sorted_filter_take [OF i(3)]) (auto simp: nat_less_iff nat_add_distrib)
  moreover have "last (take (Suc (nat ?n)) ?i) = ?i ! nat ?n"
    using n by (simp add: take_Suc_conv_app_nth nat_less_iff)
  moreover have "int (length (take (Suc (nat ?n)) ?i)) = ?n + 1" using n by auto
  ultimately show ?thesis using scan_filter [of s e] by (simp add: Let_def offset_position_def)
qed

section \<open>The cache\<close>

definition cache_ok :: "input \<Rightarrow> bool" where
  "cache_ok inp \<longleftrightarrow> cache inp = None \<or> cache inp = Some (offsets (css inp))"

lemma cache_ok_new [simp]: "cache_ok (new_input s)"
  by (simp add: cache_ok_def new_input_def)

lemma css_new [simp]: "css (new_input s) = s"
  by (simp add: new_input_def)

lemma from_offset_scan:
  assumes "cache_ok inp"
  shows "fst (from_offset (int e) inp) = scan (css inp) e"
    and "css (snd (from_offset d inp)) = css inp" and "cache_ok (snd (from_offset d inp))"
  using assms offset_position_scan [of "css inp" e]
  by (auto simp: from_offset_def cache_ok_def offsets_def Let_def split: option.splits)

text \<open>Any number of earlier queries.\<close>

fun queries :: "int list \<Rightarrow> input \<Rightarrow> input" where
  "queries [] inp = inp"
| "queries (d # ds) inp = queries ds (snd (from_offset d inp))"

lemma queries_ok: "cache_ok inp \<Longrightarrow> cache_ok (queries ds inp) \<and> css (queries ds inp) = css inp"
  by (induction ds arbitrary: inp) (simp_all add: from_offset_scan)

text \<open>
  C9. Looking a line up by binary search in the cached line offsets gives the position that
  counting newlines from the start of the text gives, for every offset (also past the end) and
  whatever was asked before.
\<close>

theorem from_offset_counts_lines:
  "fst (from_offset (int e) (queries ds (new_input s))) = scan s e"
  using from_offset_scan(1) [of "queries ds (new_input s)"] queries_ok [of "new_input s" ds] by simp

section \<open>Offsets and positions\<close>

definition before :: "position \<Rightarrow> position \<Rightarrow> bool" where
  "before p q \<longleftrightarrow> line p < line q \<or> line p = line q \<and> column p < column q"

lemma before_trans: "before p q \<Longrightarrow> before q r \<Longrightarrow> before p r"
  by (auto simp: before_def)

lemma before_irrefl [simp]: "\<not> before p p"
  by (simp add: before_def)

lemma not_before_or_at: "\<not> before_or_at i t \<longleftrightarrow> before t i"
  by (auto simp: before_def before_or_at_def)

lemma before_advance: "before p (advance r a p)"
  by (simp add: before_def advance_def)

lemma scan_mono: "a < b \<Longrightarrow> before (scan r a) (scan r b)"
proof (induction b)
  case (Suc b)
  then show ?case using before_advance before_trans by (cases "a = b") force+
qed simp

lemma scan_inj: "scan r a = scan r b \<longleftrightarrow> a = b"
  by (metis before_irrefl linorder_neqE_nat scan_mono)

lemma find_position_scan:
  "find_position (drop k r) (int k) (line (scan r k)) (column (scan r k)) (scan r e)
     = (if k \<le> e \<and> e < length r then int e else 0)"
proof (induction "length r - k" arbitrary: k)
  case (Suc n)
  then have k: "k < length r" by simp
  note d = Cons_nth_drop_Suc [OF k, symmetric]
  have s: "line (scan r k) = line (scan r e) \<and> column (scan r k) = column (scan r e) \<longleftrightarrow> k = e"
    using scan_inj [of r k e] by (metis position.equality old.unit.exhaust)
  have "find_position (drop (Suc k) r) (int (Suc k)) (line (scan r (Suc k))) (column (scan r (Suc k))) (scan r e)
     = (if Suc k \<le> e \<and> e < length r then int e else 0)"
    using Suc.hyps(1) [of "Suc k"] Suc.hyps(2) by (simp del: scan_Suc)
  moreover have "scan r (Suc k) = (if r ! k = newline then \<lparr>line = line (scan r k) + 1, column = 1\<rparr>
      else \<lparr>line = line (scan r k), column = column (scan r k) + 1\<rparr>)"
    using k by (simp add: advance_def)
  ultimately have "find_position (drop k r) (int k) (line (scan r k)) (column (scan r k)) (scan r e)
     = (if k = e then int k else if Suc k \<le> e \<and> e < length r then int e else 0)"
    unfolding d using s by (auto simp: add.commute split: if_splits)
  then show ?case using k by auto
qed simp

definition plain_mark :: "position \<Rightarrow> mark" where
  "plain_mark p = \<lparr>line = line p, column = column p, offset = None\<rparr>"

lemma truncate_plain_mark [simp]: "position.truncate (plain_mark p) = p"
  by (simp add: plain_mark_def position.truncate_def)

lemma offset_plain_mark [simp]: "offset (plain_mark p) = None"
  by (simp add: plain_mark_def)

lemma position_offset_scan: "position_offset r (plain_mark (scan r e)) = (if e < length r then int e else 0)"
  using find_position_scan [of 0 r e] by (simp add: position_offset_def)

text \<open>
  The search for the offset of a position inverts the search for the position of an offset,
  for every offset of a character; the position after the last character is not found and gives
  offset 0.
\<close>

theorem position_offset_from_offset:
  "position_offset s (plain_mark (fst (from_offset (int e) (new_input s)))) = (if e < length s then int e else 0)"
  using from_offset_scan(1) [of "new_input s" e] by (simp add: position_offset_scan)

text \<open>A source whose start is the position of offset \<open>o\<close> of its text, as the parser sets it.\<close>

definition starts_at :: "source \<Rightarrow> nat \<Rightarrow> bool" where
  "starts_at src k \<longleftrightarrow>
     position.truncate (src_start src) = scan (css (src_input src)) k
     \<and> position_offset (css (src_input src)) (src_start src) = int k"

lemma position_inside_scan:
  assumes "starts_at src k" shows "position_inside src (int n) = scan (css (src_input src)) (k + n)"
  using assms fold_scan [of "css (src_input src)" k n] upto_nat [of k n]
  by (simp add: position_inside_def starts_at_def Let_def)

text \<open>
  The position \<open>positionInside(n)\<close>, computed by walking from the start of the node, is the
  one that \<open>fromOffset\<close> computes for the offset of the node plus \<open>n\<close>.
\<close>

theorem position_inside_from_offset:
  assumes "starts_at src k" and "cache_ok (src_input src)"
  shows "position_inside src (int n) = fst (from_offset (int (k + n)) (src_input src))"
  using position_inside_scan [OF assms(1)] from_offset_scan(1) [OF assms(2), of "k + n"] by simp

section \<open>Ranges\<close>

lemma fit_before: "before t (if before_or_at i t then \<lparr>line = line t, column = column t + 1\<rparr> else i)"
  by (auto simp: not_before_or_at) (simp add: before_def)

text \<open>
  Whatever the options (a word, indices, explicit positions, in any order, negative or past
  the end), the range ends after it starts: it is never empty and never backwards.
\<close>

lemma range_not_empty:
  assumes "range_by src e = Value (a, b)"
  shows "before a b"
  using assms fit_before by (auto simp: range_by_def Let_def)

text \<open>
  The range of a word that occurs in the text of the node is its first occurrence: from the
  position of the offset at which it starts to the position of the offset after its last
  character.
\<close>

theorem range_of_word:
  assumes "starts_at src k" and "cache_ok (src_input src)"
    and "ro_word e = Some w" and "w \<noteq> []"
    and "node_text src = Value t" and "str_index t w = Some n"
  shows "range_by src e = Value (fst (from_offset (int (k + n)) (src_input src)),
                                 fst (from_offset (int (k + n + length w)) (src_input src)))"
proof -
  let ?r = "css (src_input src)"
  have "before (scan ?r (k + n)) (scan ?r (k + (n + length w)))" using assms(4) by (simp add: scan_mono)
  then show ?thesis
    unfolding from_offset_scan(1) [OF assms(2)]
    using assms position_inside_scan [OF assms(1), of n] position_inside_scan [OF assms(1), of "n + length w"]
    by (simp add: range_by_def truthy_str_def not_before_or_at [symmetric] add.assoc)
qed

text \<open>
  The range between two indices, the first not 0 and before the second, is the range between
  the positions of the two offsets.
\<close>

lemma range_of_indices:
  assumes "starts_at src k" and "cache_ok (src_input src)"
    and "ro_word e = None" and "ro_start e = None" and "ro_end e = None"
    and "ro_index e = Some (int i)" and "ro_end_index e = Some (int j)" and "0 < i" and "i < j"
  shows "range_by src e = Value (fst (from_offset (int (k + i)) (src_input src)),
                                 fst (from_offset (int (k + j)) (src_input src)))"
proof -
  have "before (scan (css (src_input src)) (k + i)) (scan (css (src_input src)) (k + j))"
    using assms(9) by (simp add: scan_mono)
  then show ?thesis
    unfolding from_offset_scan(1) [OF assms(2)]
    using assms position_inside_scan [OF assms(1)]
    by (simp add: range_by_def truthy_str_def truthy_int_def not_before_or_at [symmetric])
qed

section \<open>Positions lie in the text\<close>

lemma split_on_snoc:
  "split_on c (xs @ [x]) = (if x = c then split_on c xs @ [[]] else butlast (split_on c xs) @ [last (split_on c xs) @ [x]])"
proof (induction xs)
  case (Cons y xs)
  obtain w ws where "split_on c xs = w # ws" by (cases "split_on c xs") auto
  then show ?case using Cons by auto
qed simp

lemma split_on_append_nth:
  "split_on c (xs @ ys) ! (length (split_on c xs) - 1) = last (split_on c xs) @ hd (split_on c ys)
   \<and> length (split_on c xs) \<le> length (split_on c (xs @ ys))"
proof (induction xs)
  case Nil
  have "0 < length (split_on c ys)" by simp
  then show ?case by (cases "split_on c ys") auto
next
  case (Cons x xs)
  obtain w ws where w: "split_on c xs = w # ws" by (cases "split_on c xs") auto
  obtain v vs where "split_on c (xs @ ys) = v # vs" by (cases "split_on c (xs @ ys)") auto
  then show ?case using Cons w by (auto simp: nth_Cons' split: if_splits)
qed

lemma scan_split:
  "e \<le> length s \<Longrightarrow>
   scan s e = \<lparr>line = int (length (split_on newline (take e s))), column = int (length (last (split_on newline (take e s)))) + 1\<rparr>"
proof (induction e)
  case (Suc e)
  then have "take (Suc e) s = take e s @ [s ! e]" by (simp add: take_Suc_conv_app_nth)
  then show ?case using Suc by (auto simp: advance_def split_on_snoc)
qed simp

text \<open>
  C35. The position of an offset in a text is a position of that text: the line is one of its lines and
  the column one of that line's, the one after its last character included.
\<close>

theorem from_offset_in_text:
  assumes "e \<le> length s"
  shows "(let p = fst (from_offset (int e) (new_input s)); ls = split_on newline s
          in 1 \<le> line p \<and> line p \<le> int (length ls) \<and> 1 \<le> column p \<and> column p \<le> int (length (ls ! nat (line p - 1))) + 1)"
proof -
  have "take e s @ drop e s = s" by simp
  then have "split_on newline s ! (length (split_on newline (take e s)) - 1)
      = last (split_on newline (take e s)) @ hd (split_on newline (drop e s))
    \<and> length (split_on newline (take e s)) \<le> length (split_on newline s)"
    using split_on_append_nth [of newline "take e s" "drop e s"] by simp
  moreover have "0 < length (split_on newline (take e s))" by simp
  ultimately show ?thesis
    using from_offset_scan(1) [of "new_input s" e] scan_split [OF assms] by (simp add: Let_def Suc_leI nat_diff_distrib)
qed

lemma from_offset_in_text_witness:
  "(let p = fst (from_offset 4 (new_input [newline, CHR ''a'', newline, CHR ''b''])); ls = split_on newline [newline, CHR ''a'', newline, CHR ''b'']
    in 1 \<le> line p \<and> line p \<le> int (length ls) \<and> 1 \<le> column p \<and> column p \<le> int (length (ls ! nat (line p - 1))) + 1)"
  using from_offset_in_text [of 4 "[newline, CHR ''a'', newline, CHR ''b'']"] by simp

section \<open>Examples\<close>

text \<open>The declaration \<open>b:c\<close> of a rule on two lines: it starts at offset 4 and ends, inclusively, at 6.\<close>

definition sample :: input where
  "sample = new_input (''a {'' @ [newline] @ ''b:c}'')"

definition sample_source :: source where
  "sample_source = \<lparr>src_input = sample, src_start = \<lparr>line = 2, column = 1, offset = Some 4\<rparr>,
                    src_end = Some \<lparr>line = 2, column = 3, offset = Some 6\<rparr>\<rparr>"

definition word_opts :: "string option \<Rightarrow> int option \<Rightarrow> int option \<Rightarrow> range_opts" where
  "word_opts w i j = \<lparr>ro_word = w, ro_index = i, ro_start = None, ro_end = None, ro_end_index = j\<rparr>"

lemmas sample_simps = sample_def sample_source_def word_opts_def new_input_def newline_def

lemma sample_starts: "starts_at sample_source 4"
  by (simp add: starts_at_def position_offset_def position.truncate_def sample_simps numeral_eq_Suc advance_def at_def)

lemma sample_cache [simp]: "cache_ok (src_input sample_source)"
  by (simp add: sample_source_def sample_def)

lemma position_inside_from_offset_witness:
  "position_inside sample_source 2 = fst (from_offset 6 (src_input sample_source))"
  using position_inside_from_offset [OF sample_starts sample_cache, of 2] by simp

lemma range_not_empty_witness:
  "before (fst (case range_by sample_source (word_opts None (Some 2) (Some 1)) of Value v \<Rightarrow> v))
          (snd (case range_by sample_source (word_opts None (Some 2) (Some 1)) of Value v \<Rightarrow> v))"
proof -
  obtain a b where "range_by sample_source (word_opts None (Some 2) (Some 1)) = Value (a, b)"
    by (auto simp: range_by_def word_opts_def truthy_int_def truthy_str_def Let_def)
  then show ?thesis using range_not_empty by fastforce
qed

lemma range_of_word_witness:
  "range_by sample_source (word_opts (Some '':'') None None)
     = Value (fst (from_offset 5 (src_input sample_source)), fst (from_offset 6 (src_input sample_source)))"
  using range_of_word [OF sample_starts sample_cache, of "word_opts (Some '':'') None None" "'':''" "''b:''" 1]
  by (simp add: word_opts_def node_text_def sample_simps js_slice_def js_index_def position_offset_def numeral_eq_Suc)

lemma range_of_indices_witness:
  "range_by sample_source (word_opts None (Some 1) (Some 3))
     = Value (fst (from_offset 5 (src_input sample_source)), fst (from_offset 7 (src_input sample_source)))"
  using range_of_indices [OF sample_starts sample_cache, of "word_opts None (Some 1) (Some 3)" 1 3]
  by (simp add: word_opts_def)

text \<open>The text that is searched stops before the last character of the node: its end is inclusive.\<close>

lemma last_word_missed:
  "range_by sample_source (word_opts (Some ''c'') None None) = Value (\<lparr>line = 2, column = 1\<rparr>, \<lparr>line = 2, column = 4\<rparr>)"
  by (simp add: range_by_def node_text_def truthy_str_def js_slice_def js_index_def position_offset_def
      position.truncate_def before_or_at_def sample_simps numeral_eq_Suc)

text \<open>An index of 0 counts as no index: the range covers the whole node instead of its first character.\<close>

lemma index_zero_covers_node:
  "range_by sample_source (word_opts None (Some 0) None) = Value (\<lparr>line = 2, column = 1\<rparr>, \<lparr>line = 2, column = 4\<rparr>)"
  by (simp add: range_by_def truthy_str_def truthy_int_def position.truncate_def before_or_at_def sample_simps)

end
