(* ===== verification/Css_Error.thy ===== *)
theory Css_Error
  imports Css_Input
begin

text \<open>
  \<open>CssSyntaxError\<close> of the PostCSS part of \<open>webgui/tailwind.js\<close>: its message and the excerpt of the
  source that \<open>toString\<close> shows. The module of colours that the page is built with has neither
  \<open>isColorSupported\<close> nor \<open>createColors\<close>, so the excerpt is plain, and asking for colours throws.
\<close>

section \<open>The error\<close>

text \<open>Where the error is: the constructor takes two numbers or two positions, or nothing.\<close>

datatype place = Nowhere | Point int int | Span position position

record syntax_error =
  reason :: string
  err_place :: place
  err_source :: "string option"
  err_file :: "string option"
  err_plugin :: "string option"

definition css_syntax_error :: "string \<Rightarrow> place \<Rightarrow> string option \<Rightarrow> string option \<Rightarrow> string option \<Rightarrow> syntax_error" where
  "css_syntax_error e p n s a =
     \<lparr>reason = e, err_place = p, err_source = truthy_str n, err_file = truthy_str s, err_plugin = truthy_str a\<rparr>"

definition err_line :: "syntax_error \<Rightarrow> int option" where
  "err_line r = (case err_place r of Nowhere \<Rightarrow> None | Point l c \<Rightarrow> Some l | Span p q \<Rightarrow> Some (line p))"

definition err_column :: "syntax_error \<Rightarrow> int" where
  "err_column r = (case err_place r of Nowhere \<Rightarrow> 0 | Point l c \<Rightarrow> c | Span p q \<Rightarrow> column p)"

definition end_column :: "syntax_error \<Rightarrow> int option" where
  "end_column r = (case err_place r of Span p q \<Rightarrow> Some (column q) | _ \<Rightarrow> None)"

definition error_message :: "syntax_error \<Rightarrow> string" where
  "error_message r =
     (case err_plugin r of Some p \<Rightarrow> p @ '': '' | None \<Rightarrow> [])
     @ (case err_file r of Some f \<Rightarrow> f | None \<Rightarrow> ''<css input>'')
     @ (case err_line r of Some l \<Rightarrow> '':'' @ itoa l @ '':'' @ itoa (err_column r) | None \<Rightarrow> [])
     @ '': '' @ reason r"

section \<open>The excerpt\<close>

text \<open>\<open>split(/\r?\n/)\<close>.\<close>

definition drop_cr :: "string \<Rightarrow> string" where
  "drop_cr l = (if l \<noteq> [] \<and> last l = CHR 0x0D then butlast l else l)"

definition css_lines :: "string \<Rightarrow> string list" where
  "css_lines t = (let ls = split_on newline t in map drop_cr (butlast ls) @ [last ls])"

text \<open>\<open>replace(/\d/g, " ")\<close> and \<open>replace(/[^\t]/g, " ")\<close>.\<close>

definition blank_digits :: "string \<Rightarrow> string" where
  "blank_digits = map (\<lambda>c. if CHR ''0'' \<le> c \<and> c \<le> CHR ''9'' then CHR '' '' else c)"

definition blank_text :: "string \<Rightarrow> string" where
  "blank_text = map (\<lambda>c. if c = CHR 0x09 then c else CHR '' '')"

text \<open>The gutter of line \<open>p\<close>, with a number of at most \<open>c\<close> characters.\<close>

definition gutter :: "int \<Rightarrow> int \<Rightarrow> string" where
  "gutter c p = '' '' @ js_slice_from ('' '' @ itoa p) (- c) @ '' | ''"

text \<open>
  One line of the excerpt. The end of the part of a long line that is shown is \<open>NaN\<close> when the error has
  no end, and \<open>slice\<close> takes that for 0.
\<close>

definition excerpt_line :: "syntax_error \<Rightarrow> int \<Rightarrow> int \<Rightarrow> string \<Rightarrow> string" where
  "excerpt_line r c p f =
     (let h = gutter c p; col = err_column r
      in if err_line r = Some p then
           (if length f > 160 then
              let y = max 0 (col - 20);
                  w = (case end_column r of Some e \<Rightarrow> max (col + 20) (e + 20) | None \<Rightarrow> 0)
              in ''>'' @ h @ js_slice f y w @ [newline] @ '' ''
                 @ blank_digits h @ blank_text (js_slice f 0 (min (col - 1) 19)) @ ''^''
            else ''>'' @ h @ f @ [newline] @ '' '' @ blank_digits h @ blank_text (js_slice f 0 (col - 1)) @ ''^'')
         else '' '' @ h @ f)"

definition show_source_code :: "bool option \<Rightarrow> syntax_error \<Rightarrow> string js" where
  "show_source_code e r =
     (case err_source r of
        None \<Rightarrow> Value []
      | Some t \<Rightarrow>
          if e = Some True then Throw ''TypeError''
          else (case err_line r of
             None \<Rightarrow> Value []
           | Some ln \<Rightarrow>
               let a = css_lines t;
                   o' = max (ln - 3) 0;
                   l = min (ln + 2) (int (length a));
                   c = int (length (itoa l))
               in Value (join [newline]
                    (map (\<lambda>(d, f). excerpt_line r c (o' + 1 + int d) f) (enumerate 0 (js_slice a o' l))))))"

definition error_string :: "syntax_error \<Rightarrow> string js" where
  "error_string r =
     js_bind (show_source_code None r)
       (\<lambda>e. Value (''CssSyntaxError'' @ '': '' @ error_message r
                   @ (if e = [] then [] else [newline, newline] @ e @ [newline])))"

section \<open>The gutter\<close>

lemma digits_mono: "m \<le> n \<Longrightarrow> length (digits m) \<le> length (digits n)"
proof (induction n arbitrary: m rule: less_induct)
  case (less n)
  show ?case
  proof (cases "m < 10")
    case True
    then have "digits m = [char_of (48 + m)]" by (subst digits.simps) simp
    moreover have "0 < length (digits n)" by simp
    ultimately show ?thesis by (simp add: Suc_leI)
  next
    case False
    have "digits k = digits (k div 10) @ [char_of (48 + k mod 10)]" if "\<not> k < 10" for k
      using that by (subst digits.simps) simp
    then have "length (digits m) = Suc (length (digits (m div 10)))" "length (digits n) = Suc (length (digits (n div 10)))"
      using False less.prems by simp_all
    then show ?thesis using less.IH [of "n div 10" "m div 10"] False less.prems by (simp add: div_le_mono)
  qed
qed

lemma digits_ten: "0 < m \<Longrightarrow> length (digits (10 * m)) = Suc (length (digits m))"
  by (subst digits.simps) simp

lemma itoa_near:
  assumes "0 < p" and "0 \<le> l" and "l \<le> p + 4"
  shows "length (itoa l) \<le> Suc (length (itoa p))"
proof -
  have "length (digits (nat l)) \<le> length (digits (10 * nat p))" using assms by (intro digits_mono) arith
  then show ?thesis using assms digits_ten [of "nat p"] by (simp add: itoa_def)
qed

lemma gutter_eq:
  assumes "0 < p" and "0 \<le> l" and "l \<le> p + 4"
  shows "\<exists>n. gutter (int (length (itoa l))) p = CHR '' '' # n @ '' | '' \<and> length n = length (itoa l)"
proof -
  let ?x = "'' '' @ itoa p"
  have "length (itoa l) \<le> length ?x" using itoa_near [OF assms] by simp
  moreover have "0 < length (itoa l)" by (simp add: itoa_def)
  ultimately have "length (js_slice_from ?x (- int (length (itoa l)))) = length (itoa l)"
    by (simp add: js_slice_from_def js_index_def)
  then show ?thesis by (auto simp: gutter_def)
qed

section \<open>The rows\<close>

lemma marked_row:
  "hd (excerpt_line r c p f) = (if err_line r = Some p then CHR ''>'' else CHR '' '')"
  by (simp add: excerpt_line_def Let_def)

lemma row_gutter: "\<exists>z. excerpt_line r c p f = z # gutter c p @ drop (Suc (length (gutter c p))) (excerpt_line r c p f)"
  by (simp add: excerpt_line_def Let_def)

lemma row_bar:
  assumes "0 < p" and "0 \<le> l" and "l \<le> p + 4"
  shows "take 3 (drop (length (itoa l) + 2) (excerpt_line r (int (length (itoa l))) p f)) = '' | ''"
proof -
  obtain n where n: "gutter (int (length (itoa l))) p = CHR '' '' # n @ '' | ''" "length n = length (itoa l)"
    using gutter_eq [OF assms] by auto
  obtain z y where "excerpt_line r (int (length (itoa l))) p f = z # gutter (int (length (itoa l))) p @ y"
    using row_gutter by blast
  then show ?thesis using n by simp
qed

definition excerpt_rows :: "syntax_error \<Rightarrow> string \<Rightarrow> int \<Rightarrow> string list" where
  "excerpt_rows r t ln =
     (let a = css_lines t; o' = max (ln - 3) 0; l = min (ln + 2) (int (length a)); c = int (length (itoa l))
      in map (\<lambda>(d, f). excerpt_line r c (o' + 1 + int d) f) (enumerate 0 (js_slice a o' l)))"

lemma show_rows:
  "err_source r = Some t \<Longrightarrow> err_line r = Some ln \<Longrightarrow>
   show_source_code None r = Value (join [newline] (excerpt_rows r t ln))"
  by (simp add: show_source_code_def excerpt_rows_def Let_def)

lemma css_lines_ne [simp]: "css_lines t \<noteq> []"
  by (simp add: css_lines_def Let_def)

lemma excerpt_rows_nth:
  assumes "1 \<le> ln" and "ln \<le> int (length (css_lines t))"
  shows "int (length (excerpt_rows r t ln)) = min (ln + 2) (int (length (css_lines t))) - max (ln - 3) 0"
    and "d < length (excerpt_rows r t ln) \<Longrightarrow>
         excerpt_rows r t ln ! d
           = excerpt_line r (int (length (itoa (min (ln + 2) (int (length (css_lines t))))))) (max (ln - 3) 0 + 1 + int d)
               (css_lines t ! (nat (ln - 3) + d))"
proof -
  define a where "a = css_lines t"
  obtain b l where o: "max (ln - 3) 0 = int b" "nat (ln - 3) = b" "min (ln + 2) (int (length a)) = int l"
    using that [of "nat (ln - 3)" "nat (min (ln + 2) (int (length a)))"] assms unfolding a_def by simp
  have s: "js_slice a (int b) (int l) = take (l - b) (drop b a)" by (rule js_slice_nat)
  have r: "excerpt_rows r t ln
      = map (\<lambda>(d, f). excerpt_line r (int (length (itoa (int l)))) (int b + 1 + int d) f) (enumerate 0 (take (l - b) (drop b a)))"
    unfolding excerpt_rows_def Let_def a_def [symmetric] o(1,3) s ..
  have "l \<le> length a" "b \<le> l" using assms o unfolding a_def by linarith+
  then show "int (length (excerpt_rows r t ln)) = min (ln + 2) (int (length (css_lines t))) - max (ln - 3) 0"
    and "d < length (excerpt_rows r t ln) \<Longrightarrow>
         excerpt_rows r t ln ! d
           = excerpt_line r (int (length (itoa (min (ln + 2) (int (length (css_lines t))))))) (max (ln - 3) 0 + 1 + int d)
               (css_lines t ! (nat (ln - 3) + d))"
    unfolding r a_def [symmetric] o by (simp_all add: nth_enumerate_eq)
qed

text \<open>
  The excerpt of an error in a line of the source has at most five rows, exactly one of them is
  marked, and it is the row of the line of the error.
\<close>

theorem excerpt_marks_the_line:
  assumes "err_source r = Some t" and "err_line r = Some ln" and "1 \<le> ln" and "ln \<le> int (length (css_lines t))"
  shows "\<exists>rows. show_source_code None r = Value (join [newline] rows) \<and> length rows \<le> 5
     \<and> {d. d < length rows \<and> hd (rows ! d) = CHR ''>''} = {nat (min (ln - 1) 2)}"
proof (intro exI conjI)
  note n = excerpt_rows_nth [OF assms(3,4), where r = r]
  let ?rows = "excerpt_rows r t ln"
  show "show_source_code None r = Value (join [newline] ?rows)" by (rule show_rows [OF assms(1,2)])
  show "length ?rows \<le> 5" using n(1) assms by linarith
  have "hd (?rows ! d) = CHR ''>'' \<longleftrightarrow> int d = min (ln - 1) 2" if "d < length ?rows" for d
    using n(2) [OF that] assms(2,3) by (auto simp: marked_row)
  moreover have "nat (min (ln - 1) 2) < length ?rows" using n(1) assms by linarith
  moreover have "int (nat (min (ln - 1) 2)) = min (ln - 1) 2" using assms by simp
  ultimately show "{d. d < length ?rows \<and> hd (?rows ! d) = CHR ''>''} = {nat (min (ln - 1) 2)}"
    by (auto simp flip: int_nat_eq)
qed

text \<open>
  The bars between line numbers and text stand below each other: they begin at the same column
  of every row, also where the number of digits changes.
\<close>

lemma excerpt_bars_aligned:
  assumes "err_source r = Some t" and "err_line r = Some ln" and "1 \<le> ln" and "ln \<le> int (length (css_lines t))"
  shows "\<exists>rows w. show_source_code None r = Value (join [newline] rows)
           \<and> (\<lambda>row. take 3 (drop w row)) ` set rows = {'' | ''}"
proof (intro exI conjI)
  note n = excerpt_rows_nth [OF assms(3,4), where r = r]
  let ?l = "min (ln + 2) (int (length (css_lines t)))"
  show "show_source_code None r = Value (join [newline] (excerpt_rows r t ln))" by (rule show_rows [OF assms(1,2)])
  have "take 3 (drop (length (itoa ?l) + 2) row) = '' | ''" if row: "row \<in> set (excerpt_rows r t ln)" for row
  proof -
    obtain d where d: "d < length (excerpt_rows r t ln)" "row = excerpt_rows r t ln ! d"
      using row by (metis in_set_conv_nth)
    show ?thesis unfolding d(2) n(2) [OF d(1)] by (rule row_bar) (use assms in auto)
  qed
  moreover have "excerpt_rows r t ln \<noteq> []" using n(1) assms by force
  ultimately show "(\<lambda>row. take 3 (drop (length (itoa ?l) + 2) row)) ` set (excerpt_rows r t ln) = {'' | ''}"
    by (simp cong: image_cong add: image_constant_conv)
qed

text \<open>
  Below the marked line, unless it is long, a caret points at the column of the error: the caret is
  the last character of its row, and the character above it is the one at that column.
\<close>

theorem caret_points_at_column:
  assumes "err_line r = Some p" and "length f \<le> 160" and "1 \<le> err_column r" and "err_column r \<le> int (length f)"
  shows "\<exists>top bottom. excerpt_line r c p f = top @ newline # bottom \<and> last bottom = CHR ''^''
     \<and> drop (length top - length f) top = f
     \<and> int (length bottom) = int (length top - length f) + err_column r"
proof -
  let ?top = "''>'' @ gutter c p @ f"
  let ?b = "'' '' @ blank_digits (gutter c p) @ blank_text (js_slice f 0 (err_column r - 1)) @ ''^''"
  have "err_column r - 1 = int (nat (err_column r - 1))" using assms by simp
  then have "js_slice f 0 (err_column r - 1) = take (nat (err_column r - 1)) f"
    using js_slice_nat [of f 0 "nat (err_column r - 1)"] by simp
  then have "int (length ?b) = int (length ?top - length f) + err_column r"
    using assms by (simp add: blank_digits_def blank_text_def)
  moreover have "excerpt_line r c p f = ?top @ newline # ?b" using assms by (simp add: excerpt_line_def Let_def)
  moreover have "last ?b = CHR ''^''" "drop (length ?top - length f) ?top = f" by simp_all
  ultimately show ?thesis by blast
qed

lemma js_slice_empty: "js_slice f y 0 = []"
  by (simp add: js_slice_def js_index_def)

text \<open>The text of a long line is not shown when the error has a position but no end.\<close>

lemma long_line_not_shown:
  assumes "length f > 160" and "err_place r = Point p col" and "col \<le> 19"
  shows "excerpt_line r c p f
     = ''>'' @ gutter c p @ [newline] @ '' '' @ blank_digits (gutter c p) @ blank_text (js_slice f 0 (col - 1)) @ ''^''"
  using assms by (simp add: excerpt_line_def err_line_def err_column_def end_column_def js_slice_empty Let_def)

section \<open>Examples\<close>

definition sample_text :: string where
  "sample_text = ''a {'' @ [newline] @ ''b}''"

definition sample_error :: syntax_error where
  "sample_error = css_syntax_error ''Unknown word''
     (Span \<lparr>line = 2, column = 1\<rparr> \<lparr>line = 2, column = 2\<rparr>) (Some sample_text) None None"

lemma sample_error_fields:
  "err_source sample_error = Some sample_text" "err_line sample_error = Some 2" "err_column sample_error = 1"
  "css_lines sample_text = [''a {'', ''b}'']"
  by (simp_all add: sample_error_def sample_text_def css_syntax_error_def truthy_str_def err_line_def err_column_def
      css_lines_def newline_def drop_cr_def Let_def)

lemma excerpt_marks_the_line_witness:
  "\<exists>rows. show_source_code None sample_error = Value (join [newline] rows) \<and> length rows \<le> 5
     \<and> {d. d < length rows \<and> hd (rows ! d) = CHR ''>''} = {1}"
  using excerpt_marks_the_line [OF sample_error_fields(1,2)] by (simp add: sample_error_fields)

lemma excerpt_bars_aligned_witness:
  "\<exists>rows w. show_source_code None sample_error = Value (join [newline] rows)
     \<and> (\<lambda>row. take 3 (drop w row)) ` set rows = {'' | ''}"
  using excerpt_bars_aligned [OF sample_error_fields(1,2)] by (simp add: sample_error_fields)

lemma caret_points_at_column_witness:
  "\<exists>top bottom. excerpt_line sample_error 1 2 ''b}'' = top @ newline # bottom \<and> last bottom = CHR ''^''
     \<and> drop (length top - length ''b}'') top = ''b}'' \<and> int (length bottom) = int (length top - length ''b}'') + 1"
  using caret_points_at_column [of sample_error 2 "''b}''" 1] by (simp add: sample_error_fields)

end
