(* ===== verification/Css_List.thy ===== *)
theory Css_List
  imports Js_Prelude
begin

text \<open>
  Lists in CSS texts, from the PostCSS part of \<open>webgui/tailwind.js\<close>: \<open>list.split\<close>, \<open>space\<close> and
  \<open>comma\<close>, which split a text outside strings and parentheses, and the property \<open>selectors\<close> of a
  rule, which reads and writes the selector through them.
\<close>

section \<open>Splitting\<close>

text \<open>The variables of the loop: \<open>a\<close>, the open parentheses; \<open>o\<close> and \<open>l\<close>, the open quote; \<open>c\<close>, after a backslash.\<close>

record scanner =
  depth :: nat
  quote :: "char option"
  escaped :: bool

definition outside :: scanner where
  "outside = \<lparr>depth = 0, quote = None, escaped = False\<rparr>"

text \<open>One character: the new state, and whether to split here.\<close>

definition scan_char :: "char list \<Rightarrow> char \<Rightarrow> scanner \<Rightarrow> scanner \<times> bool" where
  "scan_char e f st =
     (if escaped st then (st\<lparr>escaped := False\<rparr>, False)
      else if f = CHR 0x5C then (st\<lparr>escaped := True\<rparr>, False)
      else case quote st of
        Some l \<Rightarrow> (if f = l then st\<lparr>quote := None\<rparr> else st, False)
      | None \<Rightarrow>
          (if f = CHR 0x22 \<or> f = CHR 0x27 then (st\<lparr>quote := Some f\<rparr>, False)
           else if f = CHR ''('' then (st\<lparr>depth := depth st + 1\<rparr>, False)
           else if f = CHR '')'' then (st\<lparr>depth := depth st - 1\<rparr>, False)
           else (st, depth st = 0 \<and> f \<in> set e)))"

text \<open>The loop over the text: \<open>n\<close> is the current piece; \<open>t\<close> asks for the last piece even when it is empty.\<close>

fun split_from :: "char list \<Rightarrow> bool \<Rightarrow> scanner \<Rightarrow> string \<Rightarrow> string \<Rightarrow> string list" where
  "split_from e t st n [] = (if t \<or> n \<noteq> [] then [js_trim n] else [])"
| "split_from e t st n (f # fs) =
     (let (st', s) = scan_char e f st
      in if s then (if n \<noteq> [] then js_trim n # split_from e t st' [] fs else split_from e t st' [] fs)
         else split_from e t st' (n @ [f]) fs)"

definition list_split :: "string \<Rightarrow> char list \<Rightarrow> bool \<Rightarrow> string list" where
  "list_split r e t = split_from e t outside [] r"

definition list_comma :: "string \<Rightarrow> string list" where
  "list_comma r = list_split r [CHR '',''] True"

definition list_space :: "string \<Rightarrow> string list" where
  "list_space r = list_split r [CHR '' '', newline, CHR 0x09] False"

section \<open>The selectors of a rule\<close>

text \<open>\<open>match(/,\s*/)\<close>: the first comma and the white space after it.\<close>

definition first_comma :: "string \<Rightarrow> string option" where
  "first_comma s =
     (case dropWhile (\<lambda>c. c \<noteq> CHR '','') s of [] \<Rightarrow> None | c # cs \<Rightarrow> Some (c # takeWhile js_space cs))"

definition get_selectors :: "string \<Rightarrow> string list" where
  "get_selectors selector = list_comma selector"

text \<open>The setter; \<open>between\<close> is the raw text before the brace.\<close>

definition set_selectors :: "string \<Rightarrow> string \<Rightarrow> string list \<Rightarrow> string" where
  "set_selectors between selector e =
     (let i = (case first_comma selector of Some t \<Rightarrow> t | None \<Rightarrow> CHR '','' # between) in join i e)"

section \<open>Splitting inverts joining\<close>

text \<open>A piece that the scanner leaves as it entered it, without a split.\<close>

fun closed_from :: "char list \<Rightarrow> scanner \<Rightarrow> string \<Rightarrow> bool" where
  "closed_from e st [] \<longleftrightarrow> st = outside"
| "closed_from e st (f # fs) \<longleftrightarrow> \<not> snd (scan_char e f st) \<and> closed_from e (fst (scan_char e f st)) fs"

definition piece :: "char list \<Rightarrow> string \<Rightarrow> bool" where
  "piece e w \<longleftrightarrow> w \<noteq> [] \<and> closed_from e outside w \<and> \<not> js_space (hd w) \<and> \<not> js_space (last w)"

lemma split_from_closed:
  "closed_from e st w \<Longrightarrow> split_from e t st n (w @ r) = split_from e t outside (n @ w) r"
  by (induction w arbitrary: st n) (simp_all add: split_def Let_def)

lemma split_from_spaces:
  assumes "list_all js_space g" and "set g \<inter> set e = {}"
  shows "split_from e t outside n (g @ r) = split_from e t outside (n @ g) r"
proof (rule split_from_closed)
  have plain: "scan_char e c outside = (outside, False)" if "js_space c" "c \<notin> set e" for c
    using that by (auto simp: scan_char_def outside_def js_space_def)
  show "closed_from e outside g" using assms by (induction g) (simp_all add: plain)
qed

lemma js_trim_spaces:
  assumes "list_all js_space g" and "piece e w"
  shows "js_trim (g @ w) = w"
proof -
  have "dropWhile js_space (g @ w) = w"
    using assms by (subst dropWhile_append2) (auto simp: list_all_iff piece_def dropWhile_hd_id)
  then show ?thesis using assms(2) by (simp add: js_trim_def js_trim_end_def piece_def dropWhile_hd_id hd_rev)
qed

lemma split_from_join:
  assumes "list_all (piece [CHR '','']) (w # ws)" and "list_all js_space g" and "list_all js_space n"
  shows "split_from [CHR '',''] True outside n (join (CHR '','' # g) (w # ws)) = w # ws"
  using assms(1,3)
proof (induction ws arbitrary: w n)
  case Nil
  then show ?case
    using split_from_closed [of "[CHR '','']" outside w True n "[]"] js_trim_spaces [of n] by (simp add: piece_def)
next
  case (Cons v ws)
  have c: "scan_char [CHR '',''] (CHR '','') outside = (outside, True)" by (simp add: scan_char_def outside_def)
  have s: "CHR '','' \<notin> set g" using assms(2) by (auto simp: list_all_iff js_space_def)
  have "split_from [CHR '',''] True outside n (join (CHR '','' # g) (w # v # ws))
      = split_from [CHR '',''] True outside (n @ w) (CHR '','' # g @ join (CHR '','' # g) (v # ws))"
    using Cons.prems(1) split_from_closed [of "[CHR '','']" outside w] by (simp add: piece_def)
  also have "\<dots> = js_trim (n @ w) # split_from [CHR '',''] True outside [] (g @ join (CHR '','' # g) (v # ws))"
    using Cons.prems(1) by (simp add: c piece_def)
  also have "split_from [CHR '',''] True outside [] (g @ join (CHR '','' # g) (v # ws)) = v # ws"
    using split_from_spaces [OF assms(2)] s Cons.IH [of v g] Cons.prems assms(2) by simp
  also have "js_trim (n @ w) = w"
    using Cons.prems by (intro js_trim_spaces [of n "[CHR '','']"]) simp_all
  finally show ?case .
qed

lemma first_comma_Some: "first_comma s = Some t \<Longrightarrow> \<exists>g. t = CHR '','' # g \<and> list_all js_space g"
proof -
  assume a: "first_comma s = Some t"
  then obtain c cs where d: "dropWhile (\<lambda>c. c \<noteq> CHR '','') s = c # cs" "t = c # takeWhile js_space cs"
    by (auto simp: first_comma_def split: list.splits)
  moreover have "c = CHR '',''" using hd_dropWhile [of "\<lambda>c. c \<noteq> CHR '',''" s] d(1) by simp
  ultimately show ?thesis by (auto simp: list_all_iff dest: set_takeWhileD)
qed

text \<open>
  Reading the selectors of a rule gives back the ones that were written, whatever the old selector
  was: the pieces may hold commas inside strings, parentheses and after backslashes. They must not be
  empty or begin or end with white space, and a selector without a comma needs only white space before
  the brace.
\<close>

theorem selectors_roundtrip:
  assumes "list_all (piece [CHR '','']) (w # ws)" and "list_all js_space between"
  shows "get_selectors (set_selectors between selector (w # ws)) = w # ws"
proof -
  obtain g where g: "set_selectors between selector (w # ws) = join (CHR '','' # g) (w # ws)" "list_all js_space g"
  proof (cases "first_comma selector")
    case None
    then show thesis using that [of between] assms(2) by (simp add: set_selectors_def)
  next
    case (Some t)
    then obtain g where "t = CHR '','' # g" "list_all js_space g" using first_comma_Some by blast
    then show thesis using that [of g] Some by (simp add: set_selectors_def)
  qed
  show ?thesis
    unfolding get_selectors_def list_comma_def list_split_def g(1)
    by (rule split_from_join [OF assms(1) g(2)]) simp
qed

lemma selectors_roundtrip_witness:
  "get_selectors (set_selectors '' '' ''a,b'' [''a:is(b,c)'', ''d[e='' @ [CHR 0x22] @ '','' @ [CHR 0x22] @ '']''])
     = [''a:is(b,c)'', ''d[e='' @ [CHR 0x22] @ '','' @ [CHR 0x22] @ '']'']"
  by (rule selectors_roundtrip) (simp_all add: piece_def js_space_def scan_char_def outside_def)

text \<open>A comment before the brace becomes part of the selectors that are written.\<close>

lemma comment_between_leaks:
  "get_selectors (set_selectors '' /* x */ '' ''a'' [''a'', ''b'']) = [''a'', ''/* x */ b'']"
  by code_simp

end
