(* ===== verification/Css_Stringifier.thy ===== *)
theory Css_Stringifier
  imports Js_Prelude
begin

text \<open>
  The stringifier of the PostCSS part of \<open>webgui/tailwind.js\<close> (\<open>pc\<close> and the class \<open>on\<close>): it prints a
  style sheet. Whatever was recorded about a node when it was parsed (\<open>raws\<close>) is printed as it was;
  what is missing is guessed from the other nodes of the sheet, and the guesses are kept in a cache
  (\<open>rawCache\<close>) of the root.
\<close>

section \<open>Style sheets\<close>

text \<open>The properties of \<open>raws\<close>; the raw form of a value comes with the value that it stands for.\<close>

record raws =
  r_before :: "string option"
  r_between :: "string option"
  r_after :: "string option"
  r_after_name :: "string option"
  r_left :: "string option"
  r_right :: "string option"
  r_important :: "string option"
  r_own_semicolon :: "string option"
  r_semicolon :: "bool option"
  r_indent :: "string option"
  r_value :: "(string \<times> string) option"

definition no_raws :: raws where
  "no_raws = \<lparr>r_before = None, r_between = None, r_after = None, r_after_name = None, r_left = None, r_right = None,
     r_important = None, r_own_semicolon = None, r_semicolon = None, r_indent = None, r_value = None\<rparr>"

datatype node =
    Rule raws string "node list"
  | At_Rule raws string string "node list option"
  | Decl raws string string bool
  | Comment raws string

record sheet =
  root_raws :: raws
  root_nodes :: "node list"

fun raws_of :: "node \<Rightarrow> raws" where
  "raws_of (Rule r s ns) = r"
| "raws_of (At_Rule r n p ns) = r"
| "raws_of (Decl r p v i) = r"
| "raws_of (Comment r t) = r"

fun nodes_of :: "node \<Rightarrow> node list option" where
  "nodes_of (Rule r s ns) = Some ns"
| "nodes_of (At_Rule r n p ns) = ns"
| "nodes_of n = None"

fun is_decl :: "node \<Rightarrow> bool" where
  "is_decl (Decl r p v i) = True"
| "is_decl n = False"

fun is_comment :: "node \<Rightarrow> bool" where
  "is_comment (Comment r t) = True"
| "is_comment n = False"

section \<open>Guesses\<close>

text \<open>\<open>walk\<close> visits the nodes in document order. An entry is the number of ancestors below the root,
  whether the node is the first of the root, and the node.\<close>

fun walk_node :: "nat \<Rightarrow> bool \<Rightarrow> node \<Rightarrow> (nat \<times> bool \<times> node) list" where
  "walk_node d f (Rule r s ns) = (d, f, Rule r s ns) # concat (map (walk_node (Suc d) False) ns)"
| "walk_node d f (At_Rule r n p None) = [(d, f, At_Rule r n p None)]"
| "walk_node d f (At_Rule r n p (Some ns)) = (d, f, At_Rule r n p (Some ns)) # concat (map (walk_node (Suc d) False) ns)"
| "walk_node d f (Decl r p v i) = [(d, f, Decl r p v i)]"
| "walk_node d f (Comment r t) = [(d, f, Comment r t)]"

definition walk :: "sheet \<Rightarrow> (nat \<times> bool \<times> node) list" where
  "walk sh = (case root_nodes sh of [] \<Rightarrow> [] | n # ns \<Rightarrow> walk_node 0 True n @ concat (map (walk_node 0 False) ns))"

text \<open>The first defined value among the nodes that a test selects.\<close>

fun first_some :: "('a \<Rightarrow> 'b option) \<Rightarrow> 'a list \<Rightarrow> 'b option" where
  "first_some f [] = None"
| "first_some f (x # xs) = (case f x of Some y \<Rightarrow> Some y | None \<Rightarrow> first_some f xs)"

text \<open>\<open>t.includes("\n") && (t = t.replace(/[^\n]+$/, ""))\<close>, and then only the white space.\<close>

definition to_newline :: "string \<Rightarrow> string" where
  "to_newline s = only_spaces (if newline \<in> set s then cut_last_line s else s)"

datatype key = Before_Decl | Before_Comment | Before_Rule | Before_Close | Indent | Before_Open | Colon | Empty_Body
  | Comment_Left | Comment_Right | Semicolon

text \<open>The defaults \<open>pc\<close>; a semicolon that is wanted is the text \<open>;\<close> here, one that is not the empty text.\<close>

fun default_raw :: "key \<Rightarrow> string" where
  "default_raw Before_Open = '' ''"
| "default_raw Colon = '': ''"
| "default_raw Comment_Left = '' ''"
| "default_raw Comment_Right = '' ''"
| "default_raw Empty_Body = []"
| "default_raw Indent = ''    ''"
| "default_raw Semicolon = []"
| "default_raw k = [newline]"

definition has_nodes :: "node \<Rightarrow> bool" where
  "has_nodes n \<longleftrightarrow> (case nodes_of n of Some (x # xs) \<Rightarrow> True | _ \<Rightarrow> False)"

definition guard :: "bool \<Rightarrow> 'a option \<Rightarrow> 'a option" where
  "guard b x = (if b then x else None)"

text \<open>The searches \<open>rawBeforeDecl\<close> to \<open>rawSemicolon\<close>, and the plain search for the sides of comments.\<close>

fun search_raw :: "key \<Rightarrow> sheet \<Rightarrow> string option" where
  "search_raw Before_Decl sh =
     map_option to_newline (first_some (\<lambda>(d, f, n). guard (is_decl n) (r_before (raws_of n))) (walk sh))"
| "search_raw Before_Comment sh =
     map_option to_newline (first_some (\<lambda>(d, f, n). guard (is_comment n) (r_before (raws_of n))) (walk sh))"
| "search_raw Before_Rule sh =
     map_option to_newline
       (first_some (\<lambda>(d, f, n). guard (nodes_of n \<noteq> None \<and> \<not> f) (r_before (raws_of n))) (walk sh))"
| "search_raw Before_Close sh =
     map_option to_newline (first_some (\<lambda>(d, f, n). guard (has_nodes n) (r_after (raws_of n))) (walk sh))"
| "search_raw Indent sh =
     (case r_indent (root_raws sh) of
        Some (c # cs) \<Rightarrow> Some (c # cs)
      | _ \<Rightarrow> map_option (\<lambda>b. only_spaces (last (split_on newline b)))
               (first_some (\<lambda>(d, f, n). guard (d = 1) (r_before (raws_of n))) (walk sh)))"
| "search_raw Before_Open sh = first_some (\<lambda>(d, f, n). guard (\<not> is_decl n) (r_between (raws_of n))) (walk sh)"
| "search_raw Colon sh =
     map_option (filter (\<lambda>c. js_space c \<or> c = CHR '':''))
       (first_some (\<lambda>(d, f, n). guard (is_decl n) (r_between (raws_of n))) (walk sh))"
| "search_raw Empty_Body sh = first_some (\<lambda>(d, f, n). guard (nodes_of n = Some []) (r_after (raws_of n))) (walk sh)"
| "search_raw Comment_Left sh = first_some (\<lambda>(d, f, n). r_left (raws_of n)) (walk sh)"
| "search_raw Comment_Right sh = first_some (\<lambda>(d, f, n). r_right (raws_of n)) (walk sh)"
| "search_raw Semicolon sh =
     map_option (\<lambda>b. if b then '';'' else [])
       (first_some (\<lambda>(d, f, n). guard (has_nodes n \<and> is_decl (last (the (nodes_of n)))) (r_semicolon (raws_of n))) (walk sh))"

text \<open>
  \<open>raw(e, null, i)\<close> for a node with a parent: the cache first, then the search, then the default,
  and the answer goes into the cache. Where no declaration has a \<open>before\<close>, the search asks for that of
  rules, and where no comment has one, for that of declarations.
\<close>

type_synonym cache = "key \<Rightarrow> string option"

definition cached :: "key \<Rightarrow> (cache \<Rightarrow> string \<times> cache) \<Rightarrow> cache \<Rightarrow> string \<times> cache" where
  "cached k f c = (case c k of Some v \<Rightarrow> (v, c) | None \<Rightarrow> (let (v, c') = f c in (v, c'(k \<mapsto> v))))"

fun or_default :: "key \<Rightarrow> string option \<Rightarrow> string" where
  "or_default k (Some v) = v"
| "or_default k None = default_raw k"

definition plain_raw :: "key \<Rightarrow> sheet \<Rightarrow> cache \<Rightarrow> string \<times> cache" where
  "plain_raw k sh = cached k (\<lambda>c. (or_default k (search_raw k sh), c))"

definition raw_before_decl :: "sheet \<Rightarrow> cache \<Rightarrow> string \<times> cache" where
  "raw_before_decl sh = cached Before_Decl
     (\<lambda>c. case search_raw Before_Decl sh of Some v \<Rightarrow> (v, c) | None \<Rightarrow> plain_raw Before_Rule sh c)"

definition raw_before_comment :: "sheet \<Rightarrow> cache \<Rightarrow> string \<times> cache" where
  "raw_before_comment sh = cached Before_Comment
     (\<lambda>c. case search_raw Before_Comment sh of Some v \<Rightarrow> (v, c) | None \<Rightarrow> raw_before_decl sh c)"

fun raw_key :: "key \<Rightarrow> sheet \<Rightarrow> cache \<Rightarrow> string \<times> cache" where
  "raw_key Before_Decl sh c = raw_before_decl sh c"
| "raw_key Before_Comment sh c = raw_before_comment sh c"
| "raw_key k sh c = plain_raw k sh c"

text \<open>\<open>raw(e, t, i)\<close> for the other keys: the own value first.\<close>

definition raw :: "string option \<Rightarrow> key \<Rightarrow> sheet \<Rightarrow> cache \<Rightarrow> string \<times> cache" where
  "raw own k sh c = (case own of Some v \<Rightarrow> (v, c) | None \<Rightarrow> raw_key k sh c)"

section \<open>Before and after a node\<close>

text \<open>\<open>beforeAfter\<close>, for the key \<open>k\<close> of what is before or after the node at depth \<open>d\<close>.\<close>

definition before_after :: "key \<Rightarrow> nat \<Rightarrow> sheet \<Rightarrow> cache \<Rightarrow> string \<times> cache" where
  "before_after k d sh c =
     (let (i, c1) = raw_key k sh c
      in if newline \<in> set i then (let (a, c2) = raw_key Indent sh c1 in (i @ concat (replicate d a), c2))
         else (i, c1))"

definition before_key :: "node \<Rightarrow> key" where
  "before_key n = (if is_decl n then Before_Decl else if is_comment n then Before_Comment else Before_Rule)"

text \<open>\<open>raw(e, "before")\<close>; \<open>f\<close> says that the node is the first of the root.\<close>

definition raw_before :: "bool \<Rightarrow> nat \<Rightarrow> node \<Rightarrow> sheet \<Rightarrow> cache \<Rightarrow> string \<times> cache" where
  "raw_before f d n sh c =
     (case r_before (raws_of n) of
        Some v \<Rightarrow> (v, c)
      | None \<Rightarrow> if f then ([], c) else before_after (before_key n) d sh c)"

text \<open>\<open>raw(e, "after")\<close> of a block with nodes.\<close>

definition raw_after :: "raws \<Rightarrow> nat \<Rightarrow> sheet \<Rightarrow> cache \<Rightarrow> string \<times> cache" where
  "raw_after r d sh c = (case r_after r of Some v \<Rightarrow> (v, c) | None \<Rightarrow> before_after Before_Close d sh c)"

section \<open>Printing\<close>

definition raw_value :: "raws \<Rightarrow> string \<Rightarrow> string" where
  "raw_value r v = (case r_value r of Some (v', w) \<Rightarrow> if v' = v then w else v | None \<Rightarrow> v)"

text \<open>The index of the last node that is not a comment (0 when there is none).\<close>

definition last_printed :: "node list \<Rightarrow> nat" where
  "last_printed ns = length (dropWhile is_comment (rev ns)) - 1"

text \<open>Texts for the builder: \<open>x && builder(x)\<close>.\<close>

definition emit :: "string \<Rightarrow> string list" where
  "emit x = (if x = [] then [] else [x])"

definition own_semicolon :: "bool option \<Rightarrow> string option" where
  "own_semicolon b = map_option (\<lambda>b. if b then '';'' else []) b"

fun str_node :: "sheet \<Rightarrow> nat \<Rightarrow> bool \<Rightarrow> node \<Rightarrow> cache \<Rightarrow> string list \<times> cache"
and str_block :: "sheet \<Rightarrow> nat \<Rightarrow> raws \<Rightarrow> string \<Rightarrow> node list \<Rightarrow> cache \<Rightarrow> string list \<times> cache"
and str_nodes :: "sheet \<Rightarrow> nat \<Rightarrow> bool \<Rightarrow> nat \<Rightarrow> nat \<Rightarrow> bool \<Rightarrow> node list \<Rightarrow> cache \<Rightarrow> string list \<times> cache" where
  "str_node sh d t (Comment r x) c =
     (let (a, c1) = raw (r_left r) Comment_Left sh c; (b, c2) = raw (r_right r) Comment_Right sh c1
      in ([''/*'' @ a @ x @ b @ ''*/''], c2))"
| "str_node sh d t (Decl r p v i) c =
     (let (b, c1) = raw (r_between r) Colon sh c
      in ([p @ b @ raw_value r v
           @ (if i then (case r_important r of Some (x # xs) \<Rightarrow> x # xs | _ \<Rightarrow> '' !important'') else [])
           @ (if t then '';'' else [])], c1))"
| "str_node sh d t (Rule r s ns) c =
     (let (out, c1) = str_block sh d r (raw_value r s) ns c
      in (out @ (case r_own_semicolon r of Some x \<Rightarrow> emit x | None \<Rightarrow> []), c1))"
| "str_node sh d t (At_Rule r n p ns) c =
     (let params = (if p = [] then [] else raw_value r p);
          name = ''@'' @ n @ (case r_after_name r of Some x \<Rightarrow> x | None \<Rightarrow> if params = [] then [] else '' '')
      in case ns of
           Some ms \<Rightarrow> str_block sh d r (name @ params) ms c
         | None \<Rightarrow> ([name @ params @ (case r_between r of Some x \<Rightarrow> x | None \<Rightarrow> []) @ (if t then '';'' else [])], c))"
| "str_block sh d r start ns c =
     (let (b, c1) = raw (r_between r) Before_Open sh c;
          (body, c2) =
            (if ns = [] then ([], c1)
             else (let (semi, c') = raw (own_semicolon (r_semicolon r)) Semicolon sh c1
                   in str_nodes sh (Suc d) False 0 (last_printed ns) (semi \<noteq> []) ns c'));
          (a, c3) = (if ns = [] then raw (r_after r) Empty_Body sh c2 else raw_after r d sh c2)
      in ((start @ b @ ''{'') # body @ emit a @ [''}''], c3))"
| "str_nodes sh d rt n t semi [] c = ([], c)"
| "str_nodes sh d rt n t semi (x # xs) c =
     (let (b, c1) = raw_before (rt \<and> n = 0) d x sh c;
          (out, c2) = str_node sh d (t \<noteq> n \<or> semi) x c1;
          (rest, c3) = str_nodes sh d rt (Suc n) t semi xs c2
      in (emit b @ out @ rest, c3))"

definition stringify :: "sheet \<Rightarrow> cache \<Rightarrow> string list \<times> cache" where
  "stringify sh c =
     (let (out, c1) = str_nodes sh 0 True 0 (last_printed (root_nodes sh)) (r_semicolon (root_raws sh) = Some True) (root_nodes sh) c
      in (out @ (case r_after (root_raws sh) of Some x \<Rightarrow> emit x | None \<Rightarrow> []), c1))"

section \<open>Guesses without a cache\<close>

definition look :: "key \<Rightarrow> sheet \<Rightarrow> string" where
  "look k sh = fst (raw_key k sh Map.empty)"

definition cache_good :: "sheet \<Rightarrow> cache \<Rightarrow> bool" where
  "cache_good sh c \<longleftrightarrow> (\<forall>k v. c k = Some v \<longrightarrow> v = look k sh)"

lemma cache_good_empty [simp]: "cache_good sh Map.empty"
  by (simp add: cache_good_def)

lemma cache_good_put: "cache_good sh c \<Longrightarrow> cache_good sh (c(k \<mapsto> look k sh))"
  by (simp add: cache_good_def)

lemma cached_good:
  assumes "cache_good sh c" and "\<And>c. cache_good sh c \<Longrightarrow> fst (f c) = look k sh \<and> cache_good sh (snd (f c))"
  shows "fst (cached k f c) = look k sh \<and> cache_good sh (snd (cached k f c))"
proof (cases "c k")
  case None
  then show ?thesis using assms(2) [OF assms(1)] cache_good_put [of sh "snd (f c)" k] by (simp add: cached_def split_def Let_def)
next
  case (Some v)
  then show ?thesis using assms(1) by (simp add: cached_def cache_good_def)
qed

lemma look_simps:
  "look Before_Decl sh = (case search_raw Before_Decl sh of Some v \<Rightarrow> v | None \<Rightarrow> look Before_Rule sh)"
  "look Before_Comment sh = (case search_raw Before_Comment sh of Some v \<Rightarrow> v | None \<Rightarrow> look Before_Decl sh)"
  "k \<noteq> Before_Decl \<Longrightarrow> k \<noteq> Before_Comment \<Longrightarrow> look k sh = or_default k (search_raw k sh)"
  by (auto simp: look_def raw_before_decl_def raw_before_comment_def plain_raw_def cached_def Let_def split_def
      split: option.split) (cases k; simp add: plain_raw_def cached_def)

lemma plain_raw_good:
  assumes "cache_good sh c" and "k \<noteq> Before_Decl" and "k \<noteq> Before_Comment"
  shows "fst (plain_raw k sh c) = look k sh \<and> cache_good sh (snd (plain_raw k sh c))"
  unfolding plain_raw_def by (rule cached_good [OF assms(1)]) (simp add: look_simps(3) assms(2,3))

lemma raw_before_decl_good:
  assumes "cache_good sh c"
  shows "fst (raw_before_decl sh c) = look Before_Decl sh \<and> cache_good sh (snd (raw_before_decl sh c))"
  unfolding raw_before_decl_def
proof (rule cached_good [OF assms])
  fix c assume "cache_good sh c"
  then show "fst (case search_raw Before_Decl sh of Some v \<Rightarrow> (v, c) | None \<Rightarrow> plain_raw Before_Rule sh c) = look Before_Decl sh
      \<and> cache_good sh (snd (case search_raw Before_Decl sh of Some v \<Rightarrow> (v, c) | None \<Rightarrow> plain_raw Before_Rule sh c))"
    using plain_raw_good [of sh c Before_Rule] by (simp add: look_simps(1) split: option.split)
qed

lemma raw_before_comment_good:
  assumes "cache_good sh c"
  shows "fst (raw_before_comment sh c) = look Before_Comment sh \<and> cache_good sh (snd (raw_before_comment sh c))"
  unfolding raw_before_comment_def
proof (rule cached_good [OF assms])
  fix c assume "cache_good sh c"
  then show "fst (case search_raw Before_Comment sh of Some v \<Rightarrow> (v, c) | None \<Rightarrow> raw_before_decl sh c) = look Before_Comment sh
      \<and> cache_good sh (snd (case search_raw Before_Comment sh of Some v \<Rightarrow> (v, c) | None \<Rightarrow> raw_before_decl sh c))"
    using raw_before_decl_good [of sh c] by (simp add: look_simps(2) split: option.split)
qed

lemma raw_key_good:
  "cache_good sh c \<Longrightarrow> fst (raw_key k sh c) = look k sh \<and> cache_good sh (snd (raw_key k sh c))"
  by (cases k) (simp_all add: raw_before_decl_good raw_before_comment_good plain_raw_good)

text \<open>The texts before and after a node, without a cache.\<close>

definition pick :: "string option \<Rightarrow> key \<Rightarrow> sheet \<Rightarrow> string" where
  "pick own k sh = (case own of Some v \<Rightarrow> v | None \<Rightarrow> look k sh)"

definition indented :: "key \<Rightarrow> nat \<Rightarrow> sheet \<Rightarrow> string" where
  "indented k d sh = look k sh @ (if newline \<in> set (look k sh) then concat (replicate d (look Indent sh)) else [])"

definition gap_before :: "bool \<Rightarrow> nat \<Rightarrow> node \<Rightarrow> sheet \<Rightarrow> string" where
  "gap_before f d n sh =
     (case r_before (raws_of n) of Some v \<Rightarrow> v | None \<Rightarrow> if f then [] else indented (before_key n) d sh)"

definition gap_after :: "raws \<Rightarrow> nat \<Rightarrow> sheet \<Rightarrow> string" where
  "gap_after r d sh = (case r_after r of Some v \<Rightarrow> v | None \<Rightarrow> indented Before_Close d sh)"

text \<open>A step that keeps the cache good and gives a fixed result.\<close>

definition gives :: "sheet \<Rightarrow> 'a \<times> cache \<Rightarrow> 'a \<Rightarrow> bool" where
  "gives sh p x \<longleftrightarrow> fst p = x \<and> cache_good sh (snd p)"

lemma givesE: assumes "gives sh p x" obtains c where "p = (x, c)" "cache_good sh c"
  using assms by (cases p) (auto simp: gives_def)

lemma raw_gives: "cache_good sh c \<Longrightarrow> gives sh (raw own k sh c) (pick own k sh)"
  using raw_key_good [of sh c k] by (simp add: gives_def raw_def pick_def split: option.split)

lemma before_after_gives:
  assumes "cache_good sh c" shows "gives sh (before_after k d sh c) (indented k d sh)"
proof -
  obtain c1 where c1: "raw_key k sh c = (look k sh, c1)" "cache_good sh c1"
    using raw_key_good [OF assms, of k] by (metis prod.collapse)
  obtain c2 where c2: "raw_key Indent sh c1 = (look Indent sh, c2)" "cache_good sh c2"
    using raw_key_good [OF c1(2), of Indent] by (metis prod.collapse)
  show ?thesis using c1 c2 by (simp add: gives_def before_after_def indented_def)
qed

lemma raw_before_gives: "cache_good sh c \<Longrightarrow> gives sh (raw_before f d n sh c) (gap_before f d n sh)"
  using before_after_gives [of sh c "before_key n" d]
  by (auto simp: raw_before_def gap_before_def gives_def split: option.split)

lemma raw_after_gives: "cache_good sh c \<Longrightarrow> gives sh (raw_after r d sh c) (gap_after r d sh)"
  using before_after_gives [of sh c Before_Close d] by (auto simp: raw_after_def gap_after_def gives_def split: option.split)

section \<open>The cache is invisible\<close>

text \<open>The printer that makes every guess anew.\<close>

definition decl_text :: "raws \<Rightarrow> string \<Rightarrow> string \<Rightarrow> string \<Rightarrow> bool \<Rightarrow> bool \<Rightarrow> string" where
  "decl_text r b p v i t = p @ b @ raw_value r v
     @ (if i then (case r_important r of Some (x # xs) \<Rightarrow> x # xs | _ \<Rightarrow> '' !important'') else [])
     @ (if t then '';'' else [])"

definition at_start :: "raws \<Rightarrow> string \<Rightarrow> string \<Rightarrow> string" where
  "at_start r n p = (let params = (if p = [] then [] else raw_value r p)
     in ''@'' @ n @ (case r_after_name r of Some x \<Rightarrow> x | None \<Rightarrow> if params = [] then [] else '' '') @ params)"

fun print_node :: "sheet \<Rightarrow> nat \<Rightarrow> bool \<Rightarrow> node \<Rightarrow> string list"
and print_block :: "sheet \<Rightarrow> nat \<Rightarrow> raws \<Rightarrow> string \<Rightarrow> node list \<Rightarrow> string list"
and print_nodes :: "sheet \<Rightarrow> nat \<Rightarrow> bool \<Rightarrow> nat \<Rightarrow> nat \<Rightarrow> bool \<Rightarrow> node list \<Rightarrow> string list" where
  "print_node sh d t (Comment r x) =
     [''/*'' @ pick (r_left r) Comment_Left sh @ x @ pick (r_right r) Comment_Right sh @ ''*/'']"
| "print_node sh d t (Decl r p v i) = [decl_text r (pick (r_between r) Colon sh) p v i t]"
| "print_node sh d t (Rule r s ns) =
     print_block sh d r (raw_value r s) ns @ (case r_own_semicolon r of Some x \<Rightarrow> emit x | None \<Rightarrow> [])"
| "print_node sh d t (At_Rule r n p ns) =
     (case ns of
        Some ms \<Rightarrow> print_block sh d r (at_start r n p) ms
      | None \<Rightarrow> [at_start r n p @ (case r_between r of Some x \<Rightarrow> x | None \<Rightarrow> []) @ (if t then '';'' else [])])"
| "print_block sh d r start ns =
     (start @ pick (r_between r) Before_Open sh @ ''{'')
     # (if ns = [] then []
        else print_nodes sh (Suc d) False 0 (last_printed ns) (pick (own_semicolon (r_semicolon r)) Semicolon sh \<noteq> []) ns)
     @ emit (if ns = [] then pick (r_after r) Empty_Body sh else gap_after r d sh) @ [''}'']"
| "print_nodes sh d rt n t semi [] = []"
| "print_nodes sh d rt n t semi (x # xs) =
     emit (gap_before (rt \<and> n = 0) d x sh) @ print_node sh d (t \<noteq> n \<or> semi) x @ print_nodes sh d rt (Suc n) t semi xs"

definition print :: "sheet \<Rightarrow> string list" where
  "print sh =
     print_nodes sh 0 True 0 (last_printed (root_nodes sh)) (r_semicolon (root_raws sh) = Some True) (root_nodes sh)
     @ (case r_after (root_raws sh) of Some x \<Rightarrow> emit x | None \<Rightarrow> [])"

lemma str_gives:
  "cache_good sh c \<Longrightarrow> gives sh (str_node sh d t n c) (print_node sh d t n)"
  "cache_good sh c \<Longrightarrow> gives sh (str_block sh d r start ns c) (print_block sh d r start ns)"
  "cache_good sh c \<Longrightarrow> gives sh (str_nodes sh d rt i m semi ns c) (print_nodes sh d rt i m semi ns)"
proof (induction sh d t n c and sh d r start ns c and sh d rt i m semi ns c rule: str_node_str_block_str_nodes.induct)
  case (1 sh d t r x c)
  obtain c1 where c1: "raw (r_left r) Comment_Left sh c = (pick (r_left r) Comment_Left sh, c1)" "cache_good sh c1"
    using raw_gives [OF 1] by (rule givesE)
  obtain c2 where "raw (r_right r) Comment_Right sh c1 = (pick (r_right r) Comment_Right sh, c2)" "cache_good sh c2"
    using raw_gives [OF c1(2)] by (rule givesE)
  then show ?case using c1 by (simp add: gives_def)
next
  case (2 sh d t r p v i c)
  obtain c1 where "raw (r_between r) Colon sh c = (pick (r_between r) Colon sh, c1)" "cache_good sh c1"
    using raw_gives [OF 2] by (rule givesE)
  then show ?case by (simp add: gives_def decl_text_def)
next
  case (3 sh d t r s ns c)
  obtain c1 where "str_block sh d r (raw_value r s) ns c = (print_block sh d r (raw_value r s) ns, c1)" "cache_good sh c1"
    using 3(1) [OF 3(2)] by (rule givesE)
  then show ?case by (simp add: gives_def del: str_block.simps print_block.simps)
next
  case (4 sh d t r n p ns c)
  show ?case
  proof (cases ns)
    case None
    then show ?thesis using 4(2) by (simp add: gives_def at_start_def Let_def)
  next
    case (Some ms)
    then show ?thesis using 4(1) [OF refl refl Some 4(2)] by (simp add: at_start_def Let_def)
  qed
next
  case (5 sh d r start ns c)
  obtain c1 where c1: "raw (r_between r) Before_Open sh c = (pick (r_between r) Before_Open sh, c1)" "cache_good sh c1"
    using raw_gives [OF 5(2)] by (rule givesE)
  show ?case
  proof (cases "ns = []")
    case True
    obtain c3 where "raw (r_after r) Empty_Body sh c1 = (pick (r_after r) Empty_Body sh, c3)" "cache_good sh c3"
      using raw_gives [OF c1(2)] by (rule givesE)
    then show ?thesis using c1 True by (simp add: gives_def)
  next
    case False
    let ?s = "pick (own_semicolon (r_semicolon r)) Semicolon sh"
    obtain c' where c': "raw (own_semicolon (r_semicolon r)) Semicolon sh c1 = (?s, c')" "cache_good sh c'"
      using raw_gives [OF c1(2)] by (rule givesE)
    let ?out = "print_nodes sh (Suc d) False 0 (last_printed ns) (?s \<noteq> []) ns"
    have "gives sh (str_nodes sh (Suc d) False 0 (last_printed ns) (?s \<noteq> []) ns c') ?out"
      using 5(1) [OF c1(1) [symmetric] refl False c'(1) [symmetric] refl c'(2)] by simp
    then obtain c2 where c2: "str_nodes sh (Suc d) False 0 (last_printed ns) (?s \<noteq> []) ns c' = (?out, c2)" "cache_good sh c2"
      by (rule givesE)
    obtain c3 where "raw_after r d sh c2 = (gap_after r d sh, c3)" "cache_good sh c3"
      using raw_after_gives [OF c2(2)] by (rule givesE)
    then show ?thesis using c1 c' c2 False by (simp add: gives_def)
  qed
next
  case (6 sh d rt n t semi c)
  then show ?case by (simp add: gives_def)
next
  case (7 sh d rt n t semi x xs c)
  obtain c1 where c1: "raw_before (rt \<and> n = 0) d x sh c = (gap_before (rt \<and> n = 0) d x sh, c1)" "cache_good sh c1"
    using raw_before_gives [OF 7(3)] by (rule givesE)
  obtain c2 where c2: "str_node sh d (t \<noteq> n \<or> semi) x c1 = (print_node sh d (t \<noteq> n \<or> semi) x, c2)" "cache_good sh c2"
    using 7(1) [OF c1(1) [symmetric] refl c1(2)] by (rule givesE)
  obtain c3 where "str_nodes sh d rt (Suc n) t semi xs c2 = (print_nodes sh d rt (Suc n) t semi xs, c3)" "cache_good sh c3"
    using 7(2) [OF c1(1) [symmetric] refl c2(1) [symmetric] refl c2(2)] by (rule givesE)
  then show ?case using c1 c2 by (simp add: gives_def)
qed

lemma stringify_gives: "cache_good sh c \<Longrightarrow> gives sh (stringify sh c) (print sh)"
  using str_gives(3) [of sh c 0 True 0 "last_printed (root_nodes sh)" "r_semicolon (root_raws sh) = Some True" "root_nodes sh"]
  by (auto simp: stringify_def print_def Let_def split_def gives_def)

fun stringify_again :: "nat \<Rightarrow> sheet \<Rightarrow> cache \<Rightarrow> cache" where
  "stringify_again 0 sh c = c"
| "stringify_again (Suc n) sh c = stringify_again n sh (snd (stringify sh c))"

lemma stringify_again_good: "cache_good sh c \<Longrightarrow> cache_good sh (stringify_again n sh c)"
  using stringify_gives by (induction n arbitrary: c) (auto simp: gives_def)

text \<open>
  C30. The cache of guesses is invisible: printing a sheet any number of times, each time with the
  cache that the time before left, gives the text of the printer that makes every guess anew from
  the whole sheet.
\<close>

theorem stringify_cache_invisible:
  "fst (stringify sh (stringify_again n sh Map.empty)) = print sh"
  using stringify_gives [OF stringify_again_good [OF cache_good_empty], of sh n] by (simp add: gives_def)

section \<open>Sheets without raws are pretty-printed\<close>

text \<open>
  A tree that was made by a program has nothing recorded. The reference layout: every node on its own
  line, four spaces per level, a semicolon after a declaration that has another node after it.
\<close>

fun bare :: "node \<Rightarrow> bool" where
  "bare (Rule r s ns) \<longleftrightarrow> r = no_raws \<and> list_all bare ns"
| "bare (At_Rule r n p ns) \<longleftrightarrow> r = no_raws \<and> (case ns of None \<Rightarrow> True | Some ms \<Rightarrow> list_all bare ms)"
| "bare (Decl r p v i) \<longleftrightarrow> r = no_raws"
| "bare (Comment r x) \<longleftrightarrow> r = no_raws"

definition bare_sheet :: "sheet \<Rightarrow> bool" where
  "bare_sheet sh \<longleftrightarrow> root_raws sh = no_raws \<and> list_all bare (root_nodes sh)"

definition margin :: "nat \<Rightarrow> string" where
  "margin d = concat (replicate d ''    '')"

fun layout_node :: "nat \<Rightarrow> bool \<Rightarrow> node \<Rightarrow> string"
and layout_block :: "nat \<Rightarrow> node list \<Rightarrow> string"
and layout_nodes :: "nat \<Rightarrow> node list \<Rightarrow> string" where
  "layout_node d t (Comment r x) = ''/* '' @ x @ '' */''"
| "layout_node d t (Decl r p v i) = p @ '': '' @ v @ (if i then '' !important'' else []) @ (if t then '';'' else [])"
| "layout_node d t (Rule r s ns) = s @ layout_block d ns"
| "layout_node d t (At_Rule r n p ns) = ''@'' @ n @ (if p = [] then [] else '' '' @ p)
     @ (case ns of Some ms \<Rightarrow> layout_block d ms | None \<Rightarrow> if t then '';'' else [])"
| "layout_block d ns = '' {'' @ (if ns = [] then [] else layout_nodes (Suc d) ns @ newline # margin d) @ ''}''"
| "layout_nodes d [] = []"
| "layout_nodes d (x # xs) =
     newline # margin d @ layout_node d (\<exists>y\<in>set xs. \<not> is_comment y) x @ layout_nodes d xs"

definition layout :: "sheet \<Rightarrow> string" where
  "layout sh = drop 1 (layout_nodes 0 (root_nodes sh))"

lemma walk_node_bare: "bare n \<Longrightarrow> (d', f', x) \<in> set (walk_node d f n) \<Longrightarrow> raws_of x = no_raws"
proof (induction d f n rule: walk_node.induct)
  case (1 d f r s ns)
  then show ?case by (auto simp: list_all_iff)
next
  case (3 d f r n p ns)
  then show ?case by (auto simp: list_all_iff)
qed auto

lemma walk_bare: "bare_sheet sh \<Longrightarrow> (d, f, x) \<in> set (walk sh) \<Longrightarrow> raws_of x = no_raws"
  by (cases "root_nodes sh") (auto simp: walk_def bare_sheet_def list_all_iff dest: walk_node_bare)

lemma first_some_None: "(\<And>x. x \<in> set xs \<Longrightarrow> f x = None) \<Longrightarrow> first_some f xs = None"
  by (induction xs) auto

lemma no_raws_simps [simp]:
  "r_before no_raws = None" "r_between no_raws = None" "r_after no_raws = None" "r_after_name no_raws = None"
  "r_left no_raws = None" "r_right no_raws = None" "r_important no_raws = None" "r_own_semicolon no_raws = None"
  "r_semicolon no_raws = None" "r_indent no_raws = None" "r_value no_raws = None"
  by (simp_all add: no_raws_def)

lemma search_raw_bare:
  assumes "bare_sheet sh"
  shows "search_raw k sh = None"
proof -
  have "r_indent (root_raws sh) = None" using assms by (simp add: bare_sheet_def)
  then show ?thesis
    by (cases k) (auto simp: guard_def intro!: first_some_None dest: walk_bare [OF assms])
qed

lemma look_bare: "bare_sheet sh \<Longrightarrow> look k sh = default_raw k"
  by (cases k) (simp_all add: look_simps search_raw_bare del: search_raw.simps)

lemma concat_emit [simp]: "concat (emit x) = x"
  by (simp add: emit_def)

lemma last_printed_later:
  assumes "\<not> is_comment x"
  shows "last_printed (pre @ x # xs) \<noteq> length pre \<longleftrightarrow> (\<exists>y\<in>set xs. \<not> is_comment y)"
proof (cases "\<exists>y\<in>set xs. \<not> is_comment y")
  case True
  then have "dropWhile is_comment (rev xs) \<noteq> []" by (simp add: dropWhile_eq_Nil_conv)
  moreover have "dropWhile is_comment (rev xs @ x # rev pre) = dropWhile is_comment (rev xs) @ x # rev pre"
    using True by (auto simp: dropWhile_append)
  ultimately show ?thesis using True by (simp add: last_printed_def)
next
  case False
  then have "dropWhile is_comment (rev xs @ x # rev pre) = x # rev pre" using assms by (subst dropWhile_append2) auto
  then show ?thesis using False by (simp add: last_printed_def)
qed

lemma bare_raws: "bare n \<Longrightarrow> raws_of n = no_raws"
  by (cases n) simp_all

lemma gap_bare:
  assumes "bare_sheet sh"
  shows "bare n \<Longrightarrow> gap_before f d n sh = (if f then [] else newline # margin d)"
    and "gap_after no_raws d sh = newline # margin d"
  using assms by (auto simp: gap_before_def gap_after_def indented_def look_bare bare_raws before_key_def margin_def)

lemma print_node_comment: "is_comment x \<Longrightarrow> print_node sh d t x = print_node sh d t' x"
  by (cases x) simp_all

lemma layout_node_comment: "is_comment x \<Longrightarrow> layout_node d t x = layout_node d t' x"
  by (cases x) simp_all

lemma print_layout:
  assumes "bare_sheet sh"
  shows "bare n \<longrightarrow> concat (print_node sh d t n) = layout_node d t n"
    and "r = no_raws \<longrightarrow> list_all bare ns \<longrightarrow> concat (print_block sh d r start ns) = start @ layout_block d ns"
    and "list_all bare ns \<longrightarrow> \<not> semi \<longrightarrow> (rt \<longrightarrow> d = 0) \<longrightarrow>
      (\<forall>pre. i = length pre \<longrightarrow> m = last_printed (pre @ ns) \<longrightarrow>
         concat (print_nodes sh d rt i m semi ns) = (if rt \<and> i = 0 then drop 1 (layout_nodes d ns) else layout_nodes d ns))"
  using assms
proof (induction sh d t n and sh d r start ns and sh d rt i m semi ns
    rule: print_node_print_block_print_nodes.induct)
  case (1 sh d t r x)
  then show ?case by (simp add: pick_def look_bare)
next
  case (2 sh d t r p v i)
  then show ?case by (simp add: pick_def look_bare decl_text_def raw_value_def)
next
  case (3 sh d t r s ns)
  then show ?case by (simp add: raw_value_def del: print_block.simps layout_block.simps)
next
  case (4 sh d t r n p ns)
  then show ?case
    by (cases ns) (simp_all add: at_start_def raw_value_def del: print_block.simps layout_block.simps)
next
  case (5 sh d r start ns)
  then show ?case by (auto simp: pick_def look_bare gap_bare own_semicolon_def)
next
  case (6 sh d rt n t semi)
  then show ?case by simp
next
  case (7 sh d rt n t semi x xs)
  show ?case
  proof (intro impI allI)
    fix pre
    assume a: "list_all bare (x # xs)" "\<not> semi" "rt \<longrightarrow> d = 0" "n = length pre" "t = last_printed (pre @ x # xs)"
    let ?l = "\<exists>y\<in>set xs. \<not> is_comment y"
    have x: "concat (print_node sh d (t \<noteq> n \<or> semi) x) = layout_node d ?l x"
    proof (cases "is_comment x")
      case True
      then show ?thesis using 7 a layout_node_comment [OF True] by auto
    next
      case False
      have "(t \<noteq> n \<or> semi) = ?l" using last_printed_later [OF False, of pre xs] a(2,4,5) by simp
      then show ?thesis using 7 a by simp
    qed
    have "concat (print_nodes sh d rt (Suc n) t semi xs) = layout_nodes d xs"
      using 7 a by (auto dest!: spec [of _ "pre @ [x]"])
    then show "concat (print_nodes sh d rt n t semi (x # xs))
        = (if rt \<and> n = 0 then drop 1 (layout_nodes d (x # xs)) else layout_nodes d (x # xs))"
      using x a gap_bare(1) [OF 7(3)] by (auto simp: margin_def)
  qed
qed

text \<open>
  Printing a sheet on which nothing is recorded gives the reference layout: one node on a line,
  four spaces per level, empty blocks without a line, a semicolon exactly after the declarations
  that a node other than a comment follows, no newline at either end.
\<close>

theorem stringify_bare_layout:
  assumes "bare_sheet sh"
  shows "concat (fst (stringify sh Map.empty)) = layout sh"
proof -
  have "concat (print_nodes sh 0 True 0 (last_printed (root_nodes sh)) False (root_nodes sh)) = layout sh"
    using print_layout(3) [OF assms, of "root_nodes sh" False True 0 0 "last_printed (root_nodes sh)"] assms
    by (auto simp: bare_sheet_def layout_def dest!: spec [of _ "[]"])
  moreover have "fst (stringify sh Map.empty) = print sh"
    using stringify_gives [OF cache_good_empty] by (simp add: gives_def)
  ultimately show ?thesis using assms by (simp add: print_def bare_sheet_def)
qed

text \<open>The rule \<open>a { b: c; /* d */ }\<close> inside a media query.\<close>

definition sample_sheet :: sheet where
  "sample_sheet = \<lparr>root_raws = no_raws, root_nodes =
     [At_Rule no_raws ''media'' ''print''
        (Some [Rule no_raws ''a'' [Decl no_raws ''b'' ''c'' False, Decl no_raws ''e'' ''f'' True, Comment no_raws ''d'']])]\<rparr>"

lemma stringify_bare_layout_witness:
  "concat (fst (stringify sample_sheet Map.empty))
     = ''@media print {'' @ [newline] @ ''    a {'' @ [newline] @ ''        b: c;'' @ [newline]
       @ ''        e: f !important'' @ [newline] @ ''        /* d */'' @ [newline] @ ''    }'' @ [newline] @ ''}''"
  using stringify_bare_layout [of sample_sheet]
  by (simp add: bare_sheet_def sample_sheet_def layout_def margin_def numeral_eq_Suc)

end
