(* ===== verification/Css_Prefixer.thy ===== *)
theory Css_Prefixer
  imports Js_Prelude
begin

text \<open>
  Vendor prefixes in \<open>webgui/tailwind.js\<close>: which prefixes a feature needs (\<open>Prefixes.select\<close> and
  \<open>sort\<close>), the group of declarations of one property (\<open>Prefixes.group\<close>), and the class of
  declarations (\<open>Ly\<close>) that inserts the prefixed copies before a declaration and lines them up.
  What the classes for special properties override (\<open>normalize\<close>, \<open>prefixed\<close>) is that of the general
  class here, but for \<open>normalize\<close>, which is a parameter.
\<close>

section \<open>Which prefixes\<close>

definition remove_note :: "string \<Rightarrow> string" where
  "remove_note r = hd (split_on (CHR '' '') r)"

text \<open>\<open>uniq\<close>: each element once, in the order of the first occurrences.\<close>

definition uniq :: "string list \<Rightarrow> string list" where
  "uniq xs = rev (remdups (rev xs))"

text \<open>The order of \<open>sort\<close>: longer prefixes (without the note) first, then the longer texts.\<close>

definition prefix_sort :: "string list \<Rightarrow> string list" where
  "prefix_sort xs = sort_key (\<lambda>p. - int (length (remove_note p))) (sort_key (\<lambda>p. - int (length p)) xs)"

text \<open>An entry of the list of browsers of a feature: a browser, its version, and perhaps a note.\<close>

record entry =
  e_browser :: string
  e_version :: string
  e_note :: "string option"

definition entry_of :: "string \<Rightarrow> entry" where
  "entry_of l =
     (let c = split_on (CHR '' '') l
      in \<lparr>e_browser = c ! 0, e_version = (if 1 < length c then c ! 1 else ''undefined''),
          e_note = (if 2 < length c \<and> c ! 2 \<noteq> [] then Some (c ! 2) else None)\<rparr>)"

definition browser_name :: "entry \<Rightarrow> string" where
  "browser_name e = e_browser e @ '' '' @ e_version e"

definition with_note :: "(string \<Rightarrow> string) \<Rightarrow> entry \<Rightarrow> string" where
  "with_note prefix e = (case e_note e of Some n \<Rightarrow> prefix (browser_name e) @ '' '' @ n | None \<Rightarrow> prefix (browser_name e))"

text \<open>
  \<open>select\<close> for one feature: the prefixes to add and those to remove. \<open>prefix\<close> is the prefix of a
  browser and its version, \<open>selected\<close> the test for the target browsers, \<open>old_flex\<close> the option
  \<open>flexbox: "no-2009"\<close>.
\<close>

definition select :: "(string \<Rightarrow> string) \<Rightarrow> (string \<Rightarrow> bool) \<Rightarrow> bool \<Rightarrow> string list \<Rightarrow> string list \<Rightarrow> string list option \<times> string list option" where
  "select prefix selected old_flex browsers mistakes =
     (let es = map entry_of browsers;
          a = uniq (map (with_note prefix) (filter (\<lambda>e. e_note e \<noteq> None) es));
          s0 = prefix_sort (uniq (map (with_note prefix) (filter (\<lambda>e. selected (browser_name e)) es)));
          s = (if old_flex then filter (\<lambda>l. \<not> str_contains l ''2009'') s0 else s0);
          al = uniq (map (\<lambda>e. prefix (browser_name e)) es @ mistakes @ a)
      in if s \<noteq> [] then
           (Some s, if length s < length al then Some (filter (\<lambda>l. l \<notin> set s) al) else None)
         else (None, Some al))"

section \<open>Declarations and their group\<close>

text \<open>A node of a block: a declaration with the text before it, or something else.\<close>

datatype sibling = Declaration string string string | Other

text \<open>\<open>replace(/^-\w+-/, "")\<close>.\<close>

definition cut_prefix :: "string \<Rightarrow> string" where
  "cut_prefix r =
     (case r of
        c # cs \<Rightarrow>
          (let w = takeWhile word_char cs; q = dropWhile word_char cs
           in if c = CHR ''-'' \<and> w \<noteq> [] \<and> q \<noteq> [] \<and> hd q = CHR ''-'' then tl q else r)
      | [] \<Rightarrow> r)"

text \<open>The rest of the setting: \<open>norm\<close> is \<open>normalize\<close>, \<open>known\<close> the prefixes of all browsers.\<close>

record setting =
  norm :: "string \<Rightarrow> string"
  known :: "string list"
  cascade :: bool

definition unprefixed :: "setting \<Rightarrow> string \<Rightarrow> string" where
  "unprefixed z p = (let q = norm z (cut_prefix p) in if q = ''flex-direction'' then ''flex-flow'' else q)"

definition has_known_prefix :: "setting \<Rightarrow> string \<Rightarrow> bool" where
  "has_known_prefix z v \<longleftrightarrow> (\<exists>k\<in>set (known z). str_contains v k)"

text \<open>The declarations that \<open>group(e).up\<close> and \<open>down\<close> visit, from the nearest on.\<close>

fun group_up :: "setting \<Rightarrow> string \<Rightarrow> sibling list \<Rightarrow> (string \<times> string \<times> string) list" where
  "group_up z s [] = []"
| "group_up z s (Other # xs) = group_up z s xs"
| "group_up z s (Declaration p v b # xs) =
     (if p = s \<and> \<not> has_known_prefix z v \<or> unprefixed z p \<noteq> s then [] else (p, v, b) # group_up z s xs)"

fun group_down :: "setting \<Rightarrow> string \<Rightarrow> sibling list \<Rightarrow> (string \<times> string \<times> string) list" where
  "group_down z s [] = []"
| "group_down z s (Other # xs) = group_down z s xs"
| "group_down z s (Declaration p v b # xs) =
     (if unprefixed z p \<noteq> s then []
      else (p, v, b) # (if p = s \<and> \<not> has_known_prefix z v then [] else group_down z s xs))"

section \<open>Inserting prefixed copies\<close>

text \<open>
  The block around a declaration: the nodes before it, its property, its value, the text before it,
  the nodes after it; the length \<open>_autoprefixerMax\<close> that is stored with it (0 when there is none).
\<close>

record block =
  above :: "sibling list"
  property :: string
  val :: string
  indent :: string
  below :: "sibling list"
  widest :: nat

definition is_already :: "setting \<Rightarrow> block \<Rightarrow> string \<Rightarrow> bool" where
  "is_already z b t \<longleftrightarrow>
     (let s = unprefixed z (property b)
      in (\<exists>(p, v, i)\<in>set (group_up z s (rev (above b))). p = t) \<or> (\<exists>(p, v, i)\<in>set (group_down z s (below b)). p = t))"

definition other_prefixes :: "setting \<Rightarrow> string \<Rightarrow> string \<Rightarrow> bool" where
  "other_prefixes z v t \<longleftrightarrow> (\<exists>k\<in>set (known z). k \<noteq> t \<and> str_contains v k)"

definition need_cascade :: "setting \<Rightarrow> block \<Rightarrow> bool" where
  "need_cascade z b \<longleftrightarrow> cascade z \<and> newline \<in> set (indent b)"

definition max_prefixed :: "string list \<Rightarrow> nat \<Rightarrow> nat" where
  "max_prefixed ps stored = (if stored \<noteq> 0 then stored else fold (\<lambda>n i. max i (length (remove_note n))) ps 0)"

definition calc_before :: "string list \<Rightarrow> string \<Rightarrow> nat \<Rightarrow> string \<Rightarrow> string" where
  "calc_before ps before stored i =
     before @ replicate (max_prefixed ps stored - length (remove_note i)) (CHR '' '')"

definition present :: "block \<Rightarrow> string \<Rightarrow> string \<Rightarrow> bool" where
  "present b p v \<longleftrightarrow>
     (\<exists>x\<in>set (above b @ Declaration (property b) (val b) (indent b) # below b). case x of Declaration q w i \<Rightarrow> q = p \<and> w = v | Other \<Rightarrow> False)"

text \<open>\<open>add\<close> with \<open>insert\<close>: \<open>ps\<close> are the prefixes added before; the result says whether this one was.\<close>

definition add_prefix :: "setting \<Rightarrow> string list \<Rightarrow> string \<Rightarrow> block \<Rightarrow> block \<times> bool" where
  "add_prefix z ps a b =
     (let p = a @ property b
      in if is_already z b p \<or> other_prefixes z (val b) a \<or> present b p (val b) then (b, False)
         else if need_cascade z b then
           (b\<lparr>above := above b @ [Declaration p (val b) (calc_before (ps @ [a]) (indent b) (widest b) a)],
              widest := max_prefixed (ps @ [a]) (widest b)\<rparr>, True)
         else (b\<lparr>above := above b @ [Declaration p (val b) (indent b)]\<rparr>, True))"

fun add_all :: "setting \<Rightarrow> string list \<Rightarrow> string list \<Rightarrow> block \<Rightarrow> block \<times> string list" where
  "add_all z ps [] b = (b, ps)"
| "add_all z ps (a # as) b =
     (let (b', ok) = add_prefix z ps a b in add_all z (if ok then ps @ [a] else ps) as b')"

text \<open>\<open>restoreBefore\<close>: the last line before the declaration becomes the shortest of the group above.\<close>

definition restore_before :: "setting \<Rightarrow> block \<Rightarrow> string" where
  "restore_before z b =
     (let t = split_on newline (indent b);
          i = fold (\<lambda>(p, v, x) i. let a = last (split_on newline x) in if length a < length i then a else i)
                (group_up z (unprefixed z (property b)) (rev (above b))) (last t)
      in join [newline] (butlast t @ [i]))"

text \<open>\<open>process\<close>; \<open>parent\<close> is the prefix of the enclosing rule, when there is one.\<close>

definition process_decl :: "setting \<Rightarrow> string option \<Rightarrow> string list \<Rightarrow> block \<Rightarrow> block" where
  "process_decl z parent prefixes b =
     (let (b', ps) = add_all z [] (filter (\<lambda>a. case parent of None \<Rightarrow> True | Some i \<Rightarrow> i = remove_note a) prefixes) b
      in if need_cascade z b \<and> ps \<noteq> [] then
           b'\<lparr>indent := calc_before ps (restore_before z b') (widest b') [], widest := max_prefixed ps (widest b')\<rparr>
         else b')"

section \<open>What is added and what is removed\<close>

lemma set_uniq [simp]: "set (uniq xs) = set xs" and distinct_uniq [simp]: "distinct (uniq xs)"
  by (simp_all add: uniq_def)

lemma prefix_sort_simps [simp]: "set (prefix_sort xs) = set xs" "distinct (prefix_sort xs) = distinct xs"
  by (simp_all add: prefix_sort_def)

lemma prefix_sort_sorted: "sorted_wrt (\<lambda>a c. length (remove_note c) \<le> length (remove_note a)) (prefix_sort xs)"
proof -
  have "sorted (map (\<lambda>p. - int (length (remove_note p))) (prefix_sort xs))" by (simp add: prefix_sort_def)
  then show ?thesis by (simp add: sorted_map sorted_wrt_iff_nth_less)
qed

definition opt_set :: "'a list option \<Rightarrow> 'a set" where
  "opt_set x = (case x of Some xs \<Rightarrow> set xs | None \<Rightarrow> {})"

text \<open>All prefixes that a feature ever had: those of its browsers, its mistakes, and those with a note.\<close>

definition all_prefixes :: "(string \<Rightarrow> string) \<Rightarrow> string list \<Rightarrow> string list \<Rightarrow> string set" where
  "all_prefixes prefix browsers mistakes =
     (\<lambda>e. prefix (browser_name e)) ` entry_of ` set browsers \<union> set mistakes
     \<union> with_note prefix ` {e \<in> entry_of ` set browsers. e_note e \<noteq> None}"

text \<open>
  Every prefix that a feature ever had is either added or removed, and none is both: what is
  added are the prefixes of the selected browsers, with their notes, except those of the flexbox
  draft of 2009 when they are switched off.
\<close>

theorem select_partitions:
  "(let (a, r) = select prefix selected old_flex browsers mistakes
    in opt_set a \<union> opt_set r = all_prefixes prefix browsers mistakes \<and> opt_set a \<inter> opt_set r = {}
       \<and> opt_set a = {l \<in> with_note prefix ` {e \<in> entry_of ` set browsers. selected (browser_name e)}.
                        \<not> (old_flex \<and> str_contains l ''2009'')})"
proof -
  define es where "es = map entry_of browsers"
  define a where "a = uniq (map (with_note prefix) (filter (\<lambda>e. e_note e \<noteq> None) es))"
  define s0 where "s0 = prefix_sort (uniq (map (with_note prefix) (filter (\<lambda>e. selected (browser_name e)) es)))"
  define s where "s = (if old_flex then filter (\<lambda>l. \<not> str_contains l ''2009'') s0 else s0)"
  define al where "al = uniq (map (\<lambda>e. prefix (browser_name e)) es @ mistakes @ a)"
  have al: "set al = all_prefixes prefix browsers mistakes" "distinct al"
    by (auto simp: al_def a_def es_def all_prefixes_def)
  have s: "set s = {l \<in> with_note prefix ` {e \<in> entry_of ` set browsers. selected (browser_name e)}.
                      \<not> (old_flex \<and> str_contains l ''2009'')}" "distinct s"
    by (auto simp: s_def s0_def es_def)
  have sub: "set s \<subseteq> set al"
    unfolding s(1) al(1) by (auto simp: all_prefixes_def with_note_def split: option.splits)
  have "\<not> length s < length al \<Longrightarrow> set s = set al"
    using card_subset_eq [OF _ sub] card_mono [OF _ sub] distinct_card [OF al(2)] distinct_card [OF s(2)] by simp
  moreover have "select prefix selected old_flex browsers mistakes
      = (if s \<noteq> [] then (Some s, if length s < length al then Some (filter (\<lambda>l. l \<notin> set s) al) else None) else (None, Some al))"
    by (simp add: select_def es_def a_def s0_def s_def al_def Let_def)
  ultimately show ?thesis using sub unfolding al(1) [symmetric] s(1) [symmetric] by (auto simp: opt_set_def)
qed

section \<open>Processing twice\<close>

text \<open>The prefix \<open>a\<close> is not inserted before the declaration of \<open>b\<close>.\<close>

definition blocked :: "setting \<Rightarrow> block \<Rightarrow> string \<Rightarrow> bool" where
  "blocked z b a \<longleftrightarrow> is_already z b (a @ property b) \<or> other_prefixes z (val b) a \<or> present b (a @ property b) (val b)"

definition copies :: "setting \<Rightarrow> block \<Rightarrow> string \<Rightarrow> bool" where
  "copies z b a \<longleftrightarrow> unprefixed z (a @ property b) = unprefixed z (property b) \<and> a @ property b \<noteq> unprefixed z (property b)"

lemma add_prefix_eq:
  "add_prefix z ps a b =
     (if blocked z b a then (b, False)
      else (b\<lparr>above := above b @ [Declaration (a @ property b) (val b)
                (if need_cascade z b then calc_before (ps @ [a]) (indent b) (widest b) a else indent b)],
             widest := if need_cascade z b then max_prefixed (ps @ [a]) (widest b) else widest b\<rparr>, True))"
  by (simp add: add_prefix_def blocked_def Let_def)

lemma blocked_cong:
  "above b = above b' \<Longrightarrow> property b = property b' \<Longrightarrow> val b = val b' \<Longrightarrow> below b = below b' \<Longrightarrow> blocked z b a = blocked z b' a"
  by (auto simp: blocked_def is_already_def present_def)

lemma blocked_mono:
  assumes "copies z b c" and "blocked z b a"
  shows "blocked z (b\<lparr>above := above b @ [Declaration (c @ property b) v x], widest := w\<rparr>) a"
  using assms by (auto simp: blocked_def is_already_def present_def copies_def Let_def)

lemma blocked_added:
  assumes "copies z b a"
  shows "blocked z (b\<lparr>above := above b @ [Declaration (a @ property b) (val b) x], widest := w\<rparr>) a"
  using assms by (auto simp: blocked_def is_already_def copies_def Let_def)

lemma add_prefix_frame [simp]:
  "property (fst (add_prefix z ps a b)) = property b" "val (fst (add_prefix z ps a b)) = val b"
  "indent (fst (add_prefix z ps a b)) = indent b" "below (fst (add_prefix z ps a b)) = below b"
  by (simp_all add: add_prefix_eq)

lemma add_prefix_blocks:
  assumes "copies z b a"
  shows "blocked z (fst (add_prefix z ps a b)) a" and "blocked z b c \<Longrightarrow> blocked z (fst (add_prefix z ps a b)) c"
  using assms by (simp_all add: add_prefix_eq blocked_added blocked_mono)

lemma copies_cong: "property b = property b' \<Longrightarrow> copies z b a = copies z b' a"
  by (simp add: copies_def)

lemma add_all_blocks:
  assumes "list_all (copies z b) as"
  shows "list_all (blocked z (fst (add_all z ps as b))) as"
    and "blocked z b c \<Longrightarrow> blocked z (fst (add_all z ps as b)) c"
    and "property (fst (add_all z ps as b)) = property b" "val (fst (add_all z ps as b)) = val b"
    and "below (fst (add_all z ps as b)) = below b"
proof -
  have "list_all (blocked z (fst (add_all z ps as b))) as \<and> (\<forall>c. blocked z b c \<longrightarrow> blocked z (fst (add_all z ps as b)) c)
      \<and> property (fst (add_all z ps as b)) = property b \<and> val (fst (add_all z ps as b)) = val b
      \<and> below (fst (add_all z ps as b)) = below b"
    using assms
  proof (induction as arbitrary: ps b)
    case (Cons a as)
    let ?b = "fst (add_prefix z ps a b)"
    let ?ps = "if snd (add_prefix z ps a b) then ps @ [a] else ps"
    have "list_all (copies z ?b) as" using Cons.prems copies_cong [of ?b b] by (simp add: list_all_iff)
    from Cons.IH [OF this, of ?ps] show ?case
      using add_prefix_blocks [where z = z and b = b and a = a and ps = ps] Cons.prems by (auto simp: split_def Let_def)
  qed simp
  then show "list_all (blocked z (fst (add_all z ps as b))) as"
    "blocked z b c \<Longrightarrow> blocked z (fst (add_all z ps as b)) c"
    "property (fst (add_all z ps as b)) = property b" "val (fst (add_all z ps as b)) = val b"
    "below (fst (add_all z ps as b)) = below b"
    by blast+
qed

lemma add_all_blocked: "list_all (blocked z b) as \<Longrightarrow> add_all z ps as b = (b, ps)"
  by (induction as) (simp_all add: add_prefix_eq)

text \<open>
  C34. Processing a declaration a second time changes nothing: every prefix is now there, or was not
  inserted for a reason that still holds, so that nothing is inserted and nothing is indented again.
\<close>

theorem process_decl_idempotent:
  assumes "list_all (copies z b) prefixes"
  shows "process_decl z parent prefixes (process_decl z parent prefixes b) = process_decl z parent prefixes b"
proof -
  define as where "as = filter (\<lambda>a. case parent of None \<Rightarrow> True | Some i \<Rightarrow> i = remove_note a) prefixes"
  define c where "c = process_decl z parent prefixes b"
  have as: "list_all (copies z b) as" using assms by (auto simp: as_def list_all_iff)
  obtain b' ps where b': "add_all z [] as b = (b', ps)" by (metis surj_pair)
  have "above c = above b'" "property c = property b'" "val c = val b'" "below c = below b'"
    unfolding c_def process_decl_def as_def [symmetric] b' by simp_all
  then have "list_all (blocked z c) as"
    using add_all_blocks(1) [OF as, of "[]"] blocked_cong [of c b'] by (simp add: b' list_all_iff)
  then have "add_all z [] as c = (c, [])" by (rule add_all_blocked)
  then show ?thesis unfolding c_def [symmetric] by (simp add: process_decl_def [of z parent prefixes c] as_def [symmetric])
qed

section \<open>Lining up\<close>

text \<open>The column at which the name of a property ends, given the text before the declaration.\<close>

definition name_column :: "string \<Rightarrow> string \<Rightarrow> nat" where
  "name_column p x = length (last (split_on newline x)) + length p"

lemma last_line_append: "newline \<notin> set t \<Longrightarrow> last (split_on newline (s @ t)) = last (split_on newline s) @ t"
proof (induction s)
  case (Cons c s)
  obtain w ws where "split_on newline s = w # ws" by (cases "split_on newline s") auto
  moreover obtain w' ws' where "split_on newline (s @ t) = w' # ws'" by (cases "split_on newline (s @ t)") auto
  moreover have "ws = [] \<longleftrightarrow> ws' = []"
    using calculation length_split_on [of newline s] length_split_on [of newline "s @ t"] Cons.prems
    by (metis append_Nil2 count_list_0_iff count_list_append length_0_conv length_Cons nat.inject add_cancel_right_right)
  ultimately show ?case using Cons by auto
qed (simp add: split_on_id)

lemma newline_not_space [simp]: "newline \<noteq> CHR '' ''"
  by (simp add: newline_def)

lemma name_column_pad: "name_column p (x @ replicate n (CHR '' '')) = name_column p x + n"
  by (simp add: name_column_def last_line_append)

text \<open>Declarations of one group: the text before each is \<open>x\<close> and some spaces.\<close>

definition padded :: "string \<Rightarrow> string \<Rightarrow> string \<times> nat \<Rightarrow> sibling" where
  "padded v x = (\<lambda>(p, d). Declaration p v (x @ replicate d (CHR '' '')))"

text \<open>A copy as \<open>insert\<close> makes it, lined up for the width \<open>m\<close>.\<close>

definition copy_of :: "block \<Rightarrow> nat \<Rightarrow> string \<Rightarrow> sibling" where
  "copy_of b m a = padded (val b) (indent b) (a @ property b, m - length a)"

definition plain_prefixes :: "string list \<Rightarrow> bool" where
  "plain_prefixes as \<longleftrightarrow> (\<forall>a\<in>set as. CHR '' '' \<notin> set a \<and> a \<noteq> []) \<and> sorted_wrt (\<lambda>a c. length c \<le> length a) as"

lemma remove_note_plain: "CHR '' '' \<notin> set a \<Longrightarrow> remove_note a = a"
  by (simp add: remove_note_def split_on_id)

text \<open>The prefixes \<open>cs\<close> that are added, and the width: that of the first of them.\<close>

definition added :: "setting \<Rightarrow> string list \<Rightarrow> string list \<Rightarrow> block \<Rightarrow> string list \<Rightarrow> nat \<Rightarrow> bool" where
  "added z ps as b cs m \<longleftrightarrow>
     above (fst (add_all z ps as b)) = above b @ map (copy_of b m) cs \<and> indent (fst (add_all z ps as b)) = indent b
     \<and> set cs \<subseteq> set as \<and> sorted_wrt (\<lambda>a c. length c \<le> length a) cs \<and> (\<forall>c\<in>set cs. length c \<le> m)
     \<and> m = (if widest b = 0 \<and> cs \<noteq> [] then length (hd cs) else widest b)
     \<and> (if cs = [] then add_all z ps as b = (b, ps) else widest (fst (add_all z ps as b)) = m \<and> m \<noteq> 0 \<and> snd (add_all z ps as b) \<noteq> [])"

lemma add_all_added:
  assumes "need_cascade z b" and "plain_prefixes as" and "widest b = 0 \<or> (\<forall>a\<in>set as. length a \<le> widest b)"
    and "widest b = 0 \<longrightarrow> ps = []"
  shows "\<exists>cs m. added z ps as b cs m"
  using assms
proof (induction as arbitrary: ps b)
  case Nil
  show ?case by (rule exI [of _ "[]"]) (simp add: added_def)
next
  case (Cons a as)
  have p: "CHR '' '' \<notin> set a" "a \<noteq> []" "plain_prefixes as" "\<forall>c\<in>set as. length c \<le> length a"
    using Cons.prems(2) by (auto simp: plain_prefixes_def)
  show ?case
  proof (cases "blocked z b a")
    case True
    then have e: "add_all z ps (a # as) b = add_all z ps as b" by (simp add: add_prefix_eq)
    have "\<exists>cs m. added z ps as b cs m"
      by (rule Cons.IH [OF Cons.prems(1) p(3)]) (use Cons.prems(3,4) in auto)
    then obtain cs m where a: "added z ps as b cs m" by blast
    then have "set cs \<subseteq> set (a # as)" by (auto simp: added_def)
    with a have "added z ps (a # as) b cs m" unfolding added_def e by blast
    then show ?thesis by blast
  next
    case False
    let ?m = "if widest b = 0 then length a else widest b"
    have m: "max_prefixed (ps @ [a]) (widest b) = ?m" "?m \<noteq> 0" "length a \<le> ?m"
      using Cons.prems(3,4) p by (auto simp: max_prefixed_def remove_note_plain)
    define b1 where "b1 = b\<lparr>above := above b @ [copy_of b ?m a], widest := ?m\<rparr>"
    have e: "add_prefix z ps a b = (b1, True)"
      using False Cons.prems(1) m(1) p(1)
      by (simp add: add_prefix_eq b1_def calc_before_def remove_note_plain copy_of_def padded_def)
    have n: "need_cascade z b1" using Cons.prems(1) by (simp add: need_cascade_def b1_def)
    have w: "\<forall>c\<in>set as. length c \<le> widest b1" "widest b1 \<noteq> 0"
      using Cons.prems(3) p m(2) by (auto simp: b1_def)
    obtain cs k where IH: "added z (ps @ [a]) as b1 cs k"
      using Cons.IH [OF n p(3), of "ps @ [a]"] w by blast
    then have k: "k = ?m" using w(2) by (auto simp: added_def b1_def split: if_splits)
    have c: "copy_of b1 = copy_of b" by (auto simp: copy_of_def b1_def fun_eq_iff)
    have r: "add_all z ps (a # as) b = add_all z (ps @ [a]) as b1" by (simp add: e)
    have u: "above b1 = above b @ [copy_of b ?m a]" "indent b1 = indent b" "widest b1 = ?m" by (simp_all add: b1_def)
    have i: "above (fst (add_all z (ps @ [a]) as b1)) = above b1 @ map (copy_of b ?m) cs"
      "indent (fst (add_all z (ps @ [a]) as b1)) = indent b" "set cs \<subseteq> set as"
      "sorted_wrt (\<lambda>a c. length c \<le> length a) cs" "\<forall>c\<in>set cs. length c \<le> ?m"
      "widest (fst (add_all z (ps @ [a]) as b1)) = ?m" "snd (add_all z (ps @ [a]) as b1) \<noteq> []"
      using IH unfolding k added_def c u by (auto simp: u split: if_splits)
    have "added z ps (a # as) b (a # cs) ?m"
      unfolding added_def r using i u(1) m(2,3) p(4) by auto
    then show ?thesis by blast
  qed
qed

lemma set_group_up: "(p, v, x) \<in> set (group_up z s ys) \<Longrightarrow> Declaration p v x \<in> set ys"
  by (induction z s ys rule: group_up.induct) (auto split: if_splits)

lemma set_group_up_append:
  "set (group_up z s (xs @ ys)) \<subseteq> set (group_up z s xs) \<union> set (group_up z s ys)"
  by (induction z s xs rule: group_up.induct) auto

lemma restore_before_id:
  assumes "\<forall>(p, v, x)\<in>set (group_up z (unprefixed z (property b)) (rev (above b))).
      length (last (split_on newline (indent b))) \<le> length (last (split_on newline x))"
  shows "restore_before z b = indent b"
proof -
  let ?f = "\<lambda>(p, v, x) i. let a = last (split_on newline x) in if length a < length i then a else i"
  have "fold ?f xs (last (split_on newline (indent b))) = last (split_on newline (indent b))"
    if "\<forall>(p, v, x)\<in>set xs. length (last (split_on newline (indent b))) \<le> length (last (split_on newline x))" for xs
    using that by (induction xs) (auto simp: Let_def)
  from this [OF assms] show ?thesis by (simp add: restore_before_def Let_def append_butlast_last_id)
qed

lemma add_all_frame:
  "property (fst (add_all z ps as b)) = property b" "val (fst (add_all z ps as b)) = val b"
  "below (fst (add_all z ps as b)) = below b"
  by (induction as arbitrary: ps b) (simp_all add: split_def Let_def)

lemma process_decl_added:
  assumes "added z [] prefixes b cs m" and "need_cascade z b" and "widest b = 0"
    and "group_up z (unprefixed z (property b)) (rev (above b)) = []" and "cs \<noteq> []"
  shows "above (process_decl z None prefixes b) = above b @ map (copy_of b m) cs
    \<and> indent (process_decl z None prefixes b) = indent b @ replicate m (CHR '' '')
    \<and> property (process_decl z None prefixes b) = property b \<and> val (process_decl z None prefixes b) = val b
    \<and> below (process_decl z None prefixes b) = below b"
proof -
  obtain b' ps where r: "add_all z [] prefixes b = (b', ps)" by (metis surj_pair)
  have n: "above b' = above b @ map (copy_of b m) cs" "indent b' = indent b" "widest b' = m" "m \<noteq> 0" "ps \<noteq> []"
    using assms(1,5) by (auto simp: added_def r)
  have fr: "property b' = property b" "val b' = val b" "below b' = below b" using add_all_frame [of z "[]" prefixes b] r by simp_all
  have "restore_before z b' = indent b'"
  proof (rule restore_before_id, clarify)
    fix p v x assume g: "(p, v, x) \<in> set (group_up z (unprefixed z (property b')) (rev (above b')))"
    have "(p, v, x) \<in> set (group_up z (unprefixed z (property b)) (rev (map (copy_of b m) cs)))"
      using g set_group_up_append [of z "unprefixed z (property b)" "rev (map (copy_of b m) cs)" "rev (above b)"] assms(4)
      by (auto simp: fr n(1))
    then have "Declaration p v x \<in> set (map (copy_of b m) cs)" using set_group_up by fastforce
    then obtain k where "x = indent b @ replicate k (CHR '' '')" by (auto simp: copy_of_def padded_def)
    then show "length (last (split_on newline (indent b'))) \<le> length (last (split_on newline x))"
      by (simp add: n(2) last_line_append)
  qed
  then show ?thesis
    using n fr assms(2) by (simp add: process_decl_def r calc_before_def max_prefixed_def remove_note_def)
qed

text \<open>
  C33. After processing, the new copies and the declaration line up: the names of the properties end at
  the same column in all of them. This is for the cascade switched on, a declaration that starts on a
  line of its own (\<open>need_cascade\<close>) and was not processed yet (\<open>widest\<close>), no copy of it above it, which
  \<open>restoreBefore\<close> would take the indentation from, and prefixes in the order of \<open>sort\<close>, without notes.
\<close>

theorem cascade_lines_up:
  assumes "need_cascade z b" and "widest b = 0" and "plain_prefixes prefixes"
    and "group_up z (unprefixed z (property b)) (rev (above b)) = []"
  shows "\<exists>new c. above (process_decl z None prefixes b) = above b @ new
     \<and> {name_column p x | p v x. Declaration p v x \<in> set new}
         \<union> {name_column (property b) (indent (process_decl z None prefixes b)) | x. x \<in> set new} \<subseteq> {c}"
proof -
  obtain cs m where d: "added z [] prefixes b cs m" using add_all_added [OF assms(1,3), of "[]"] assms(2) by blast
  have c: "name_column p x = name_column (property b) (indent b) + m" if "Declaration p v x \<in> copy_of b m ` set cs" for p v x
  proof -
    obtain a where a: "p = a @ property b" "x = indent b @ replicate (m - length a) (CHR '' '')" "length a \<le> m"
      using \<open>Declaration p v x \<in> copy_of b m ` set cs\<close> d by (auto simp: added_def copy_of_def padded_def)
    show ?thesis unfolding a(1,2) name_column_pad using a(3) by (simp add: name_column_def)
  qed
  show ?thesis
  proof (cases "cs = []")
    case True
    then have "above (process_decl z None prefixes b) = above b" using d by (simp add: added_def process_decl_def)
    then show ?thesis by simp
  next
    case False
    note p = process_decl_added [OF d assms(1,2,4) False]
    then show ?thesis
      using c by (intro exI [of _ "map (copy_of b m) cs"] exI [of _ "name_column (property b) (indent b) + m"]) (auto simp: name_column_pad)
  qed
qed

section \<open>Removing copies\<close>

text \<open>The last line before a declaration, and the text with another one.\<close>

definition last_line :: "string \<Rightarrow> string" where
  "last_line x = last (split_on newline x)"

definition with_last_line :: "string \<Rightarrow> string \<Rightarrow> string" where
  "with_last_line x l = join [newline] (butlast (split_on newline x) @ [l])"

text \<open>
  The walk of \<open>reduceSpaces\<close> over the declarations below: \<open>n\<close> is the length of the line before the first
  of the group, \<open>k\<close> the number of spaces to take away, once it is known.
\<close>

fun reduce_down :: "setting \<Rightarrow> string \<Rightarrow> nat \<Rightarrow> nat option \<Rightarrow> sibling list \<Rightarrow> sibling list" where
  "reduce_down z s n k [] = []"
| "reduce_down z s n k (Other # xs) = Other # reduce_down z s n k xs"
| "reduce_down z s n k (Declaration p v b # xs) =
     (if unprefixed z p \<noteq> s then Declaration p v b # xs
      else
        let l = last_line b;
            m = (case k of None \<Rightarrow> length l - n | Some m \<Rightarrow> m);
            b' = (if n < length l then with_last_line b (take (length l - m) l) else b);
            k' = (if n < length l then Some m else k)
        in Declaration p v b' # (if p = s \<and> \<not> has_known_prefix z v then xs else reduce_down z s n k' xs))"

text \<open>Removing the declaration with property \<open>p\<close> between \<open>up\<close> and \<open>down\<close>, where it starts a line.\<close>

definition remove_decl :: "setting \<Rightarrow> sibling list \<Rightarrow> string \<Rightarrow> string \<Rightarrow> sibling list \<Rightarrow> sibling list" where
  "remove_decl z up p b down =
     (if newline \<in> set b \<and> group_up z (unprefixed z p) (rev up) = []
      then reduce_down z (unprefixed z p) (length (last_line b)) None down else down)"

text \<open>Removing the next \<open>m\<close> declarations, one after the other.\<close>

fun remove_next :: "setting \<Rightarrow> sibling list \<Rightarrow> nat \<Rightarrow> sibling list \<Rightarrow> sibling list" where
  "remove_next z up (Suc m) (Declaration p v b # down) = remove_next z up m (remove_decl z up p b down)"
| "remove_next z up m down = down"

lemma last_line_pad: "last_line (x @ replicate d (CHR '' '')) = last_line x @ replicate d (CHR '' '')"
  unfolding last_line_def by (rule last_line_append) simp

lemma butlast_split_append:
  "newline \<notin> set t \<Longrightarrow> butlast (split_on newline (x @ t)) = butlast (split_on newline x)"
proof (induction x)
  case (Cons c x)
  obtain w ws where "split_on newline x = w # ws" by (cases "split_on newline x") auto
  moreover obtain w' ws' where "split_on newline (x @ t) = w' # ws'" by (cases "split_on newline (x @ t)") auto
  ultimately show ?case using Cons by (auto split: if_splits)
qed (simp add: split_on_id)

lemma with_last_line_pad:
  "with_last_line (x @ replicate d (CHR '' '')) (last_line x @ replicate e (CHR '' '')) = x @ replicate e (CHR '' '')"
proof -
  have "with_last_line (x @ replicate d (CHR '' '')) (last_line x @ replicate e (CHR '' ''))
      = join [newline] (butlast (split_on newline (x @ replicate e (CHR '' ''))) @ [last_line (x @ replicate e (CHR '' ''))])"
    by (simp add: with_last_line_def butlast_split_append last_line_pad)
  then show ?thesis by (simp add: last_line_def append_butlast_last_id)
qed

text \<open>Taking \<open>k\<close> away from the offsets that are not 0; what is taken away is the first of these.\<close>

fun shrink :: "nat option \<Rightarrow> nat list \<Rightarrow> nat list" where
  "shrink k [] = []"
| "shrink k (d # ds) =
     (if d = 0 then 0 # shrink k ds
      else (let m = (case k of None \<Rightarrow> d | Some m \<Rightarrow> m) in (d - m) # shrink (Some m) ds))"

lemma with_last_line_0: "with_last_line (x @ replicate d (CHR '' '')) (last_line x) = x"
  using with_last_line_pad [of x d 0] by simp

lemma take_pad: "m \<le> d \<Longrightarrow> take (length l + d - m) (l @ replicate d (CHR '' '')) = l @ replicate (d - m) (CHR '' '')"
  by (simp add: min_def)

lemma reduce_down_padded:
  assumes "unprefixed z s = s" and "\<not> has_known_prefix z v"
    and "\<forall>p\<in>set ps. unprefixed z p = s \<and> p \<noteq> s" and "length ds = Suc (length ps)"
    and "sorted ds" and "case k of None \<Rightarrow> True | Some m \<Rightarrow> m \<le> hd ds"
  shows "reduce_down z s (length (last_line x)) k (map (padded v x) (zip (ps @ [s]) ds) @ rest)
     = map (padded v x) (zip (ps @ [s]) (shrink k ds)) @ rest"
  using assms(3-6)
proof (induction ps arbitrary: ds k)
  case Nil
  then obtain d where "ds = [d]" by (cases ds) auto
  then show ?case
    using assms(1,2) Nil(4) by (auto simp: padded_def last_line_pad take_pad with_last_line_pad with_last_line_0 Let_def split: option.splits)
next
  case (Cons p ps)
  then obtain d ds' where ds: "ds = d # ds'" "length ds' = Suc (length ps)" by (cases ds) auto
  then have h: "d \<le> hd ds'" "sorted ds'" using Cons.prems(3) by (cases ds'; auto)+
  have m: "(case k of None \<Rightarrow> d | Some m \<Rightarrow> m) \<le> d" using Cons.prems(4) ds by (simp split: option.splits)
  have "case k of None \<Rightarrow> True | Some m \<Rightarrow> m \<le> hd ds'" using Cons.prems(4) ds h(1) by (auto split: option.splits)
  then have IH: "reduce_down z s (length (last_line x)) k (map (padded v x) (zip (ps @ [s]) ds') @ rest)
      = map (padded v x) (zip (ps @ [s]) (shrink k ds')) @ rest"
    "reduce_down z s (length (last_line x)) (Some (case k of None \<Rightarrow> d | Some m \<Rightarrow> m)) (map (padded v x) (zip (ps @ [s]) ds') @ rest)
      = map (padded v x) (zip (ps @ [s]) (shrink (Some (case k of None \<Rightarrow> d | Some m \<Rightarrow> m)) ds')) @ rest"
    using Cons.IH [of ds'] Cons.prems(1) ds(2) h m by auto
  show ?case
    using IH m Cons.prems(1) ds(1) by (cases k) (auto simp: padded_def last_line_pad take_pad with_last_line_pad with_last_line_0 Let_def)
qed

lemma shrink_Some: "\<forall>d\<in>set ds. m \<le> d \<and> 0 < d \<Longrightarrow> shrink (Some m) ds = map (\<lambda>d. d - m) ds"
  by (induction ds) auto

lemma shrink_None:
  "sorted (d # ds) \<Longrightarrow> shrink None (d # ds) = (if d = 0 then 0 # shrink None ds else map (\<lambda>x. x - d) (d # ds))"
  
proof -
  assume s: "sorted (d # ds)"
  then have "0 < d \<Longrightarrow> \<forall>x\<in>set ds. d \<le> x \<and> 0 < x" by force
  then show ?thesis using shrink_Some [of ds d] by (cases "d = 0") (simp_all add: Let_def)
qed

lemma sorted_minus: "sorted ds \<Longrightarrow> sorted (map (\<lambda>x. x - (d :: nat)) ds)"
  by (induction ds) (auto intro: diff_le_mono)

lemma sorted_shrink:
  assumes "sorted (d # ds)"
  shows "sorted (shrink None (d # ds)) \<and> hd (shrink None (d # ds)) = 0 \<and> length (shrink None (d # ds)) = Suc (length ds)"
  using assms
proof (induction ds arbitrary: d)
  case (Cons e ds)
  have "sorted (map (\<lambda>x. x - d) (e # ds))" using Cons.prems by (intro sorted_minus) simp
  then show ?case using Cons.IH [of e] Cons.prems by (auto simp: shrink_None simp del: shrink.simps)
qed simp

lemma remove_next_padded:
  assumes "unprefixed z s = s" and "\<not> has_known_prefix z v" and "group_up z s (rev up) = []" and "newline \<in> set x"
    and "\<forall>p\<in>set ps. unprefixed z p = s \<and> p \<noteq> s" and "length ds = Suc (length ps)" and "sorted ds" and "hd ds = 0"
  shows "remove_next z up (length ps) (map (padded v x) (zip (ps @ [s]) ds) @ rest) = Declaration s v x # rest"
  using assms(5-8)
proof (induction ps arbitrary: ds)
  case Nil
  then show ?case by (cases ds) (auto simp: padded_def)
next
  case (Cons p ps)
  obtain e ds' where ds: "ds = 0 # e # ds'" using Cons.prems(2,4) by (cases ds rule: remdups_adj.cases) auto
  have "remove_decl z up p x (map (padded v x) (zip (ps @ [s]) (e # ds')) @ rest)
      = map (padded v x) (zip (ps @ [s]) (shrink None (e # ds'))) @ rest"
    using Cons.prems assms(3,4) ds reduce_down_padded [OF assms(1,2), of ps "e # ds'" None x rest]
    by (simp add: remove_decl_def)
  moreover have "remove_next z up (length ps) (map (padded v x) (zip (ps @ [s]) (shrink None (e # ds'))) @ rest) = Declaration s v x # rest"
    using Cons.prems ds sorted_shrink [of e ds'] by (intro Cons.IH) auto
  ultimately show ?case unfolding ds by (simp add: padded_def del: shrink.simps)
qed

text \<open>
  Removing undoes adding: when the copies that were added above a declaration are removed again, one
  after the other, each with \<open>reduceSpaces\<close>, the declaration and the text before it are the ones of
  the start. The declaration starts a line of its own, its property and value have no prefix.
\<close>

theorem remove_undoes_process:
  assumes "need_cascade z b" and "widest b = 0" and "plain_prefixes prefixes"
    and "group_up z (unprefixed z (property b)) (rev (above b)) = []" and "newline \<in> set (indent b)"
    and "unprefixed z (property b) = property b" and "\<not> has_known_prefix z (val b)" and "list_all (copies z b) prefixes"
  shows "\<exists>new. above (process_decl z None prefixes b) = above b @ new
     \<and> remove_next z (above b) (length new)
         (new @ Declaration (property b) (val b) (indent (process_decl z None prefixes b)) # below b)
       = Declaration (property b) (val b) (indent b) # below b"
proof -
  obtain cs m where d: "added z [] prefixes b cs m" using add_all_added [OF assms(1,3), of "[]"] assms(2) by blast
  show ?thesis
  proof (cases "cs = []")
    case True
    then show ?thesis using d by (auto simp: added_def process_decl_def)
  next
    case False
    let ?ps = "map (\<lambda>a. a @ property b) cs" and ?ds = "map (\<lambda>a. m - length a) cs @ [m]"
    note p = process_decl_added [OF d assms(1,2,4) False]
    have "sorted_wrt (\<lambda>a c. length c \<le> length a) cs" "\<forall>c\<in>set cs. length c \<le> m" "set cs \<subseteq> set prefixes" "m = length (hd cs)"
      using d assms(2) False by (auto simp: added_def)
    then have "sorted ?ds" "hd ?ds = 0" "\<forall>p\<in>set ?ps. unprefixed z p = property b \<and> p \<noteq> property b"
      using False assms(6,8) by (auto simp: sorted_append sorted_wrt_map hd_append hd_map list_all_iff copies_def elim!: sorted_wrt_mono_rel [rotated])
    then have "remove_next z (above b) (length ?ps) (map (padded (val b) (indent b)) (zip (?ps @ [property b]) ?ds) @ below b)
        = Declaration (property b) (val b) (indent b) # below b"
      using assms(4-7) by (intro remove_next_padded) simp_all
    moreover have "map (padded (val b) (indent b)) (zip (?ps @ [property b]) ?ds)
        = map (copy_of b m) cs @ [Declaration (property b) (val b) (indent b @ replicate m (CHR '' ''))]"
      by (simp add: zip_append zip_map_map zip_same_conv_map copy_of_def padded_def)
    ultimately show ?thesis using p by (intro exI [of _ "map (copy_of b m) cs"]) simp
  qed
qed

section \<open>Examples\<close>

definition sample_setting :: setting where
  "sample_setting = \<lparr>norm = (\<lambda>p. p), known = [''-webkit-'', ''-moz-'', ''-ms-''], cascade = True\<rparr>"

definition sample_block :: block where
  "sample_block = \<lparr>above = [Other], property = ''hyphens'', val = ''auto'', indent = newline # ''  '', below = [], widest = 0\<rparr>"

lemma sample_copies: "list_all (copies sample_setting sample_block) [''-webkit-'', ''-ms-'']"
  by (simp add: copies_def sample_setting_def sample_block_def unprefixed_def cut_prefix_def word_char_def)

lemma process_decl_idempotent_witness:
  "process_decl sample_setting None [''-webkit-'', ''-ms-''] (process_decl sample_setting None [''-webkit-'', ''-ms-''] sample_block)
     = process_decl sample_setting None [''-webkit-'', ''-ms-''] sample_block"
  by (rule process_decl_idempotent [OF sample_copies])

lemma cascade_lines_up_witness:
  "\<exists>new c. above (process_decl sample_setting None [''-webkit-'', ''-ms-''] sample_block) = above sample_block @ new
     \<and> {name_column p x | p v x. Declaration p v x \<in> set new}
         \<union> {name_column (property sample_block)
              (indent (process_decl sample_setting None [''-webkit-'', ''-ms-''] sample_block)) | x. x \<in> set new} \<subseteq> {c}"
  by (rule cascade_lines_up)
     (simp_all add: need_cascade_def sample_setting_def sample_block_def plain_prefixes_def)

lemma remove_undoes_process_witness:
  "\<exists>new. above (process_decl sample_setting None [''-webkit-'', ''-ms-''] sample_block) = above sample_block @ new
     \<and> remove_next sample_setting (above sample_block) (length new)
         (new @ Declaration (property sample_block) (val sample_block)
            (indent (process_decl sample_setting None [''-webkit-'', ''-ms-''] sample_block)) # below sample_block)
       = Declaration (property sample_block) (val sample_block) (indent sample_block) # below sample_block"
  by (rule remove_undoes_process [OF _ _ _ _ _ _ _ sample_copies])
     (simp_all add: need_cascade_def sample_setting_def sample_block_def plain_prefixes_def unprefixed_def cut_prefix_def
       word_char_def has_known_prefix_def str_contains_def has_prefix_def)

text \<open>The two copies and the declaration, printed below each other.\<close>

lemma sample_cascade:
  "process_decl sample_setting None [''-webkit-'', ''-ms-''] sample_block
     = \<lparr>above = [Other, Declaration ''-webkit-hyphens'' ''auto'' (newline # ''  ''),
                 Declaration ''-ms-hyphens'' ''auto'' (newline # ''      '')],
        property = ''hyphens'', val = ''auto'', indent = newline # ''          '', below = [], widest = 8\<rparr>"
  by code_simp

end
