(* ===== verification/Js_Cache.thy ===== *)
theory Js_Cache
  imports Js_Prelude
begin

text \<open>
  The interface through which the JavaScript uses its caches: the LRU cache of the extracted candidates
  and the map of the prefixes that were built before. Clients prove with it that a computation through
  a cache gives what the computation gives.
\<close>

section \<open>Caches\<close>

text \<open>
  A cache may forget but must not invent: looking up gives what the cache holds, or nothing, and it
  holds at most what was put in.
\<close>

locale lossy_cache =
  fixes look :: "'k \<Rightarrow> 'c \<Rightarrow> 'v option \<times> 'c"
    and keep :: "'k \<Rightarrow> 'v \<Rightarrow> 'c \<Rightarrow> 'c"
    and content :: "'c \<Rightarrow> 'k \<Rightarrow> 'v option"
    and ok :: "'c \<Rightarrow> bool"
  assumes look_content: "ok c \<Longrightarrow> fst (look k c) = Some v \<Longrightarrow> content c k = Some v"
    and content_look: "ok c \<Longrightarrow> content (snd (look k c)) \<subseteq>\<^sub>m content c"
    and content_keep: "ok c \<Longrightarrow> content (keep k v c) \<subseteq>\<^sub>m (content c)(k \<mapsto> v)"
    and ok_look: "ok c \<Longrightarrow> ok (snd (look k c))"
    and ok_keep: "ok c \<Longrightarrow> ok (keep k v c)"
begin

text \<open>The cache holds values of \<open>f\<close>.\<close>

definition caches :: "('k \<Rightarrow> 'v) \<Rightarrow> 'c \<Rightarrow> bool" where
  "caches f c \<longleftrightarrow> ok c \<and> (\<forall>k v. content c k = Some v \<longrightarrow> v = f k)"

lemma caches_look: "caches f c \<Longrightarrow> caches f (snd (look k c))"
  using content_look [of c k] ok_look [of c k] unfolding caches_def map_le_def by (metis domI)

lemma caches_keep:
  assumes "caches f c" and "v = f k" shows "caches f (keep k v c)"
proof -
  have c: "ok c" "\<And>k v. content c k = Some v \<Longrightarrow> v = f k" using assms(1) by (auto simp: caches_def)
  have "w = f j" if "content (keep k v c) j = Some w" for j w
    using content_keep [OF c(1), of k v] that assms(2) c(2) [of j] unfolding map_le_def by (metis domI fun_upd_apply option.inject)
  then show ?thesis using ok_keep [OF c(1)] by (simp add: caches_def)
qed

lemma look_value: "caches f c \<Longrightarrow> fst (look k c) = Some v \<Longrightarrow> v = f k"
  using look_content [of c k v] by (simp add: caches_def)

text \<open>A computation through the cache: what was looked up, or what is computed and kept.\<close>

lemma through_cache:
  assumes "caches f c" and "look k c = (r, c')"
  shows "(case r of Some v \<Rightarrow> v | None \<Rightarrow> f k) = f k"
    and "caches f (case r of Some v \<Rightarrow> c' | None \<Rightarrow> keep k (f k) c')"
proof -
  have c': "caches f c'" using caches_look [OF assms(1), of k] assms(2) by simp
  show "(case r of Some v \<Rightarrow> v | None \<Rightarrow> f k) = f k"
    using look_value [OF assms(1), of k] assms(2) by (auto split: option.split)
  show "caches f (case r of Some v \<Rightarrow> c' | None \<Rightarrow> keep k (f k) c')"
    using c' caches_keep [OF c' refl] by (auto split: option.split)
qed

end

end
