(* ===== verification/Autoprefixer.thy ===== *)
theory Autoprefixer
  imports Js_Cache
begin

text \<open>
  The plugin that Autoprefixer exports (\<open>Dr\<close> in \<open>webgui/tailwind.js\<close>): how the arguments become the
  options and the browser requirements, the errors and the warning about options that were renamed,
  the store of prebuilt prefixes, and what the plugin does at the end of a style sheet. The module
  of colours is empty in this bundle, so the warning is printed plain.
\<close>

section \<open>The warnings\<close>

definition lines_text :: "string list \<Rightarrow> string" where
  "lines_text ls = concat (map (\<lambda>l. l @ [newline]) ls)"

definition browsers_warning :: string where
  "browsers_warning = newline # lines_text
     [''  Replace Autoprefixer `browsers` option to Browserslist config.'',
      ''  Use `browserslist` key in `package.json` or `.browserslistrc` file.'',
      [],
      ''  Using `browsers` option can cause errors. Browserslist config can'',
      ''  be used for Babel, Autoprefixer, postcss-normalize and other tools.'',
      [],
      ''  If you really need to use option, rename it to `overrideBrowserslist`.'',
      [],
      ''  Learn more at:'',
      ''  https://github.com/browserslist/browserslist#readme'',
      ''  https://twitter.com/browserslist'',
      []]"

definition no_prefixes_warning :: string where
  "no_prefixes_warning =
     ''Autoprefixer target browsers do not need any prefixes.You do not need Autoprefixer anymore.'' @ [newline]
     @ lines_text
     [''Check your Browserslist config to be sure that your targets are set up correctly.'',
      [],
      ''  Learn more at:'',
      ''  https://github.com/postcss/autoprefixer#readme'',
      ''  https://github.com/browserslist/browserslist#readme'',
      []]"

section \<open>Arguments\<close>

text \<open>
  The options that the plugin reads. \<open>o_browser\<close> and \<open>o_browserslist\<close> say whether the renamed options
  are given (and true); a requirement is a query or a list of queries.
\<close>

datatype requirement = Query string | Queries "string list"

record options =
  o_browser :: bool
  o_browserslist :: bool
  o_override :: "requirement option"
  o_browsers :: "requirement option"
  o_remove :: "bool option"
  o_add :: "bool option"

definition no_options :: options where
  "no_options = \<lparr>o_browser = False, o_browserslist = False, o_override = None, o_browsers = None,
                 o_remove = None, o_add = None\<rparr>"

datatype arg = Undefined | Null | Req requirement | Opts options

fun falsy_arg :: "arg \<Rightarrow> bool" where
  "falsy_arg Undefined = True"
| "falsy_arg Null = True"
| "falsy_arg (Req (Query q)) = (q = [])"
| "falsy_arg a = False"

fun plain_object :: "arg \<Rightarrow> bool" where
  "plain_object (Opts opts) = True"
| "plain_object a = False"

fun is_array :: "arg \<Rightarrow> bool" where
  "is_array (Req (Queries qs)) = True"
| "is_array a = False"

text \<open>\<open>typeof a == "object"\<close>: arrays and \<open>null\<close> are objects.\<close>

fun typeof_object :: "arg \<Rightarrow> bool" where
  "typeof_object Null = True"
| "typeof_object (Req (Queries qs)) = True"
| "typeof_object (Opts opts) = True"
| "typeof_object a = False"

text \<open>
  What \<open>r\<close> holds after the arguments were taken apart: nothing, one argument, or the array of the
  remaining arguments.
\<close>

datatype wanted = Default | One arg | Rest "arg list"

definition split_args :: "arg list \<Rightarrow> arg \<times> wanted" where
  "split_args r =
     (if length r = 1 \<and> plain_object (r ! 0) then (r ! 0, Default)
      else if length r = 0 \<or> length r = 1 \<and> falsy_arg (r ! 0) then (Undefined, Default)
      else if length r \<le> 2 \<and> (is_array (r ! 0) \<or> falsy_arg (r ! 0))
        then (if length r = 2 then r ! 1 else Undefined, One (r ! 0))
      else if typeof_object (last r) then (last r, Rest (butlast r))
      else (Undefined, Rest r))"

text \<open>The properties of what was taken for the options; an array or a string has none of them.\<close>

definition options_of :: "arg \<Rightarrow> options" where
  "options_of e = (case e of Opts opts \<Rightarrow> opts | _ \<Rightarrow> no_options)"

definition given :: "requirement option \<Rightarrow> requirement option" where
  "given r = (if r = Some (Query []) then None else r)"

record plugin =
  p_options :: options
  p_wanted :: wanted
  p_console :: "string list"

definition autoprefixer :: "arg list \<Rightarrow> plugin js" where
  "autoprefixer args =
     (let (e0, r) = split_args args; e = options_of e0
      in if o_browser e then
           Throw ''Change `browser` option to `overrideBrowserslist` in Autoprefixer''
         else if o_browserslist e then
           Throw ''Change `browserslist` option to `overrideBrowserslist` in Autoprefixer''
         else case given (o_override e) of
           Some q \<Rightarrow> Value \<lparr>p_options = e, p_wanted = One (Req q), p_console = []\<rparr>
         | None \<Rightarrow>
             (case given (o_browsers e) of
                Some q \<Rightarrow> Value \<lparr>p_options = e, p_wanted = One (Req q), p_console = [browsers_warning]\<rparr>
              | None \<Rightarrow> Value \<lparr>p_options = e, p_wanted = r, p_console = []\<rparr>))"

section \<open>The prefixes that were built before\<close>

text \<open>
  \<open>i(n)\<close>: the map \<open>lf\<close> holds the prefixes by the selected browsers and the options. \<open>Browsers\<close> and
  \<open>Prefixes\<close> are the functions \<open>browsers\<close> and \<open>prefixes\<close>, \<open>key\<close> the string made of the selection and
  the options.
\<close>

definition load_prefixes :: "('n \<Rightarrow> 'b) \<Rightarrow> ('b \<Rightarrow> string) \<Rightarrow> ('b \<Rightarrow> 'p) \<Rightarrow> 'n \<Rightarrow> (string \<rightharpoonup> 'p) \<Rightarrow> 'p option \<times> (string \<rightharpoonup> 'p)" where
  "load_prefixes browsers key prefixes n lf =
     (let a = browsers n; k = key a; lf' = (if lf k = None then lf(k \<mapsto> prefixes a) else lf)
      in (lf' k, lf'))"

section \<open>At the end of a style sheet\<close>

text \<open>
  What \<open>H5\<close> and \<open>OnceExit\<close> look at and do: the selected browsers, the selectors with prefixes, the
  number of keys of \<open>add\<close> (two of them always there), and the calls they make, in order.
\<close>

datatype action = Warn string | Remove_Prefixes | Add_Prefixes

definition warn_useless :: "nat \<Rightarrow> nat \<Rightarrow> nat \<Rightarrow> action list" where
  "warn_useless selected selectors keys =
     (if selected \<noteq> 0 \<and> \<not> (selectors > 0 \<or> keys > 2) then [Warn no_prefixes_warning] else [])"

definition once_exit :: "options \<Rightarrow> nat \<Rightarrow> nat \<Rightarrow> nat \<Rightarrow> action list" where
  "once_exit e selected selectors keys =
     warn_useless selected selectors keys
     @ (if o_remove e \<noteq> Some False then [Remove_Prefixes] else [])
     @ (if o_add e \<noteq> Some False then [Add_Prefixes] else [])"

section \<open>What the arguments mean\<close>

lemma split_args_simps [simp]:
  "split_args [] = (Undefined, Default)"
  "split_args [Opts opts] = (Opts opts, Default)"
  "split_args [Undefined] = (Undefined, Default)"
  "split_args [Null] = (Undefined, Default)"
  "split_args [Req (Queries qs)] = (Undefined, One (Req (Queries qs)))"
  "split_args [Req (Queries qs), e] = (e, One (Req (Queries qs)))"
  "q \<noteq> [] \<Longrightarrow> split_args [Req (Query q)] = (Undefined, Rest [Req (Query q)])"
  by (simp_all add: split_args_def)

text \<open>Queries given one by one, with the options last or without.\<close>

definition query :: "string \<Rightarrow> arg" where
  "query q = Req (Query q)"

lemma split_args_queries:
  assumes "q \<noteq> []"
  shows "split_args (map query (q # qs)) = (Undefined, Rest (map query (q # qs)))"
    and "split_args (map query (q # qs) @ [Opts opts]) = (Opts opts, Rest (map query (q # qs)))"
  using assms by (auto simp: split_args_def query_def last_map)

definition renamed :: "options \<Rightarrow> bool" where
  "renamed e \<longleftrightarrow> o_browser e \<or> o_browserslist e"

lemma browsers_warning_ne [simp]: "browsers_warning \<noteq> []"
  by (simp add: browsers_warning_def)

text \<open>What a caller sees of the plugin besides its options: the requirements and the console.\<close>

fun outcome :: "plugin js \<Rightarrow> (wanted \<times> string list) js" where
  "outcome (Value p) = Value (p_wanted p, p_console p)"
| "outcome (Throw x) = Throw x"

lemma autoprefixer_split:
  "split_args args = (e0, r) \<Longrightarrow> options_of e0 = e \<Longrightarrow>
   outcome (autoprefixer args) =
     (if o_browser e then Throw ''Change `browser` option to `overrideBrowserslist` in Autoprefixer''
      else if o_browserslist e then Throw ''Change `browserslist` option to `overrideBrowserslist` in Autoprefixer''
      else Value (case given (o_override e) of Some q \<Rightarrow> (One (Req q), [])
        | None \<Rightarrow> (case given (o_browsers e) of Some q \<Rightarrow> (One (Req q), [browsers_warning]) | None \<Rightarrow> (r, []))))"
  by (simp add: autoprefixer_def split: option.split)

text \<open>
  An array of queries before the options means the same as the array in the option
  \<open>overrideBrowserslist\<close>: the same requirements and output, or the same error when an option was
  given under a name of an older version. The option \<open>browsers\<close> differs in the warning only.
\<close>

theorem array_or_override:
  assumes "given (o_override e) = None" and "given (o_browsers e) = None"
  shows "outcome (autoprefixer [Req (Queries qs), Opts e]) = outcome (autoprefixer [Opts (e\<lparr>o_override := Some (Queries qs)\<rparr>)])"
  using autoprefixer_split [of "[Req (Queries qs), Opts e]", OF _ refl]
    autoprefixer_split [of "[Opts (e\<lparr>o_override := Some (Queries qs)\<rparr>)]", OF _ refl] assms
  by (simp add: options_of_def given_def)

lemma array_or_override_witness:
  "outcome (autoprefixer [Req (Queries [''ie 8'']), Opts no_options])
     = outcome (autoprefixer [Opts (no_options\<lparr>o_override := Some (Queries [''ie 8''])\<rparr>)])"
  by (rule array_or_override) (simp_all add: no_options_def given_def)

section \<open>The store\<close>

fun load_all :: "('n \<Rightarrow> 'b) \<Rightarrow> ('b \<Rightarrow> string) \<Rightarrow> ('b \<Rightarrow> 'p) \<Rightarrow> 'n list \<Rightarrow> (string \<rightharpoonup> 'p) \<Rightarrow> 'p option list" where
  "load_all browsers key prefixes [] lf = []"
| "load_all browsers key prefixes (n # ns) lf =
     (let (p, lf') = load_prefixes browsers key prefixes n lf in p # load_all browsers key prefixes ns lf')"

text \<open>The map \<open>lf\<close> as a cache that forgets nothing.\<close>

interpretation pm: lossy_cache "\<lambda>k m. (m k, m)" "\<lambda>k v m. m(k \<mapsto> v)" "\<lambda>m. m" "\<lambda>_. True"
  by unfold_locales simp_all

lemma load_prefixes_ok:
  assumes "pm.caches f lf" and "\<forall>a. f (key a) = prefixes a"
  shows "fst (load_prefixes browsers key prefixes n lf) = Some (prefixes (browsers n))"
    and "pm.caches f (snd (load_prefixes browsers key prefixes n lf))"
  using pm.look_value [OF assms(1), of "key (browsers n)"] pm.caches_keep [OF assms(1), of _ "key (browsers n)"] assms
  by (cases "lf (key (browsers n))"; simp add: load_prefixes_def Let_def)+

text \<open>
  The store is invisible: when the selection and the options determine the prefixes, every
  request gets the prefixes that would be built for it, whatever was requested before.
\<close>

lemma store_invisible:
  assumes "\<forall>a b. key a = key b \<longrightarrow> prefixes a = prefixes b"
  shows "load_all browsers key prefixes ns Map.empty = map (\<lambda>n. Some (prefixes (browsers n))) ns"
proof -
  define f where "f k = prefixes (SOME a. key a = k)" for k
  have f: "\<forall>a. f (key a) = prefixes a" using assms someI [of "\<lambda>b. key b = key a" a for a] unfolding f_def by blast
  have "load_all browsers key prefixes ns lf = map (\<lambda>n. Some (prefixes (browsers n))) ns" if "pm.caches f lf" for lf
    using that
  proof (induction ns arbitrary: lf)
    case (Cons n ns)
    then show ?case using load_prefixes_ok [OF Cons.prems f, of browsers n] by (simp add: Let_def split_def)
  qed simp
  moreover have "pm.caches f Map.empty" by (simp add: pm.caches_def)
  ultimately show ?thesis by blast
qed

lemma store_invisible_witness:
  "load_all (\<lambda>n :: nat. n) digits (\<lambda>n. n) [1, 2, 1] Map.empty = [Some 1, Some 2, Some (1 :: nat)]"
proof -
  have "\<forall>a b. digits a = digits b \<longrightarrow> a = b" by (metis option.inject parse_digits_digits)
  then show ?thesis using store_invisible [of digits "\<lambda>n. n" "\<lambda>n. n" "[1, 2, 1]"] by simp
qed

end
