(* ===== verification/Css_Tokenizer.thy ===== *)
theory Css_Tokenizer
  imports Js_Prelude
begin

text \<open>
  The tokenizer of the PostCSS part of \<open>webgui/tailwind.js\<close> (the module \<open>ep\<close>): it cuts a style sheet
  into spaces, brackets, strings, at-words, words and comments, by offsets into the text. Characters
  past the end of the text are \<^const>\<open>None\<close> here (\<open>NaN\<close> there).
\<close>

section \<open>Characters\<close>

definition css_space :: "char \<Rightarrow> bool" where
  "css_space c \<longleftrightarrow> c = newline \<or> c = CHR '' '' \<or> c = CHR 0x09 \<or> c = CHR 0x0D \<or> c = CHR 0x0C"

definition quote_char :: "char \<Rightarrow> bool" where
  "quote_char c \<longleftrightarrow> c = CHR 0x27 \<or> c = CHR 0x22"

definition bracket_char :: "char \<Rightarrow> bool" where
  "bracket_char c \<longleftrightarrow> c \<in> {CHR ''['', CHR '']'', CHR ''{'', CHR ''}'', CHR '':'', CHR '';'', CHR '')''}"

text \<open>The classes of the expressions \<open>kn\<close> (end of an at-word) and \<open>Sn\<close> (end of a word, but for comments).\<close>

definition at_end :: "char \<Rightarrow> bool" where
  "at_end c \<longleftrightarrow> css_space c \<or> quote_char c
     \<or> c \<in> {CHR ''#'', CHR ''('', CHR '')'', CHR ''/'', CHR '';'', CHR ''['', CHR 0x5C, CHR '']'', CHR ''{'', CHR ''}''}"

definition word_end :: "char \<Rightarrow> bool" where
  "word_end c \<longleftrightarrow> css_space c \<or> quote_char c
     \<or> c \<in> {CHR ''!'', CHR ''#'', CHR ''('', CHR '')'', CHR '':'', CHR '';'', CHR ''@'', CHR ''['', CHR 0x5C, CHR '']'', CHR ''{'', CHR ''}''}"

definition hex_digit :: "char \<Rightarrow> bool" where
  "hex_digit c \<longleftrightarrow> (CHR ''0'' \<le> c \<and> c \<le> CHR ''9'') \<or> (CHR ''a'' \<le> c \<and> c \<le> CHR ''f'') \<or> (CHR ''A'' \<le> c \<and> c \<le> CHR ''F'')"

definition char_at :: "string \<Rightarrow> nat \<Rightarrow> char option" where
  "char_at i l = (if l < length i then Some (i ! l) else None)"

text \<open>\<open>indexOf(c, l)\<close>, and the first offset from \<open>l\<close> on at which a test holds.\<close>

definition first_from :: "(char \<Rightarrow> bool) \<Rightarrow> string \<Rightarrow> nat \<Rightarrow> nat option" where
  "first_from p i l =
     (let k = l + length (takeWhile (\<lambda>c. \<not> p c) (drop l i)) in if k < length i then Some k else None)"

text \<open>The end of a word: a character of the class, or a slash before a star. The rest of the text is given.\<close>

fun word_length :: "string \<Rightarrow> nat" where
  "word_length [] = 0"
| "word_length (c # cs) =
     (if word_end c \<or> c = CHR ''/'' \<and> cs \<noteq> [] \<and> hd cs = CHR ''*'' then 0 else Suc (word_length cs))"

text \<open>\<open>r1.test(a)\<close>: a character that ends no line, followed by one of these.\<close>

fun suspicious :: "string \<Rightarrow> bool" where
  "suspicious (c # d # cs) \<longleftrightarrow>
     (c \<noteq> newline \<and> c \<noteq> CHR 0x0D
      \<and> (d = CHR 0x0D \<or> d = newline \<or> quote_char d \<or> d \<in> {CHR ''('', CHR ''/'', CHR 0x5C}))
     \<or> suspicious (d # cs)"
| "suspicious cs \<longleftrightarrow> False"

text \<open>Whether the number of backslashes right before offset \<open>p\<close> is odd.\<close>

definition escaped_at :: "string \<Rightarrow> nat \<Rightarrow> bool" where
  "escaped_at i p = odd (length (takeWhile (\<lambda>c. c = CHR 0x5C) (rev (take p i))))"

text \<open>The loops that look for a closing bracket or quote: the next one after \<open>l\<close> that is not escaped.\<close>

lemma first_from_Some: "first_from p i l = Some k \<Longrightarrow> l \<le> k \<and> k < length i"
  by (auto simp: first_from_def Let_def split: if_splits)

function next_closing :: "char \<Rightarrow> string \<Rightarrow> nat \<Rightarrow> nat option" where
  "next_closing c i l =
     (case first_from (\<lambda>x. x = c) i (Suc l) of
        None \<Rightarrow> None
      | Some q \<Rightarrow> if escaped_at i q then next_closing c i q else Some q)"
  by pat_completeness auto
termination
  by (relation "measure (\<lambda>(c, i, l). length i - l)") (auto dest!: first_from_Some)

declare next_closing.simps [simp del]

section \<open>Tokens\<close>

text \<open>A space has no offsets, a bracket one, the others the offsets of their first and last character.\<close>

datatype token =
    Space string
  | Punct char nat
  | Token string string nat nat

fun token_text :: "token \<Rightarrow> string" where
  "token_text (Space t) = t"
| "token_text (Punct c y) = [c]"
| "token_text (Token k t a b) = t"

text \<open>\<open>i.slice(y, l + 1)\<close>.\<close>

definition piece_of :: "string \<Rightarrow> nat \<Rightarrow> nat \<Rightarrow> string" where
  "piece_of i y l = take (Suc l - y) (drop y i)"

text \<open>A token from \<open>y\<close> to \<open>l\<close>; the next token starts after \<open>l\<close>.\<close>

definition cut :: "string \<Rightarrow> string \<Rightarrow> nat \<Rightarrow> nat \<Rightarrow> token \<times> nat" where
  "cut k i y l = (Token k (piece_of i y l) y l, Suc l)"

text \<open>The end of an escape that starts at \<open>y\<close>.\<close>

definition escape_end :: "string \<Rightarrow> nat \<Rightarrow> nat" where
  "escape_end i y =
     (let n = length (takeWhile (\<lambda>c. c = CHR 0x5C) (drop (Suc y) i)); l = y + n; s = char_at i (Suc l)
      in if even n \<and> s \<noteq> Some (CHR ''/'') \<and> \<not> (\<exists>c. s = Some c \<and> css_space c)
         then (if \<exists>c. s = Some c \<and> hex_digit c
               then (let m = Suc l + length (takeWhile hex_digit (drop (Suc (Suc l)) i))
                     in if char_at i (Suc m) = Some (CHR '' '') then Suc m else m)
               else Suc l)
         else l)"

text \<open>A construct that must be closed, by the character found at \<open>l\<close>; \<open>n\<close> accepts it unclosed, up to \<open>m\<close>.\<close>

definition close_token :: "bool \<Rightarrow> string \<Rightarrow> nat \<Rightarrow> string \<Rightarrow> string \<Rightarrow> nat \<Rightarrow> nat option \<Rightarrow> (token \<times> nat) js" where
  "close_token n i y k what m found =
     (case found of
        Some l \<Rightarrow> Value (cut k i y l)
      | None \<Rightarrow> if n then Value (cut k i y m) else Throw (''Unclosed '' @ what))"

text \<open>After an opening parenthesis; \<open>b\<close> is the last word before it.\<close>

definition open_token :: "bool \<Rightarrow> string \<Rightarrow> nat \<Rightarrow> string \<Rightarrow> (token \<times> nat) js" where
  "open_token n i y b =
     (let h = char_at i (Suc y)
      in if b = ''url'' \<and> \<not> (\<exists>c. h = Some c \<and> (quote_char c \<or> css_space c))
         then close_token n i y ''brackets'' ''bracket'' y (next_closing (CHR '')'') i y)
         else (case first_from (\<lambda>c. c = CHR '')'') i (Suc y) of
            Some l \<Rightarrow> if suspicious (piece_of i y l) then Value (Punct (i ! y) y, Suc y) else Value (cut ''brackets'' i y l)
          | None \<Rightarrow> Value (Punct (i ! y) y, Suc y)))"

definition space_token :: "string \<Rightarrow> nat \<Rightarrow> token \<times> nat" where
  "space_token i y =
     (let l = Suc y + length (takeWhile css_space (drop (Suc y) i)) in (Space (take (l - y) (drop y i)), l))"

definition at_token :: "string \<Rightarrow> nat \<Rightarrow> token \<times> nat" where
  "at_token i y =
     cut ''at-word'' i y (case first_from at_end i (Suc y) of Some k \<Rightarrow> k - 1 | None \<Rightarrow> length i - 1)"

text \<open>
  \<open>nextToken\<close> at offset \<open>y\<close>, before the end of the text: the token, the offset after it, and the words
  that were read. \<open>n\<close> says that unclosed constructs are accepted.
\<close>

definition next_token :: "bool \<Rightarrow> string \<Rightarrow> nat \<Rightarrow> string list \<Rightarrow> ((token \<times> nat) \<times> string list) js" where
  "next_token n i y w =
     (let s = i ! y; same = (\<lambda>p. Value (p, w))
      in if css_space s then same (space_token i y)
         else if bracket_char s then same (Punct s y, Suc y)
         else if s = CHR ''('' then
           js_bind (open_token n i y (if w = [] then [] else last w)) (\<lambda>p. Value (p, butlast w))
         else if quote_char s then js_bind (close_token n i y ''string'' ''string'' (Suc y) (next_closing s i y)) same
         else if s = CHR ''@'' then same (at_token i y)
         else if s = CHR 0x5C then same (cut ''word'' i y (escape_end i y))
         else if s = CHR ''/'' \<and> char_at i (Suc y) = Some (CHR ''*'') then
           js_bind (close_token n i y ''comment'' ''comment'' (length i)
             (map_option (\<lambda>k. y + 2 + k + 1) (str_index (drop (y + 2) i) ''*/''))) same
         else (let l = y + word_length (drop (Suc y) i)
               in Value (cut ''word'' i y l, w @ [piece_of i y l])))"

section \<open>The tokenizer\<close>

text \<open>Its state, with the tokens that were given back, and its operations.\<close>

record tokenizer =
  input_css :: string
  ignore_errors :: bool
  offset_y :: nat
  words :: "string list"
  returned_tokens :: "token list"

definition new_tokenizer :: "string \<Rightarrow> bool \<Rightarrow> tokenizer" where
  "new_tokenizer s n = \<lparr>input_css = s, ignore_errors = n, offset_y = 0, words = [], returned_tokens = []\<rparr>"

definition end_of_file :: "tokenizer \<Rightarrow> bool" where
  "end_of_file t \<longleftrightarrow> returned_tokens t = [] \<and> length (input_css t) \<le> offset_y t"

definition give_back :: "token \<Rightarrow> tokenizer \<Rightarrow> tokenizer" where
  "give_back f t = t\<lparr>returned_tokens := returned_tokens t @ [f]\<rparr>"

text \<open>\<open>nextToken(\<dots>)\<close>, with its option \<open>ignoreUnclosed\<close>; no token is \<open>undefined\<close> at the end of the text.\<close>

definition read_token :: "bool \<Rightarrow> tokenizer \<Rightarrow> (token option \<times> tokenizer) js" where
  "read_token unclosed t =
     (if returned_tokens t \<noteq> [] then
        Value (Some (last (returned_tokens t)), t\<lparr>returned_tokens := butlast (returned_tokens t)\<rparr>)
      else if length (input_css t) \<le> offset_y t then Value (None, t)
      else js_bind (next_token (ignore_errors t \<or> unclosed) (input_css t) (offset_y t) (words t))
             (\<lambda>((f, y), w). Value (Some f, t\<lparr>offset_y := y, words := w\<rparr>)))"

section \<open>Every token is a piece of the text\<close>

lemma cut_simps [simp]: "fst (cut k i y l) = Token k (piece_of i y l) y l" "snd (cut k i y l) = Suc l"
  by (simp_all add: cut_def)

lemma next_closing_after: "next_closing c i y = Some l \<Longrightarrow> y < l"
proof (induction c i y rule: next_closing.induct)
  case (1 c i y)
  then show ?case
    by (subst (asm) (2) next_closing.simps) (auto dest!: first_from_Some split: option.splits if_splits)
qed

lemma escape_end_ge: "y \<le> escape_end i y"
  by (auto simp: escape_end_def Let_def)

text \<open>What every branch does: it moves on, and the text of the token is the text it moved over.\<close>

definition consumes :: "string \<Rightarrow> nat \<Rightarrow> token \<times> nat \<Rightarrow> bool" where
  "consumes i y p \<longleftrightarrow> y < snd p \<and> token_text (fst p) = take (snd p - y) (drop y i)"

lemma consumes_cut: "y \<le> l \<Longrightarrow> consumes i y (cut k i y l)"
  by (simp add: consumes_def piece_of_def Suc_diff_le)

lemma consumes_punct: "y < length i \<Longrightarrow> c = i ! y \<Longrightarrow> consumes i y (Punct c y, Suc y)"
  by (simp add: consumes_def Cons_nth_drop_Suc [symmetric])

text \<open>A token of every kind but spaces is cut out, from \<open>y\<close> on, or is the character at \<open>y\<close>.\<close>

definition shaped :: "string \<Rightarrow> nat \<Rightarrow> token \<times> nat \<Rightarrow> bool" where
  "shaped i y p \<longleftrightarrow> p = (Punct (i ! y) y, Suc y) \<or> (\<exists>k l. y \<le> l \<and> p = cut k i y l)"

lemma shaped_cut: "y \<le> l \<Longrightarrow> shaped i y (cut k i y l)"
  by (auto simp: shaped_def)

lemma shaped_punct: "shaped i y (Punct (i ! y) y, Suc y)"
  by (simp add: shaped_def)

lemma close_token_shaped:
  "close_token n i y k what m found = Value p \<Longrightarrow> y \<le> m \<Longrightarrow> (\<And>l. found = Some l \<Longrightarrow> y \<le> l) \<Longrightarrow> shaped i y p"
  by (auto simp: close_token_def intro: shaped_cut split: option.splits if_splits)

lemma next_closing_ge: "next_closing c i y = Some l \<Longrightarrow> y \<le> l"
  using next_closing_after [of c i y l] by simp

lemma open_token_shaped:
  assumes "open_token n i y b = Value p" shows "shaped i y p"
proof (cases "b = ''url'' \<and> \<not> (\<exists>c. char_at i (Suc y) = Some c \<and> (quote_char c \<or> css_space c))")
  case True
  then have "close_token n i y ''brackets'' ''bracket'' y (next_closing (CHR '')'') i y) = Value p"
    using assms by (simp add: open_token_def Let_def)
  then show ?thesis by (rule close_token_shaped) (simp_all add: next_closing_ge)
next
  case False
  then show ?thesis
    using assms first_from_Some [of "\<lambda>c. c = CHR '')''" i "Suc y"]
    by (auto simp: open_token_def Let_def shaped_punct intro!: shaped_cut split: option.splits if_splits)
qed

lemma at_token_shaped: "y < length i \<Longrightarrow> shaped i y (at_token i y)"
  unfolding at_token_def using first_from_Some [of at_end i "Suc y"]
  by (intro shaped_cut) (auto split: option.split)

lemma next_token_shaped:
  assumes "next_token n i y w = Value (p, w')" and "y < length i" and "\<not> css_space (i ! y)"
  shows "shaped i y p"
  using assms(1,3)
  by (auto simp: next_token_def Let_def shaped_punct at_token_shaped [OF assms(2)] open_token_shaped
      intro: shaped_cut escape_end_ge next_closing_ge less_imp_le [OF assms(2)]
      elim!: close_token_shaped split: if_splits)

lemma next_token_space: "css_space (i ! y) \<Longrightarrow> next_token n i y w = Value (space_token i y, w)"
  by (simp add: next_token_def)

lemma shaped_consumes: "shaped i y p \<Longrightarrow> y < length i \<Longrightarrow> consumes i y p"
  by (auto simp: shaped_def consumes_cut consumes_punct)

lemma next_token_consumes:
  assumes "next_token n i y w = Value (p, w')" and "y < length i"
  shows "consumes i y p"
proof (cases "css_space (i ! y)")
  case True
  then show ?thesis using assms(1) by (auto simp: next_token_space space_token_def consumes_def Let_def)
qed (rule shaped_consumes [OF next_token_shaped [OF assms] assms(2)])

section \<open>All tokens of a text\<close>

text \<open>Reading on until the end of the file.\<close>

function tokenize :: "bool \<Rightarrow> string \<Rightarrow> nat \<Rightarrow> string list \<Rightarrow> token list js" where
  "tokenize n i y w =
     (if length i \<le> y then Value []
      else case next_token n i y w of
        Throw e \<Rightarrow> Throw e
      | Value (p, w') \<Rightarrow> js_bind (tokenize n i (snd p) w') (\<lambda>ts. Value (fst p # ts)))"
  by pat_completeness auto
termination
  by (relation "measure (\<lambda>(n, i, y, w). length i - y)") (auto dest!: next_token_consumes simp: consumes_def)

declare tokenize.simps [simp del]

lemma tokenize_step:
  assumes "tokenize n i y w = Value ts" and "y < length i"
  obtains f z w' ts' where "next_token n i y w = Value ((f, z), w')" "tokenize n i z w' = Value ts'" "ts = f # ts'"
    "y < z" "token_text f = take (z - y) (drop y i)"
proof (cases "next_token n i y w")
  case (Throw e)
  then show ?thesis using assms by (subst (asm) tokenize.simps) simp
next
  case (Value r)
  obtain f z w' where r: "r = ((f, z), w')" by (cases r) auto
  have "consumes i y (f, z)" using next_token_consumes Value r assms(2) by blast
  moreover obtain ts' where "tokenize n i z w' = Value ts'" "ts = f # ts'"
    using assms Value r by (subst (asm) tokenize.simps) auto
  ultimately show ?thesis using that Value r by (simp add: consumes_def)
qed

lemma tokenize_covers: "tokenize n i y w = Value ts \<Longrightarrow> concat (map token_text ts) = drop y i"
proof (induction n i y w arbitrary: ts rule: tokenize.induct)
  case (1 n i y w)
  show ?case
  proof (cases "length i \<le> y")
    case True
    then show ?thesis using 1(2) by (subst (asm) tokenize.simps) simp
  next
    case False
    then obtain f z w' ts' where t: "next_token n i y w = Value ((f, z), w')" "tokenize n i z w' = Value ts'" "ts = f # ts'"
      "y < z" "token_text f = take (z - y) (drop y i)"
      using tokenize_step [OF 1(2)] by (metis not_le)
    have "concat (map token_text ts') = drop z i" using 1(1) [OF False t(1) refl] t(2) by simp
    then show ?thesis using t append_take_drop_id [of "z - y" "drop y i"] by simp
  qed
qed

text \<open>
  C32. Tokens lose nothing: the texts of the tokens of a style sheet, one after the other, are the style
  sheet, whether unclosed constructs are accepted or not.
\<close>

theorem tokens_are_the_text:
  assumes "tokenize n css 0 [] = Value ts"
  shows "concat (map token_text ts) = css"
  using tokenize_covers [OF assms] by simp

lemma next_token_ignoring: "\<exists>r. next_token True i y w = Value r"
proof -
  have c: "\<exists>p. close_token True i y k what m found = Value p" for k what m found
    by (simp add: close_token_def split: option.split)
  then have o: "\<exists>p. open_token True i y b = Value p" for b
    by (simp add: open_token_def Let_def split: option.split)
  have b: "\<exists>r. js_bind x (\<lambda>p. Value (p, v)) = Value r" if "\<exists>p. x = Value p" for x :: "(token \<times> nat) js" and v :: "string list"
    using that by auto
  show ?thesis unfolding next_token_def Let_def using b [OF c] b [OF o] by simp
qed

lemma tokenize_ignoring: "\<exists>ts. tokenize True i y w = Value ts"
proof (induction "length i - y" arbitrary: y w rule: less_induct)
  case less
  show ?case
  proof (cases "length i \<le> y")
    case False
    obtain p w' where p: "next_token True i y w = Value (p, w')" using next_token_ignoring [of i y w] by auto
    then have "y < snd p" using next_token_consumes [OF p] False by (simp add: consumes_def)
    then have "length i - snd p < length i - y" using False by (intro diff_less_mono2) simp_all
    then obtain ts where "tokenize True i (snd p) w' = Value ts" using less by blast
    then show ?thesis using p False by (subst tokenize.simps) simp
  qed (subst tokenize.simps, simp)
qed

text \<open>The constructs that can be unclosed.\<close>

lemma next_token_errors:
  "next_token n i y w = Throw e \<Longrightarrow> \<not> n \<and> e \<in> {''Unclosed bracket'', ''Unclosed string'', ''Unclosed comment''}"
proof -
  have c: "\<not> n \<and> x = ''Unclosed '' @ what" if "close_token n i y k what m found = Throw x" for k what m found x
    using that by (simp add: close_token_def split: option.splits if_splits)
  have o: "\<not> n \<and> x = ''Unclosed bracket''" if "open_token n i y b = Throw x" for b x
    using that c [of "''brackets''" "''bracket''"] by (auto simp: open_token_def Let_def split: option.splits if_splits)
  have b: "x = Throw e" if "js_bind x (\<lambda>p. Value (p, v)) = Throw e" for x :: "(token \<times> nat) js" and v :: "string list"
    using that by (cases x) simp_all
  assume "next_token n i y w = Throw e"
  then show ?thesis
    unfolding next_token_def Let_def by (auto split: if_splits dest!: b o c)
qed

text \<open>
  Tokenizing ends on every text, and with \<open>ignoreErrors\<close> it gives tokens for every text; without,
  the only errors are an unclosed bracket (of an \<open>url\<close>), string or comment.
\<close>

theorem tokenize_errors:
  "(case tokenize n css 0 [] of
      Value ts \<Rightarrow> True
    | Throw e \<Rightarrow> \<not> n \<and> e \<in> {''Unclosed bracket'', ''Unclosed string'', ''Unclosed comment''})"
proof -
  have "tokenize n i y w = Throw e \<Longrightarrow> \<not> n \<and> e \<in> {''Unclosed bracket'', ''Unclosed string'', ''Unclosed comment''}" for n i y w e
  proof (induction n i y w rule: tokenize.induct)
    case (1 n i y w)
    show ?case
    proof (cases "next_token n i y w")
      case (Throw m)
      then have "e = m" using 1(2) by (subst (asm) tokenize.simps) (simp split: if_splits)
      then show ?thesis using next_token_errors Throw by blast
    next
      case (Value r)
      obtain p w' where r: "r = (p, w')" by (cases r)
      have y: "\<not> length i \<le> y" using 1(2) by (subst (asm) tokenize.simps) (simp split: if_splits)
      then have "tokenize n i (snd p) w' = Throw e"
        using 1(2) Value r by (subst (asm) tokenize.simps) (cases "tokenize n i (snd p) w'", simp_all)
      then show ?thesis using 1(1) [OF y Value r [symmetric]] by simp
    qed
  qed
  then show ?thesis by (simp split: js.split) blast
qed

text \<open>Offsets: a token with offsets is the piece of the text that they delimit.\<close>

fun well_placed :: "string \<Rightarrow> token \<Rightarrow> bool" where
  "well_placed i (Space t) \<longleftrightarrow> list_all css_space t \<and> t \<noteq> []"
| "well_placed i (Punct c y) \<longleftrightarrow> char_at i y = Some c"
| "well_placed i (Token k t a b) \<longleftrightarrow> a < length i \<and> a \<le> b \<and> t = piece_of i a b"

lemma well_placed_cut: "y < length i \<Longrightarrow> y \<le> l \<Longrightarrow> well_placed i (fst (cut k i y l))"
  by simp

lemma next_token_placed:
  assumes "next_token n i y w = Value (p, w')" and "y < length i"
  shows "well_placed i (fst p)"
proof (cases "css_space (i ! y)")
  case True
  have "take (Suc (length (takeWhile css_space (drop (Suc y) i)))) (drop y i) = i ! y # takeWhile css_space (drop (Suc y) i)"
    using assms(2) by (simp add: Cons_nth_drop_Suc [symmetric] takeWhile_eq_take [symmetric])
  then show ?thesis
    using True assms(1) by (auto simp: next_token_space space_token_def Let_def list_all_iff dest: set_takeWhileD)
next
  case False
  then show ?thesis using next_token_shaped [OF assms False] assms(2) by (auto simp: shaped_def char_at_def)
qed

text \<open>
  Every token is where it says: a bracket is the character at its offset, a token with two offsets
  starts inside the text and is the text from the first to the second, and a token of space is white
  space and not empty.
\<close>

theorem tokens_well_placed:
  assumes "tokenize n css 0 [] = Value ts"
  shows "list_all (well_placed css) ts"
proof -
  have "tokenize n i y w = Value ts \<Longrightarrow> list_all (well_placed i) ts" for n i y w ts
  proof (induction n i y w arbitrary: ts rule: tokenize.induct)
    case (1 n i y w)
    show ?case
    proof (cases "length i \<le> y")
      case True
      then show ?thesis using 1(2) by (subst (asm) tokenize.simps) simp
    next
      case False
      then obtain f z w' ts' where t: "next_token n i y w = Value ((f, z), w')" "tokenize n i z w' = Value ts'" "ts = f # ts'"
        using tokenize_step [OF 1(2)] by (metis not_le)
      then show ?thesis using 1(1) [OF False t(1) refl] next_token_placed [OF t(1)] False by simp
    qed
  qed
  then show ?thesis using assms by blast
qed

section \<open>Examples\<close>

definition sample_css :: string where
  "sample_css = ''a{b:url(x y)/* c */}''"

definition sample_tokens :: "token list" where
  "sample_tokens = (case tokenize False sample_css 0 [] of Value ts \<Rightarrow> ts | Throw e \<Rightarrow> [])"

lemma sample_tokenize:
  "tokenize False sample_css 0 [] = Value
     [Token ''word'' ''a'' 0 0, Punct (CHR ''{'') 1, Token ''word'' ''b'' 2 2, Punct (CHR '':'') 3,
      Token ''word'' ''url'' 4 6, Token ''brackets'' ''(x y)'' 7 11, Token ''comment'' ''/* c */'' 12 18, Punct (CHR ''}'') 19]"
  by (simp add: sample_css_def tokenize.simps next_token_def cut_def piece_of_def char_at_def css_space_def bracket_char_def
      quote_char_def newline_def word_end_def open_token_def close_token_def next_closing.simps first_from_def escaped_at_def
      Let_def numeral_eq_Suc)

lemma tokens_are_the_text_witness: "concat (map token_text sample_tokens) = sample_css"
  using tokens_are_the_text [OF sample_tokenize] by (simp add: sample_tokens_def sample_tokenize)

lemma tokens_well_placed_witness: "list_all (well_placed sample_css) sample_tokens"
  using tokens_well_placed [OF sample_tokenize] by (simp add: sample_tokens_def sample_tokenize)

text \<open>A token that was given back is the next one that is read.\<close>

lemma read_given_back: "read_token u (give_back f t) = Value (Some f, t)"
  by (simp add: read_token_def give_back_def)

end
