(* ===== verification/Css_Parser.thy ===== *)
theory Css_Parser
  imports Css_Tokenizer Css_Stringifier
begin

text \<open>
  The parser of the PostCSS part of \<open>webgui/tailwind.js\<close> (the class \<open>ip\<close>): it reads tokens and builds the
  style sheet that the stringifier prints. What is not part of a selector, a property or a value is
  recorded in the \<open>raws\<close> of the nodes. Errors are given by their reason; the positions in the text
  (\<open>source\<close>) are left out, they are those of \<open>Css_Input\<close>. The theorems: what was parsed is printed
  as it was written, and parsing ends on every text.
\<close>

section \<open>Tokens of the parser\<close>

text \<open>The first component of a token in the code.\<close>

fun kind :: "token \<Rightarrow> string" where
  "kind (Space t) = ''space''"
| "kind (Punct c y) = [c]"
| "kind (Token k t a b) = k"

definition texts :: "token list \<Rightarrow> string" where
  "texts ts = concat (map token_text ts)"

definition blank :: "token \<Rightarrow> bool" where
  "blank t \<longleftrightarrow> kind t = ''space'' \<or> kind t = ''comment''"

text \<open>\<open>spacesAndCommentsFromEnd\<close>, \<open>spacesFromEnd\<close> and \<open>spacesAndCommentsFromStart\<close>: the text that is cut
  off, and the tokens that are left.\<close>

definition blanks_from_end :: "token list \<Rightarrow> string \<times> token list" where
  "blanks_from_end e = (texts (rev (takeWhile blank (rev e))), rev (dropWhile blank (rev e)))"

definition spaces_from_end :: "token list \<Rightarrow> string \<times> token list" where
  "spaces_from_end e =
     (texts (rev (takeWhile (\<lambda>t. kind t = ''space'') (rev e))), rev (dropWhile (\<lambda>t. kind t = ''space'') (rev e)))"

definition blanks_from_start :: "token list \<Rightarrow> string \<times> token list" where
  "blanks_from_start e = (texts (takeWhile blank e), dropWhile blank e)"

text \<open>
  The loop of \<open>raw\<close>: the text without comments that stand alone and, unless \<open>n\<close>, without the last
  space, and whether nothing was left out. \<open>d\<close> is the kind of the token before.
\<close>

fun clean_value :: "bool \<Rightarrow> string \<Rightarrow> token list \<Rightarrow> string \<Rightarrow> bool \<Rightarrow> string \<times> bool" where
  "clean_value n d [] l c = (l, c)"
| "clean_value n d (s # i) l c =
     (let f = (case i of [] \<Rightarrow> ''empty'' | t # _ \<Rightarrow> kind t);
          apart = (\<lambda>k. k = ''empty'' \<or> k = ''space'')
      in if kind s = ''space'' \<and> i = [] \<and> \<not> n then clean_value n (kind s) i l False
         else if kind s = ''comment'' then
           (if \<not> apart d \<and> \<not> apart f \<and> \<not> (l \<noteq> [] \<and> last l = CHR '','') then clean_value n (kind s) i (l @ token_text s) c
            else clean_value n (kind s) i l False)
         else clean_value n (kind s) i (l @ token_text s) c)"

text \<open>\<open>raw\<close>: the value, and the raw form that is recorded with it.\<close>

definition parse_raw :: "bool \<Rightarrow> token list \<Rightarrow> string \<times> (string \<times> string) option" where
  "parse_raw n i = (let (l, c) = clean_value n ''empty'' i [] True in (l, if c then None else Some (l, texts i)))"

section \<open>The state\<close>

text \<open>The containers that are open: \<open>current\<close> first, the root last.\<close>

datatype container = Root | In_Rule string | In_At_Rule string string

record frame =
  f_raws :: raws
  f_container :: container
  f_nodes :: "node list"

record parser =
  p_tokens :: tokenizer
  p_current :: frame
  p_parents :: "frame list"
  p_spaces :: string
  p_semicolon :: bool

definition new_frame :: "raws \<Rightarrow> container \<Rightarrow> frame" where
  "new_frame r c = \<lparr>f_raws = r, f_container = c, f_nodes = []\<rparr>"

definition new_parser :: "string \<Rightarrow> parser" where
  "new_parser s = \<lparr>p_tokens = new_tokenizer s False, p_current = new_frame no_raws Root, p_parents = [], p_spaces = [],
     p_semicolon = False\<rparr>"

text \<open>\<open>init\<close> of a finished node, which has taken \<open>spaces\<close> into its \<open>raws.before\<close>.\<close>

definition push_node :: "node \<Rightarrow> parser \<Rightarrow> parser" where
  "push_node n p = p\<lparr>p_current := (p_current p)\<lparr>f_nodes := f_nodes (p_current p) @ [n]\<rparr>, p_spaces := [],
     p_semicolon := (is_comment n \<and> p_semicolon p)\<rparr>"

text \<open>\<open>init\<close> of a container, which becomes \<open>current\<close>.\<close>

definition open_container :: "raws \<Rightarrow> container \<Rightarrow> parser \<Rightarrow> parser" where
  "open_container r c p = p\<lparr>p_current := new_frame (r\<lparr>r_before := Some (p_spaces p)\<rparr>) c, p_parents := p_current p # p_parents p,
     p_spaces := [], p_semicolon := False\<rparr>"

text \<open>What \<open>end\<close> and \<open>endFile\<close> record in the raws of the container they close.\<close>

definition closed_raws :: "parser \<Rightarrow> raws" where
  "closed_raws p =
     (let f = p_current p; r = f_raws f
      in r\<lparr>r_semicolon := (if f_nodes f \<noteq> [] then Some (p_semicolon p) else r_semicolon r),
           r_after := Some ((case r_after r of Some x \<Rightarrow> x | None \<Rightarrow> []) @ p_spaces p)\<rparr>)"

fun container_node :: "container \<Rightarrow> raws \<Rightarrow> node list \<Rightarrow> node" where
  "container_node (In_Rule s) r ns = Rule r s ns"
| "container_node (In_At_Rule n q) r ns = At_Rule r n q (Some ns)"
| "container_node Root r ns = Rule r [] ns"

definition end_block :: "parser \<Rightarrow> parser js" where
  "end_block p =
     (case p_parents p of
        [] \<Rightarrow> Throw ''Unexpected }''
      | f # fs \<Rightarrow>
          Value (p\<lparr>p_current := f\<lparr>f_nodes := f_nodes f @ [container_node (f_container (p_current p)) (closed_raws p) (f_nodes (p_current p))]\<rparr>,
                   p_parents := fs, p_spaces := [], p_semicolon := False\<rparr>))"

definition end_file :: "parser \<Rightarrow> sheet js" where
  "end_file p =
     (if p_parents p \<noteq> [] then Throw ''Unclosed block''
      else Value \<lparr>root_raws = closed_raws p, root_nodes = f_nodes (p_current p)\<rparr>)"

text \<open>\<open>freeSemicolon\<close>: a semicolon after a rule belongs to the rule.\<close>

definition free_semicolon :: "token \<Rightarrow> parser \<Rightarrow> parser" where
  "free_semicolon e p =
     (let s = p_spaces p @ token_text e; f = p_current p
      in if f_nodes f = [] then p\<lparr>p_spaces := s\<rparr>
         else (case last (f_nodes f) of
           Rule r sel ns \<Rightarrow>
             if r_own_semicolon r = None \<or> r_own_semicolon r = Some [] then
               p\<lparr>p_current := f\<lparr>f_nodes := butlast (f_nodes f) @ [Rule (r\<lparr>r_own_semicolon := Some s\<rparr>) sel ns]\<rparr>, p_spaces := []\<rparr>
             else p\<lparr>p_spaces := s\<rparr>
         | _ \<Rightarrow> p\<lparr>p_spaces := s\<rparr>))"

section \<open>Comments and rules\<close>

definition comment_node :: "string \<Rightarrow> token \<Rightarrow> node" where
  "comment_node pre e =
     (let i = js_slice (token_text e) 2 (-2);
          left = takeWhile js_space i;
          text = js_trim i
      in if list_all js_space i then Comment (no_raws\<lparr>r_before := Some pre, r_left := Some i, r_right := Some []\<rparr>) []
         else Comment (no_raws\<lparr>r_before := Some pre, r_left := Some left, r_right := Some (drop (length left + length text) i)\<rparr>) text)"

text \<open>\<open>rule\<close>, with the tokens before the brace, and \<open>emptyRule\<close>.\<close>

definition open_rule :: "token list \<Rightarrow> parser \<Rightarrow> parser" where
  "open_rule e p =
     (let (b, e') = blanks_from_end e; (s, v) = parse_raw False e'
      in open_container (no_raws\<lparr>r_between := Some b, r_value := v\<rparr>) (In_Rule s) p)"

definition empty_rule :: "parser \<Rightarrow> parser" where
  "empty_rule p = open_container (no_raws\<lparr>r_between := Some []\<rparr>) (In_Rule []) p"

section \<open>Declarations\<close>

text \<open>The tokens before the first word belong to \<open>raws.before\<close>.\<close>

fun before_word :: "string \<Rightarrow> token list \<Rightarrow> (string \<times> token list) js" where
  "before_word b [] = Throw ''TypeError''"
| "before_word b (t # e) =
     (if kind t = ''word'' then Value (b, t # e)
      else if e = [] then Throw ''Unknown word''
      else before_word (b @ token_text t) e)"

text \<open>Everything up to the colon, which must not hold another word.\<close>

fun up_to_colon :: "string \<Rightarrow> token list \<Rightarrow> (string \<times> token list) js" where
  "up_to_colon b [] = Value (b, [])"
| "up_to_colon b (s # e) =
     (if kind s = '':'' then Value (b @ token_text s, e)
      else if kind s = ''word'' \<and> list_ex word_char (token_text s) then Throw ''Unknown word''
      else up_to_colon (b @ token_text s) e)"

text \<open>A property with a hack: its first character goes to \<open>raws.before\<close>.\<close>

definition hacked :: "string \<Rightarrow> bool" where
  "hacked p \<longleftrightarrow> p \<noteq> [] \<and> (hd p = CHR ''_'' \<or> hd p = CHR ''*'')"

text \<open>An \<open>important\<close> at index \<open>p\<close> whose exclamation mark is another token: the tokens that are left, and \<open>d\<close>.\<close>

fun split_important :: "token list \<Rightarrow> nat \<Rightarrow> string \<Rightarrow> token list \<times> string" where
  "split_important f 0 d = (f, d)"
| "split_important f (Suc p) d =
     (if has_prefix (js_trim d) ''!'' \<and> kind (f ! Suc p) \<noteq> ''space'' then (f, d)
      else split_important (butlast f) p (token_text (last f) @ d))"

text \<open>The loop over the tokens from the last one: the tokens of the value, \<open>important\<close> and \<open>raws.important\<close>.\<close>

fun find_important :: "token list \<Rightarrow> nat \<Rightarrow> bool \<times> string option \<Rightarrow> token list \<times> bool \<times> string option" where
  "find_important e 0 i = (e, i)"
| "find_important e (Suc c) i =
     (let s = e ! c
      in if js_lower (token_text s) = ''!important'' then
           (let (b, e') = spaces_from_end (take c e); f = b @ texts (drop c e)
            in (e', True, if f \<noteq> '' !important'' then Some f else snd i))
         else
           (let (e', i') =
              (if js_lower (token_text s) = ''important'' then
                 (let (g, d) = split_important e c []
                  in if has_prefix (js_trim d) ''!'' then (g, True, Some d) else (e, i))
               else (e, i))
            in if blank s then find_important e' c i' else (e', i')))"

text \<open>\<open>colon\<close>: the first colon outside of parentheses that does not follow \<open>progid\<close>; \<open>i\<close> is the token before.\<close>

fun colon_in :: "int \<Rightarrow> token option \<Rightarrow> token list \<Rightarrow> bool js" where
  "colon_in t i [] = Value False"
| "colon_in t i (n # e) =
     (let t' = (if kind n = ''('' then t + 1 else if kind n = '')'' then t - 1 else t)
      in if t' = 0 \<and> kind n = '':'' then
           (case i of
              None \<Rightarrow> Throw ''Double colon''
            | Some b \<Rightarrow> if kind b = ''word'' \<and> token_text b = ''progid'' then colon_in t' i e else Value True)
         else colon_in t' (Some n) e)"

definition check_missed_semicolon :: "token list \<Rightarrow> unit js" where
  "check_missed_semicolon e = js_bind (colon_in 0 None e) (\<lambda>c. if c then Throw ''Missed semicolon'' else Value ())"

text \<open>The value of a declaration, from the tokens after the colon.\<close>

definition decl_value :: "bool \<Rightarrow> string \<Rightarrow> string \<Rightarrow> string \<Rightarrow> token list \<Rightarrow> node js" where
  "decl_value custom pre between prop e =
     (let a = takeWhile blank e;
          (e1, imp, raw_imp) = find_important (dropWhile blank e) (length (dropWhile blank e)) (False, None);
          some = list_ex (\<lambda>t. \<not> blank t) e1;
          between' = (if some then between @ texts a else between);
          (v, r) = parse_raw custom (if some then e1 else a @ e1);
          n = Decl (no_raws\<lparr>r_before := Some pre, r_between := Some between', r_important := raw_imp, r_value := r\<rparr>) prop v imp
      in if CHR '':'' \<in> set v \<and> \<not> custom then js_bind (check_missed_semicolon e1) (\<lambda>_. Value n) else Value n)"

text \<open>\<open>decl\<close>, after \<open>spaces\<close>: the node, and whether it ends in a semicolon.\<close>

definition decl_node :: "string \<Rightarrow> token list \<Rightarrow> bool \<Rightarrow> (node \<times> bool) js" where
  "decl_node spaces e custom =
     (let semi = (kind (last e) = '';''); e0 = (if semi then butlast e else e)
      in js_bind (before_word spaces e0) (\<lambda>(pre, e1).
           let name = (\<lambda>t. kind t \<noteq> '':'' \<and> \<not> blank t); prop = texts (takeWhile name e1)
           in js_bind (up_to_colon [] (dropWhile name e1)) (\<lambda>(between, e2).
                js_bind
                  (if hacked prop then decl_value custom (pre @ [hd prop]) between (tl prop) e2
                   else decl_value custom pre between prop e2)
                  (\<lambda>n. Value (n, semi)))))"

definition add_decl :: "token list \<Rightarrow> bool \<Rightarrow> parser \<Rightarrow> parser js" where
  "add_decl e custom p =
     js_bind (decl_node (p_spaces p) e custom) (\<lambda>(n, semi). Value ((push_node n p)\<lparr>p_semicolon := semi\<rparr>))"

section \<open>Reading tokens\<close>

text \<open>What is left to read: the tokens that were given back, and the rest of the text.\<close>

definition pending :: "tokenizer \<Rightarrow> string" where
  "pending t = texts (rev (returned_tokens t)) @ drop (offset_y t) (input_css t)"

lemma texts_simps [simp]: "texts [] = []" "texts (t # ts) = token_text t @ texts ts" "texts (xs @ ys) = texts xs @ texts ys"
  by (simp_all add: texts_def)

lemma next_token_pending:
  assumes "next_token n i y w = Value ((f, z), w')" and "y < length i"
  shows "token_text f @ drop z i = drop y i" and "token_text f \<noteq> []"
proof -
  have c: "consumes i y (f, z)" using next_token_consumes [OF assms] .
  then show "token_text f @ drop z i = drop y i"
    using append_take_drop_id [of "z - y" "drop y i"] by (simp add: consumes_def)
  show "token_text f \<noteq> []" using c assms(2) by (auto simp: consumes_def)
qed

lemma read_token_cases:
  assumes "read_token u t = Value (r, t')"
  obtains (given) f where "r = Some f" "returned_tokens t \<noteq> []" "f = last (returned_tokens t)"
      "t' = t\<lparr>returned_tokens := butlast (returned_tokens t)\<rparr>"
  | (ended) "r = None" "t' = t" "returned_tokens t = []" "length (input_css t) \<le> offset_y t"
  | (new) f y w where "r = Some f" "returned_tokens t = []" "offset_y t < length (input_css t)"
      "next_token (ignore_errors t \<or> u) (input_css t) (offset_y t) (words t) = Value ((f, y), w)"
      "t' = t\<lparr>offset_y := y, words := w\<rparr>"
  using assms by (auto simp: read_token_def split: if_splits)

lemma read_token_pending:
  assumes "read_token u t = Value (Some f, t')"
  shows "pending t = token_text f @ pending t'"
  using assms
proof (cases rule: read_token_cases)
  case (given g)
  then show ?thesis by (cases "returned_tokens t" rule: rev_cases) (simp_all add: pending_def)
next
  case (new g y w)
  then show ?thesis using next_token_pending(1) [OF new(4,3)] by (simp add: pending_def)
qed simp

lemma read_token_end:
  assumes "read_token u t = Value (None, t')" shows "t' = t" "end_of_file t" "pending t = []"
  using assms by (cases rule: read_token_cases; simp add: pending_def end_of_file_def)+

lemma end_of_file_iff: "end_of_file t \<longleftrightarrow> pending t = [] \<and> returned_tokens t = []"
  by (auto simp: end_of_file_def pending_def)

lemma give_back_pending [simp]: "pending (give_back f t) = token_text f @ pending t"
  by (simp add: pending_def give_back_def)

text \<open>The number of tokens that can still be read is at most this.\<close>

definition tokens_left :: "tokenizer \<Rightarrow> nat" where
  "tokens_left t = length (returned_tokens t) + (length (input_css t) - offset_y t)"

lemma read_token_left: "read_token u t = Value (Some f, t') \<Longrightarrow> tokens_left t' < tokens_left t"
  by (erule read_token_cases) (auto simp: tokens_left_def dest!: next_token_consumes simp: consumes_def)

lemma give_back_left [simp]: "tokens_left (give_back f t) = Suc (tokens_left t)"
  by (simp add: tokens_left_def give_back_def)

section \<open>At-rules\<close>

text \<open>The stack of the brackets that are open, by their closing tokens: what the token of kind \<open>i\<close> does to it.\<close>

definition bracket_step :: "bool \<Rightarrow> string \<Rightarrow> string list \<Rightarrow> string list" where
  "bracket_step brace i c =
     (if i = ''('' then '')'' # c else if i = ''['' then '']'' # c else if i = ''{'' \<and> brace then ''}'' # c
      else if c \<noteq> [] \<and> i = hd c then tl c else c)"

text \<open>How the tokens of an at-rule end: at a semicolon, a brace, the end of the file after a token, or at once.\<close>

datatype at_end_by = By_Semicolon | By_Open | By_Close | By_File | At_Once

function at_tokens :: "tokenizer \<Rightarrow> string list \<Rightarrow> token list \<Rightarrow> (tokenizer \<times> token list \<times> at_end_by) js" where
  "at_tokens t c l =
     (if end_of_file t then Value (t, l, At_Once)
      else case read_token False t of
        Throw e \<Rightarrow> Throw e
      | Value (None, t') \<Rightarrow> Throw ''TypeError''
      | Value (Some e, t') \<Rightarrow>
          (let i = kind e; c' = bracket_step (c \<noteq> []) i c
           in if c' = [] \<and> i = '';'' then Value (t', l, By_Semicolon)
              else if c' = [] \<and> i = ''{'' then Value (t', l, By_Open)
              else if c' = [] \<and> i = ''}'' then Value (t', l, By_Close)
              else if end_of_file t' then Value (t', l @ [e], By_File)
              else at_tokens t' c' (l @ [e])))"
  by pat_completeness auto
termination
  by (relation "measure (\<lambda>(t, c, l). tokens_left t)") (auto dest: read_token_left)

text \<open>The at-rule with name \<open>n\<close>, from its tokens: \<open>params\<close> and the raws, and the spaces that are left.\<close>

definition at_raws :: "string \<Rightarrow> token list \<Rightarrow> at_end_by \<Rightarrow> string \<times> raws \<times> string" where
  "at_raws pre l how =
     (let (b, l1) = blanks_from_end l
      in if l1 = [] then ([], no_raws\<lparr>r_before := Some pre, r_between := Some b, r_after_name := Some []\<rparr>, [])
         else
           (let (a, l2) = blanks_from_start l1; (v, r) = parse_raw False l2
            in (v, no_raws\<lparr>r_before := Some pre, r_between := Some (if how = By_File then [] else b),
                           r_after_name := Some a, r_value := r\<rparr>,
                if how = By_File then b else [])))"

definition at_rule :: "token \<Rightarrow> parser \<Rightarrow> parser js" where
  "at_rule e p =
     (let name = drop 1 (token_text e)
      in if name = [] then Throw ''At-rule without name''
         else js_bind (at_tokens (p_tokens p) [] []) (\<lambda>(t, l, how).
           let (v, r, rest) = at_raws (p_spaces p) l how; q = p\<lparr>p_tokens := t\<rparr>
           in if how = By_Open then Value (open_container r (In_At_Rule name v) q)
              else
                (let q' = (push_node (At_Rule r name v None) q)\<lparr>p_spaces := rest, p_semicolon := (how = By_Semicolon)\<rparr>
                 in if how = By_Close then end_block q' else Value q')))"

section \<open>Rules and declarations\<close>

text \<open>
  The loop of \<open>other\<close>, with the token \<open>c\<close> just read: how it ends, the tokens, the brackets that are
  still open, and whether a colon was seen outside of brackets.
\<close>

datatype other_end_by = Decl_Ends | Rule_Opens | Stopped bool

datatype other_step = Continue "string list" bool | Finish other_end_by

definition other_step :: "bool \<Rightarrow> string list \<Rightarrow> bool \<Rightarrow> string \<Rightarrow> other_step" where
  "other_step custom a n i =
     (let a' = bracket_step (custom \<and> n) i a
      in if a \<noteq> [] \<or> a' \<noteq> [] then Continue a' n
         else if i = '';'' then Finish (if n then Decl_Ends else Stopped False)
         else if i = ''{'' then Finish Rule_Opens
         else if i = ''}'' then Finish (Stopped True)
         else Continue a' (n \<or> i = '':''))"

function other_tokens ::
  "bool \<Rightarrow> tokenizer \<Rightarrow> token list \<Rightarrow> string list \<Rightarrow> bool \<Rightarrow> token \<Rightarrow> (other_end_by \<times> tokenizer \<times> token list \<times> string list \<times> bool) js" where
  "other_tokens custom t l a n c =
     (case other_step custom a n (kind c) of
        Finish how \<Rightarrow>
          if how = Stopped True then Value (how, give_back c t, l, a, n) else Value (how, t, l @ [c], a, n)
      | Continue a' n' \<Rightarrow>
          (case read_token False t of
             Throw e \<Rightarrow> Throw e
           | Value (None, t') \<Rightarrow> Value (Stopped False, t', l @ [c], a', n')
           | Value (Some c', t') \<Rightarrow> other_tokens custom t' (l @ [c]) a' n' c'))"
  by pat_completeness auto
termination
  by (relation "measure (\<lambda>(u, t, l, a, n, c). tokens_left t)") (auto dest: read_token_left)

declare at_tokens.simps [simp del] other_tokens.simps [simp del]

lemma other_step_Finish:
  "other_step u a n i = Finish h \<Longrightarrow> a = [] \<and> (h = Stopped True \<longrightarrow> i = ''}'') \<and> (h = Decl_Ends \<longrightarrow> i = '';'' \<and> n)
     \<and> (h = Rule_Opens \<longrightarrow> i = ''{'') \<and> (h = Stopped False \<longrightarrow> i = '';'' \<and> \<not> n)"
  by (auto simp: other_step_def Let_def split: if_splits)

text \<open>One token more, in the loop of \<open>other\<close>.\<close>

lemma other_tokens_cases:
  assumes "other_tokens u t l a n c = Value (how, t', l', a', n')"
  obtains (closes) "other_step u a n (kind c) = Finish how" "how = Stopped True" "t' = give_back c t" "l' = l" "a' = []" "n' = n"
      "kind c = ''}''"
  | (finishes) "other_step u a n (kind c) = Finish how" "how \<noteq> Stopped True" "t' = t" "l' = l @ [c]" "a' = []" "n' = n"
  | (file_ends) "other_step u a n (kind c) = Continue a' n'" "how = Stopped False" "read_token False t = Value (None, t')"
      "l' = l @ [c]"
  | (goes_on) b m d s where "other_step u a n (kind c) = Continue b m" "read_token False t = Value (Some d, s)"
      "other_tokens u s (l @ [c]) b m d = Value (how, t', l', a', n')"
proof (cases "other_step u a n (kind c)")
  case (Finish h)
  have "a = []" "h = Stopped True \<Longrightarrow> kind c = ''}''" using other_step_Finish [OF Finish] by simp_all
  moreover have "other_tokens u t l a n c =
      (if h = Stopped True then Value (h, give_back c t, l, a, n) else Value (h, t, l @ [c], a, n))"
    by (subst other_tokens.simps) (simp add: Finish)
  ultimately show ?thesis using assms Finish by (cases "h = Stopped True") (auto intro: closes finishes)
next
  case (Continue b m)
  note s = assms [unfolded other_tokens.simps [of u t l a n c] Continue other_step.case]
  then obtain r s' where r: "read_token False t = Value (r, s')" by (cases "read_token False t") auto
  show ?thesis
  proof (cases r)
    case None
    then show ?thesis using s r file_ends Continue by simp
  next
    case (Some d)
    then show ?thesis using s r goes_on [OF Continue] by simp
  qed
qed

text \<open>The trailing blanks of a declaration without semicolon are given back.\<close>

definition give_back_blanks :: "token list \<Rightarrow> tokenizer \<Rightarrow> token list \<times> tokenizer" where
  "give_back_blanks l t = (rev (dropWhile blank (rev l)), fold give_back (takeWhile blank (rev l)) t)"

definition other :: "token \<Rightarrow> parser \<Rightarrow> parser js" where
  "other e p =
     (let custom = has_prefix (token_text e) ''--''
      in js_bind (other_tokens custom (p_tokens p) [] [] False e) (\<lambda>(how, t, l, a, n).
           case how of
             Decl_Ends \<Rightarrow> add_decl l custom (p\<lparr>p_tokens := t\<rparr>)
           | Rule_Opens \<Rightarrow> Value (open_rule (butlast l) (p\<lparr>p_tokens := t\<rparr>))
           | Stopped close \<Rightarrow>
               if a \<noteq> [] then Throw ''Unclosed bracket''
               else if (close \<or> end_of_file t) \<and> n then
                 (let (l', t') = (if custom then (l, t) else give_back_blanks l t)
                  in add_decl l' custom (p\<lparr>p_tokens := t'\<rparr>))
               else Throw (if l = [] then ''TypeError'' else ''Unknown word'')))"

section \<open>Parsing\<close>

text \<open>One round of \<open>parse\<close>, with the token \<open>e\<close>.\<close>

definition parse_step :: "token \<Rightarrow> parser \<Rightarrow> parser js" where
  "parse_step e p =
     (let k = kind e
      in if k = ''space'' then Value (p\<lparr>p_spaces := p_spaces p @ token_text e\<rparr>)
         else if k = '';'' then Value (free_semicolon e p)
         else if k = ''}'' then end_block p
         else if k = ''comment'' then Value (push_node (comment_node (p_spaces p) e) p)
         else if k = ''at-word'' then at_rule e p
         else if k = ''{'' then Value (empty_rule p)
         else other e p)"

lemma give_back_all_left: "tokens_left (fold give_back ts t) = tokens_left t + length ts"
  by (induction ts arbitrary: t) simp_all

lemma other_tokens_left:
  "other_tokens u t l a n c = Value (how, t', l', a', n') \<Longrightarrow> tokens_left t' + length l' \<le> tokens_left t + length l + 1"
proof (induction u t l a n c rule: other_tokens.induct)
  case (1 u t l a n c)
  from 1(2) show ?case
  proof (cases rule: other_tokens_cases)
    case (file_ends)
    then show ?thesis using read_token_end(1) [of False t t'] by simp
  next
    case (goes_on b m d s)
    then have "tokens_left t' + length l' \<le> tokens_left s + length (l @ [c]) + 1"
      using 1(1) by simp
    then show ?thesis using read_token_left [OF goes_on(2)] by simp
  qed simp_all
qed

text \<open>The token by which an at-rule ends.\<close>

fun ends_by :: "at_end_by \<Rightarrow> string \<Rightarrow> bool" where
  "ends_by By_Semicolon i \<longleftrightarrow> i = '';''"
| "ends_by By_Open i \<longleftrightarrow> i = ''{''"
| "ends_by By_Close i \<longleftrightarrow> i = ''}''"
| "ends_by _ i \<longleftrightarrow> False"

lemma at_tokens_cases:
  assumes "at_tokens t c l = Value (t', l', how)"
  obtains (at_once) "end_of_file t" "t' = t" "l' = l" "how = At_Once"
  | (ends) e where "read_token False t = Value (Some e, t')" "ends_by how (kind e)" "l' = l"
  | (file_ends) e where "read_token False t = Value (Some e, t')" "end_of_file t'" "l' = l @ [e]" "how = By_File"
  | (goes_on) e s where "read_token False t = Value (Some e, s)"
      "at_tokens s (bracket_step (c \<noteq> []) (kind e) c) (l @ [e]) = Value (t', l', how)"
proof (cases "end_of_file t")
  case True
  then have "at_tokens t c l = Value (t, l, At_Once)" by (subst at_tokens.simps) simp
  then show ?thesis using assms at_once True by simp
next
  case False
  obtain e s where r: "read_token False t = Value (Some e, s)"
    using assms False by (subst (asm) at_tokens.simps) (auto split: js.splits option.splits)
  let ?c = "bracket_step (c \<noteq> []) (kind e) c"
  have "at_tokens t c l =
      (if ?c = [] \<and> kind e = '';'' then Value (s, l, By_Semicolon)
       else if ?c = [] \<and> kind e = ''{'' then Value (s, l, By_Open)
       else if ?c = [] \<and> kind e = ''}'' then Value (s, l, By_Close)
       else if end_of_file s then Value (s, l @ [e], By_File) else at_tokens s ?c (l @ [e]))"
    by (subst at_tokens.simps) (simp add: False r Let_def)
  then consider "ends_by how (kind e)" "t' = s" "l' = l" | "end_of_file s" "t' = s" "l' = l @ [e]" "how = By_File"
    | "at_tokens s ?c (l @ [e]) = Value (t', l', how)"
    unfolding assms by (simp split: if_splits)
  then show ?thesis by cases (use r ends file_ends goes_on in simp_all)
qed

lemma at_tokens_left: "at_tokens t c l = Value (t', l', how) \<Longrightarrow> tokens_left t' \<le> tokens_left t"
proof (induction "tokens_left t" arbitrary: t c l rule: less_induct)
  case less
  from less.prems show ?case
  proof (cases rule: at_tokens_cases)
    case (goes_on e s)
    then show ?thesis using less.hyps [OF _ goes_on(2)] read_token_left [OF goes_on(1)] by simp
  qed (auto dest: read_token_left)
qed

lemma decl_node_cons: "decl_node b e u = Value r \<Longrightarrow> e \<noteq> []"
  by (cases "e = []") (auto simp: decl_node_def Let_def split: if_splits)

lemma other_tokens_last:
  "other_tokens u t l a n c = Value (how, t', l', a', n') \<Longrightarrow>
     (how = Rule_Opens \<longrightarrow> l' \<noteq> [] \<and> kind (last l') = ''{'') \<and> (how = Decl_Ends \<longrightarrow> l' \<noteq> [] \<and> kind (last l') = '';'')"
proof (induction u t l a n c rule: other_tokens.induct)
  case (1 u t l a n c)
  from 1(2) show ?case
  proof (cases rule: other_tokens_cases)
    case (finishes)
    then show ?thesis using other_step_Finish [of u a n "kind c" how] by auto
  next
    case (goes_on b m d s)
    then show ?thesis using 1(1) by simp
  qed simp_all
qed

lemma add_decl_tokens: "add_decl e u p = Value p' \<Longrightarrow> e \<noteq> [] \<and> p_tokens p' = p_tokens p"
  by (auto simp: add_decl_def push_node_def dest: decl_node_cons)

lemma other_cases:
  assumes "other e p = Value p'"
  obtains (opens) t l a n where
      "other_tokens (has_prefix (token_text e) ''--'') (p_tokens p) [] [] False e = Value (Rule_Opens, t, l, a, n)"
      "p' = open_rule (butlast l) (p\<lparr>p_tokens := t\<rparr>)"
  | (declares) t l a n where
      "other_tokens (has_prefix (token_text e) ''--'') (p_tokens p) [] [] False e = Value (Decl_Ends, t, l, a, n)"
      "add_decl l (has_prefix (token_text e) ''--'') (p\<lparr>p_tokens := t\<rparr>) = Value p'"
  | (stops) b t l t' l' where
      "other_tokens (has_prefix (token_text e) ''--'') (p_tokens p) [] [] False e = Value (Stopped b, t, l, [], True)"
      "b \<or> end_of_file t"
      "(l', t') = (if has_prefix (token_text e) ''--'' then (l, t) else give_back_blanks l t)"
      "add_decl l' (has_prefix (token_text e) ''--'') (p\<lparr>p_tokens := t'\<rparr>) = Value p'"
proof -
  let ?u = "has_prefix (token_text e) ''--''"
  obtain how t l a n where o: "other_tokens ?u (p_tokens p) [] [] False e = Value (how, t, l, a, n)"
    using assms by (auto simp: other_def Let_def)
  note s = assms [unfolded other_def Let_def o js_bind.simps split_conv]
  show ?thesis
  proof (cases how)
    case (Stopped b)
    obtain l' t' where g: "(if ?u then (l, t) else give_back_blanks l t) = (l', t')" by (metis surj_pair)
    have "a = []" "b \<or> end_of_file t" n using s Stopped by (auto split: if_splits)
    then show ?thesis using stops [of b t l l' t'] o s Stopped g by (simp split: if_splits)
  qed (use s o opens declares in simp_all)
qed

lemma give_back_blanks_split:
  assumes "give_back_blanks l t = (l', t')"
  obtains bs where "l = l' @ bs" "list_all blank bs" "t' = fold give_back (rev bs) t"
    "l' = [] \<or> \<not> blank (last l')"
proof -
  have "l = rev (dropWhile blank (rev l)) @ rev (takeWhile blank (rev l))"
    by (metis rev_append rev_rev_ident takeWhile_dropWhile_id)
  moreover have "list_all blank (rev (takeWhile blank (rev l)))" by (auto simp: list_all_iff dest: set_takeWhileD)
  moreover have "l' = [] \<or> \<not> blank (last l')"
    using assms hd_dropWhile [of blank "rev l"] by (auto simp: give_back_blanks_def last_rev)
  ultimately show ?thesis using assms that [of "rev (takeWhile blank (rev l))"] by (simp add: give_back_blanks_def)
qed

lemma other_left:
  assumes "other e p = Value p'" shows "tokens_left (p_tokens p') \<le> tokens_left (p_tokens p)"
  using assms
proof (cases rule: other_cases)
  case (opens t l a n)
  then have "tokens_left t \<le> tokens_left (p_tokens p)"
    using other_tokens_left [OF opens(1)] other_tokens_last [OF opens(1)] by (cases l) auto
  then show ?thesis using opens by (auto simp: open_rule_def open_container_def Let_def split: prod.splits)
next
  case (declares t l a n)
  then show ?thesis using other_tokens_left [OF declares(1)] add_decl_tokens [OF declares(2)] by (cases l) auto
next
  case (stops b t l t' l')
  have "tokens_left t' + length l' = tokens_left t + length l"
    using stops(3) by (auto simp: give_back_all_left elim!: give_back_blanks_split [OF sym] split: if_splits)
  then show ?thesis using other_tokens_left [OF stops(1)] add_decl_tokens [OF stops(4)] by (cases l') auto
qed

lemma at_rule_cases:
  assumes "at_rule e p = Value p'"
  obtains t l how v r rest where "at_tokens (p_tokens p) [] [] = Value (t, l, how)" "at_raws (p_spaces p) l how = (v, r, rest)"
    "drop 1 (token_text e) \<noteq> []"
    "how = By_Open \<Longrightarrow> p' = open_container r (In_At_Rule (drop 1 (token_text e)) v) (p\<lparr>p_tokens := t\<rparr>)"
    "how = By_Close \<Longrightarrow> end_block ((push_node (At_Rule r (drop 1 (token_text e)) v None) (p\<lparr>p_tokens := t\<rparr>))
       \<lparr>p_spaces := rest, p_semicolon := False\<rparr>) = Value p'"
    "how \<noteq> By_Open \<Longrightarrow> how \<noteq> By_Close \<Longrightarrow> p' = (push_node (At_Rule r (drop 1 (token_text e)) v None) (p\<lparr>p_tokens := t\<rparr>))
       \<lparr>p_spaces := rest, p_semicolon := (how = By_Semicolon)\<rparr>"
proof -
  have n: "drop 1 (token_text e) \<noteq> []" using assms by (auto simp: at_rule_def Let_def split: if_splits)
  obtain t l how where a: "at_tokens (p_tokens p) [] [] = Value (t, l, how)"
    using assms n by (auto simp: at_rule_def Let_def simp del: drop_eq_Nil)
  obtain v r rest where b: "at_raws (p_spaces p) l how = (v, r, rest)" by (metis surj_pair)
  show ?thesis
    using that [OF a b n] assms n unfolding at_rule_def Let_def a js_bind.simps split_conv b by (cases how) simp_all
qed

lemma end_block_tokens: "end_block q = Value q' \<Longrightarrow> p_tokens q' = p_tokens q"
  by (auto simp: end_block_def split: list.splits)

lemma parse_step_left:
  assumes "parse_step e p = Value p'" shows "tokens_left (p_tokens p') \<le> tokens_left (p_tokens p)"
proof -
  have a: "tokens_left (p_tokens p') \<le> tokens_left (p_tokens p)" if "at_rule e p = Value p'"
    using that
  proof (cases rule: at_rule_cases)
    case (1 t l how v r rest)
    then have "p_tokens p' = t"
      by (cases how) (auto simp: open_container_def push_node_def dest!: end_block_tokens)
    then show ?thesis using at_tokens_left [OF 1(1)] by simp
  qed
  show ?thesis
    using assms a end_block_tokens [of p p'] other_left [of e p p']
    by (auto simp: parse_step_def free_semicolon_def push_node_def empty_rule_def open_container_def Let_def
        split: if_splits node.splits)
qed

function parse_loop :: "parser \<Rightarrow> sheet js" where
  "parse_loop p =
     (if end_of_file (p_tokens p) then end_file p
      else case read_token False (p_tokens p) of
        Throw e \<Rightarrow> Throw e
      | Value (None, t) \<Rightarrow> Throw ''TypeError''
      | Value (Some e, t) \<Rightarrow>
          (case parse_step e (p\<lparr>p_tokens := t\<rparr>) of
             Throw x \<Rightarrow> Throw x
           | Value p' \<Rightarrow> parse_loop p'))"
  by pat_completeness auto
termination
  by (relation "measure (\<lambda>p. tokens_left (p_tokens p))") (auto dest!: read_token_left parse_step_left)

declare parse_loop.simps [simp del]

definition parse_css :: "string \<Rightarrow> sheet js" where
  "parse_css s = parse_loop (new_parser s)"

end
