(* ===== verification/Css_Lossless.thy ===== *)
theory Css_Lossless
  imports Css_Parser
begin

text \<open>
  The parser and the stringifier of PostCSS together: a style sheet that was parsed is printed as it was
  written. First the text of a node whose \<open>raws\<close> are all recorded, then an invariant of the parser: the
  text of the nodes it has built and of the containers that are open, the spaces it holds and the text
  that is still to be read are the style sheet.
\<close>

section \<open>The text of a sheet on which everything is recorded\<close>

definition recorded :: "string option \<Rightarrow> string" where
  "recorded x = (case x of Some s \<Rightarrow> s | None \<Rightarrow> [])"

lemma recorded_simps [simp]: "recorded (Some s) = s" "recorded None = []"
  by (simp_all add: recorded_def)

fun complete :: "node \<Rightarrow> bool" where
  "complete (Comment r x) \<longleftrightarrow> r_before r \<noteq> None \<and> r_left r \<noteq> None \<and> r_right r \<noteq> None"
| "complete (Decl r p v i) \<longleftrightarrow> r_before r \<noteq> None \<and> r_between r \<noteq> None"
| "complete (Rule r s ns) \<longleftrightarrow> r_before r \<noteq> None \<and> r_between r \<noteq> None \<and> r_after r \<noteq> None
     \<and> (ns = [] \<or> r_semicolon r \<noteq> None) \<and> list_all complete ns"
| "complete (At_Rule r n p None) \<longleftrightarrow> r_before r \<noteq> None"
| "complete (At_Rule r n p (Some ns)) \<longleftrightarrow> r_before r \<noteq> None \<and> r_between r \<noteq> None \<and> r_after r \<noteq> None
     \<and> (ns = [] \<or> r_semicolon r \<noteq> None) \<and> list_all complete ns"

text \<open>The text of a node after \<open>raws.before\<close>; \<open>t\<close> asks for a semicolon.\<close>

definition block_text :: "raws \<Rightarrow> string \<Rightarrow> string \<Rightarrow> string" where
  "block_text r start body = start @ recorded (r_between r) @ ''{'' @ body @ recorded (r_after r) @ ''}''"

fun node_text :: "bool \<Rightarrow> node \<Rightarrow> string" and nodes_text :: "bool \<Rightarrow> node list \<Rightarrow> string" where
  "node_text t (Comment r x) = ''/*'' @ recorded (r_left r) @ x @ recorded (r_right r) @ ''*/''"
| "node_text t (Decl r p v i) = decl_text r (recorded (r_between r)) p v i t"
| "node_text t (Rule r s ns) =
     block_text r (raw_value r s) (nodes_text (r_semicolon r = Some True) ns) @ recorded (r_own_semicolon r)"
| "node_text t (At_Rule r n p None) = at_start r n p @ recorded (r_between r) @ (if t then '';'' else [])"
| "node_text t (At_Rule r n p (Some ns)) = block_text r (at_start r n p) (nodes_text (r_semicolon r = Some True) ns)"
| "nodes_text semi [] = []"
| "nodes_text semi (x # xs) =
     recorded (r_before (raws_of x)) @ node_text (semi \<or> (\<exists>y\<in>set xs. \<not> is_comment y)) x @ nodes_text semi xs"

lemma node_text_comment: "is_comment x \<Longrightarrow> node_text t x = node_text t' x"
  by (cases x) simp_all

lemma complete_before: "complete x \<Longrightarrow> r_before (raws_of x) \<noteq> None"
  by (cases x rule: complete.cases) simp_all

lemma pick_recorded: "x \<noteq> None \<Longrightarrow> pick x k sh = recorded x"
  by (auto simp: pick_def)

lemma gap_before_recorded: "complete x \<Longrightarrow> gap_before f d x sh = recorded (r_before (raws_of x))"
  using complete_before [of x] by (auto simp: gap_before_def)

lemma print_complete:
  shows "complete n \<longrightarrow> concat (print_node sh d t n) = node_text t n"
    and "r_between r \<noteq> None \<longrightarrow> r_after r \<noteq> None \<longrightarrow> (ns = [] \<or> r_semicolon r \<noteq> None) \<longrightarrow> list_all complete ns \<longrightarrow>
      concat (print_block sh d r start ns) = block_text r start (nodes_text (r_semicolon r = Some True) ns)"
    and "list_all complete ns \<longrightarrow>
      (\<forall>pre. i = length pre \<longrightarrow> m = last_printed (pre @ ns) \<longrightarrow> concat (print_nodes sh d rt i m semi ns) = nodes_text semi ns)"
proof (induction sh d t n and sh d r start ns and sh d rt i m semi ns
    rule: print_node_print_block_print_nodes.induct)
  case (1 sh d t r x)
  then show ?case by (simp add: pick_recorded)
next
  case (2 sh d t r p v i)
  then show ?case by (simp add: pick_recorded)
next
  case (3 sh d t r s ns)
  then show ?case by (auto simp: recorded_def split: option.split simp del: print_block.simps)
next
  case (4 sh d t r n p ns)
  then show ?case by (cases ns) (auto simp: recorded_def split: option.split simp del: print_block.simps)
next
  case (5 sh d r start ns)
  show ?case
  proof (cases "ns = []")
    case True
    then show ?thesis by (simp add: block_text_def pick_recorded)
  next
    case False
    have s: "(pick (own_semicolon (r_semicolon r)) Semicolon sh \<noteq> []) = (r_semicolon r = Some True)" if "r_semicolon r \<noteq> None"
      using that by (auto simp: pick_def own_semicolon_def split: if_splits)
    show ?thesis
      using 5 False s by (auto simp: block_text_def pick_recorded gap_after_def recorded_def dest!: spec [of _ "[]"])
  qed
next
  case (6 sh d rt n t semi)
  then show ?case by simp
next
  case (7 sh d rt n t semi x xs)
  show ?case
  proof (intro impI allI)
    fix pre
    assume a: "list_all complete (x # xs)" "n = length pre" "t = last_printed (pre @ x # xs)"
    let ?l = "\<exists>y\<in>set xs. \<not> is_comment y"
    have x: "concat (print_node sh d (t \<noteq> n \<or> semi) x) = node_text (semi \<or> ?l) x"
    proof (cases "is_comment x")
      case True
      then show ?thesis using 7 a node_text_comment [OF True] by auto
    next
      case False
      have "(t \<noteq> n) = ?l" using last_printed_later [OF False, of pre xs] a(2,3) by simp
      then show ?thesis using 7 a by (simp add: disj_commute)
    qed
    have "concat (print_nodes sh d rt (Suc n) t semi xs) = nodes_text semi xs"
      using 7 a by (auto dest!: spec [of _ "pre @ [x]"])
    then show "concat (print_nodes sh d rt n t semi (x # xs)) = nodes_text semi (x # xs)"
      using x a by (simp add: gap_before_recorded)
  qed
qed

text \<open>The text of a sheet, and that the stringifier prints it.\<close>

definition sheet_text :: "sheet \<Rightarrow> string" where
  "sheet_text sh = nodes_text (r_semicolon (root_raws sh) = Some True) (root_nodes sh) @ recorded (r_after (root_raws sh))"

lemma stringify_complete:
  assumes "list_all complete (root_nodes sh)"
  shows "concat (fst (stringify sh Map.empty)) = sheet_text sh"
proof -
  have "concat (print_nodes sh 0 True 0 (last_printed (root_nodes sh)) (r_semicolon (root_raws sh) = Some True) (root_nodes sh))
      = nodes_text (r_semicolon (root_raws sh) = Some True) (root_nodes sh)"
    using print_complete(3) [of "root_nodes sh" 0 "last_printed (root_nodes sh)" sh 0 True] assms by simp
  moreover have "fst (stringify sh Map.empty) = print sh"
    using stringify_gives [OF cache_good_empty] by (simp add: gives_def)
  ultimately show ?thesis by (simp add: print_def sheet_text_def recorded_def split: option.split)
qed

section \<open>Adding nodes\<close>

text \<open>A node that is printed with or without a semicolon.\<close>

definition needs_semicolon :: "node \<Rightarrow> bool" where
  "needs_semicolon n \<longleftrightarrow> (\<exists>r p v i. n = Decl r p v i) \<or> (\<exists>r n' p. n = At_Rule r n' p None)"

text \<open>The last node that is not a comment needs a semicolon, or there is none.\<close>

definition dangling :: "node list \<Rightarrow> bool" where
  "dangling ns \<longleftrightarrow> (case dropWhile is_comment (rev ns) of [] \<Rightarrow> False | n # _ \<Rightarrow> needs_semicolon n)"

lemma node_text_same: "\<not> needs_semicolon n \<Longrightarrow> node_text t n = node_text t' n"
  by (cases n rule: complete.cases) (simp_all add: needs_semicolon_def)

lemma nodes_text_comment: "is_comment x \<Longrightarrow> nodes_text s (ns @ [x]) = nodes_text s ns @ recorded (r_before (raws_of x)) @ node_text s x"
  by (induction ns) (simp_all add: node_text_comment [of x s True])

lemma nodes_text_append:
  "\<not> is_comment x \<Longrightarrow> nodes_text s (ns @ [x]) = nodes_text True ns @ recorded (r_before (raws_of x)) @ node_text s x"
  by (induction ns) simp_all

lemma dangling_snoc [simp]: "dangling (ns @ [x]) \<longleftrightarrow> (if is_comment x then dangling ns else needs_semicolon x)"
  by (simp add: dangling_def)

lemma dangling_Nil [simp]: "\<not> dangling []"
  by (simp add: dangling_def)

lemma nodes_text_settled: "\<not> dangling ns \<Longrightarrow> nodes_text s ns = nodes_text t ns"
proof (induction ns rule: rev_induct)
  case (snoc x ns)
  show ?case
  proof (cases "is_comment x")
    case True
    then show ?thesis using snoc node_text_comment [OF True, of s t] by (simp add: nodes_text_comment)
  next
    case False
    then show ?thesis using snoc node_text_same [of x s t] by (simp add: nodes_text_append)
  qed
qed simp

section \<open>Tokens\<close>

text \<open>What the parser relies on: no token is empty, and tokens of some kinds look as they must.\<close>

definition proper :: "token \<Rightarrow> bool" where
  "proper f \<longleftrightarrow> token_text f \<noteq> []
     \<and> (kind f = ''comment'' \<longrightarrow> (\<exists>m. token_text f = ''/*'' @ m @ ''*/''))
     \<and> (kind f = ''at-word'' \<longrightarrow> hd (token_text f) = CHR ''@'')
     \<and> (kind f = ''space'' \<longrightarrow> list_all css_space (token_text f))
     \<and> (length (kind f) = 1 \<longrightarrow> token_text f = kind f)"

definition sound_tokens :: "tokenizer \<Rightarrow> bool" where
  "sound_tokens t \<longleftrightarrow> \<not> ignore_errors t \<and> list_all proper (returned_tokens t)"

lemma proper_cut:
  assumes "token_text (fst (cut k i y l)) \<noteq> []" and "length k \<noteq> 1" and "k \<notin> {''comment'', ''at-word'', ''space''}"
  shows "proper (fst (cut k i y l))"
  using assms by (simp add: proper_def)

lemma comment_shape:
  assumes "y < length i" and "i ! y = CHR ''/''" and "char_at i (Suc y) = Some (CHR ''*'')"
    and "str_index (drop (y + 2) i) ''*/'' = Some k"
  shows "\<exists>m. piece_of i y (y + 2 + k + 1) = ''/*'' @ m @ ''*/''"
proof -
  have d: "drop y i = ''/*'' @ drop (y + 2) i"
    using assms(1-3) by (simp add: char_at_def Cons_nth_drop_Suc [symmetric] split: if_splits)
  have "take (k + 2) (drop (y + 2) i) = take k (drop (y + 2) i) @ ''*/''"
    using str_index_Some [OF assms(4)] take_add [of k 2 "drop (y + 2) i"] by (simp add: eval_nat_numeral)
  then have "piece_of i y (y + 2 + k + 1) = ''/*'' @ take k (drop (y + 2) i) @ ''*/''"
    unfolding piece_of_def d using arg_cong [of "Suc (y + 2 + k + 1) - y" "Suc (Suc (k + 2))" "\<lambda>n. take n (''/*'' @ drop (y + 2) i)"]
    by simp
  then show ?thesis by blast
qed

lemma next_token_proper:
  assumes "next_token False i y w = Value ((f, z), w')" and "y < length i"
  shows "proper f"
proof -
  have ne: "token_text f \<noteq> []" using next_token_pending(2) [OF assms] .
  consider (space) "css_space (i ! y)" | (comment) "\<not> css_space (i ! y)" "i ! y = CHR ''/''" "char_at i (Suc y) = Some (CHR ''*'')"
    | (at) "\<not> css_space (i ! y)" "i ! y = CHR ''@''"
    | (rest) "\<not> css_space (i ! y)" "\<not> (i ! y = CHR ''/'' \<and> char_at i (Suc y) = Some (CHR ''*''))" "i ! y \<noteq> CHR ''@''" by blast
  then show ?thesis
  proof cases
    case space
    let ?s = "takeWhile css_space (drop (Suc y) i)"
    have "f = fst (space_token i y)" using assms(1) space by (simp add: next_token_space)
    then have "f = Space (i ! y # ?s)"
      by (simp add: space_token_def Let_def Cons_nth_drop_Suc [OF assms(2), symmetric] takeWhile_eq_take [symmetric])
    then show ?thesis using space by (auto simp: proper_def list_all_iff dest: set_takeWhileD)
  next
    case comment
    then obtain k where k: "str_index (drop (y + 2) i) ''*/'' = Some k" "f = fst (cut ''comment'' i y (y + 2 + k + 1))"
      using assms(1) by (auto simp: next_token_def Let_def bracket_char_def quote_char_def close_token_def cut_def split: option.splits)
    then show ?thesis using ne comment_shape [OF assms(2) comment(2,3) k(1)] by (simp add: proper_def)
  next
    case at
    then have "f = fst (at_token i y)" using assms(1) by (simp add: next_token_def Let_def bracket_char_def quote_char_def)
    then show ?thesis
      using ne at by (auto simp: proper_def at_token_def piece_of_def Cons_nth_drop_Suc [OF assms(2), symmetric] take_Cons' split: option.splits)
  next
    case rest
    then have "(\<exists>c. f = Punct c y) \<or> (\<exists>k l. f = fst (cut k i y l) \<and> k \<in> {''brackets'', ''string'', ''word''})"
      using assms(1)
      by (auto simp: next_token_def Let_def open_token_def close_token_def cut_def split: if_splits option.splits)
    then show ?thesis using ne by (auto simp: proper_def)
  qed
qed

lemma read_token_sound:
  assumes "read_token False t = Value (Some f, t')" and "sound_tokens t"
  shows "proper f \<and> sound_tokens t'"
  using assms(1)
proof (cases rule: read_token_cases)
  case (given g)
  then show ?thesis using assms(2) by (auto simp: sound_tokens_def list_all_iff dest: in_set_butlastD)
next
  case (new g y w)
  then show ?thesis using assms(2) next_token_proper by (auto simp: sound_tokens_def)
qed simp_all

section \<open>Values and declarations lose nothing\<close>

lemma texts_rev_split: "texts (rev (dropWhile P (rev e))) @ texts (rev (takeWhile P (rev e))) = texts e"
  by (metis rev_append rev_rev_ident takeWhile_dropWhile_id texts_simps(3))

lemma texts_split: "texts (takeWhile P e) @ texts (dropWhile P e) = texts e"
  by (metis takeWhile_dropWhile_id texts_simps(3))

lemma blanks_from_end_texts: "blanks_from_end e = (b, e') \<Longrightarrow> texts e' @ b = texts e"
  by (auto simp: blanks_from_end_def texts_rev_split)

lemma blanks_from_start_texts: "blanks_from_start e = (b, e') \<Longrightarrow> b @ texts e' = texts e"
  by (auto simp: blanks_from_start_def texts_split)

lemma clean_value_True: "clean_value n d i l c = (l', True) \<Longrightarrow> c \<and> l' = l @ texts i"
  by (induction n d i l c rule: clean_value.induct) (auto simp: Let_def split: if_splits)

lemma parse_raw_texts: "parse_raw n i = (v, r) \<Longrightarrow> raw_value (s\<lparr>r_value := r\<rparr>) v = texts i"
  using clean_value_True [of n "''empty''" i "[]" True]
  by (auto simp: parse_raw_def raw_value_def split: prod.splits if_splits)

lemma raw_value_cong: "r_value s = r_value s' \<Longrightarrow> raw_value s v = raw_value s' v"
  by (simp add: raw_value_def)

lemma clean_value_keeps:
  "list_all proper i \<Longrightarrow> i \<noteq> [] \<Longrightarrow> \<not> blank (last i) \<Longrightarrow> fst (clean_value n d i l c) \<noteq> []"
proof (induction n d i l c rule: clean_value.induct)
  case (2 n d s i l c)
  show ?case
  proof (cases "i = []")
    case True
    then show ?thesis using 2(5-7) by (simp add: blank_def proper_def)
  next
    case False
    then show ?thesis using 2 by (auto simp: Let_def)
  qed
qed simp

lemma before_word_texts: "before_word b e = Value (b', e') \<Longrightarrow> b' @ texts e' = b @ texts e \<and> set e' \<subseteq> set e"
  by (induction b e rule: before_word.induct) (auto split: if_splits)

lemma up_to_colon_texts: "up_to_colon b e = Value (b', e') \<Longrightarrow> b' @ texts e' = b @ texts e \<and> set e' \<subseteq> set e"
  by (induction b e rule: up_to_colon.induct) (auto split: if_splits)

text \<open>What \<open>important\<close> prints.\<close>

definition important_text :: "bool \<times> string option \<Rightarrow> string" where
  "important_text i = (if fst i then (case snd i of Some (x # xs) \<Rightarrow> x # xs | _ \<Rightarrow> '' !important'') else [])"

lemma split_important_texts:
  "split_important f p d = (g, d') \<Longrightarrow> p < length f \<Longrightarrow> texts g @ d' = texts f @ d \<and> set g \<subseteq> set f"
proof (induction f p d rule: split_important.induct)
  case (2 f p d)
  then have "f \<noteq> []" by auto
  then obtain h t where f: "f = h @ [t]" by (cases f rule: rev_cases) auto
  show ?case
  proof (cases "has_prefix (js_trim d) ''!'' \<and> kind (f ! Suc p) \<noteq> ''space''")
    case True
    then show ?thesis using 2(2) by auto
  next
    case False
    then show ?thesis using 2 by (auto simp: f)
  qed
qed simp

lemma blank_not_important:
  assumes "proper s" and "blank s"
  shows "js_lower (token_text s) \<noteq> ''important'' \<and> js_lower (token_text s) \<noteq> ''!important''"
proof -
  obtain c cs where c: "token_text s = c # cs" using assms(1) by (cases "token_text s") (auto simp: proper_def)
  then have "css_space c \<or> c = CHR ''/''" using assms by (auto simp: proper_def blank_def)
  then show ?thesis unfolding c js_lower_def by (auto simp: css_space_def newline_def)
qed

lemma find_important_texts:
  assumes "list_all proper e"
  shows "find_important e c (False, None) = (e', imp, r) \<Longrightarrow> c \<le> length e \<Longrightarrow>
    texts e' @ important_text (imp, r) = texts e \<and> set e' \<subseteq> set e"
proof (induction c)
  case 0
  then show ?case by (simp add: important_text_def)
next
  case (Suc c)
  have p: "proper (e ! c)" using assms Suc.prems(2) by (simp add: list_all_length)
  consider (mark) "js_lower (token_text (e ! c)) = ''!important''" | (word) "js_lower (token_text (e ! c)) = ''important''"
    | (none) "js_lower (token_text (e ! c)) \<noteq> ''!important''" "js_lower (token_text (e ! c)) \<noteq> ''important''" by blast
  then show ?case
  proof cases
    case mark
    obtain b f where b: "spaces_from_end (take c e) = (b, f)" by (metis surj_pair)
    have t: "texts f @ b = texts (take c e)" "set f \<subseteq> set e"
      using b by (auto simp: spaces_from_end_def texts_rev_split dest!: set_dropWhileD in_set_takeD)
    have "e ! c \<in> set (drop c e)" using Suc.prems(2) by (metis Cons_nth_drop_Suc Suc_le_eq list.set_intros(1))
    then have n: "texts (drop c e) \<noteq> []" using p by (auto simp: texts_def proper_def)
    have "e' = f \<and> important_text (imp, r) = b @ texts (drop c e)"
      using Suc.prems(1) mark b n by (auto simp: Let_def important_text_def split: list.split if_splits)
    then show ?thesis
      using t texts_simps(3) [of "take c e" "drop c e"] by (metis append_assoc append_take_drop_id)
  next
    case word
    obtain g d where g: "split_important e c [] = (g, d)" by (metis surj_pair)
    have t: "texts g @ d = texts e" "set g \<subseteq> set e" using split_important_texts [OF g] Suc.prems(2) by simp_all
    have nb: "\<not> blank (e ! c)" using blank_not_important [OF p] word by blast
    have "has_prefix (js_trim d) ''!'' \<Longrightarrow> d \<noteq> []" by (auto simp: has_prefix_def js_trim_def js_trim_end_def)
    then show ?thesis
      using Suc.prems(1) word g t nb by (auto simp: Let_def important_text_def split: if_splits list.split)
  next
    case none
    then show ?thesis using Suc by (auto simp: Let_def important_text_def split: if_splits)
  qed
qed

lemma decl_value_texts:
  assumes "decl_value custom pre between prop e = Value n" and "list_all proper e"
  shows "\<exists>r v imp. n = Decl r prop v imp \<and> r_before r = Some pre \<and> r_between r \<noteq> None
    \<and> (\<forall>s. node_text s n = prop @ between @ texts e @ (if s then '';'' else []))"
proof -
  let ?a = "takeWhile blank e" and ?e = "dropWhile blank e"
  obtain e1 imp ri where f: "find_important ?e (length ?e) (False, None) = (e1, imp, ri)" by (metis surj_pair)
  define some where "some = list_ex (\<lambda>t. \<not> blank t) e1"
  obtain v r where v: "parse_raw custom (if some then e1 else ?a @ e1) = (v, r)" by (metis surj_pair)
  define R where "R = no_raws\<lparr>r_before := Some pre, r_between := Some (if some then between @ texts ?a else between), r_important := ri\<rparr>"
  have n: "n = Decl (R\<lparr>r_value := r\<rparr>) prop v imp"
    using assms(1) by (auto simp: decl_value_def f v some_def [symmetric] R_def Let_def split: if_splits)
  have "list_all proper ?e" using assms(2) by (auto simp: list_all_iff dest: set_dropWhileD)
  then have t: "texts e1 @ important_text (imp, ri) = texts ?e" using find_important_texts [OF _ f] by simp
  have "raw_value (R\<lparr>r_value := r\<rparr>) v = texts (if some then e1 else ?a @ e1)" using parse_raw_texts [OF v] by simp
  then have "node_text s n = prop @ between @ texts ?a @ texts ?e @ (if s then '';'' else [])" for s
    unfolding t [symmetric] by (simp add: n decl_text_def R_def important_text_def)
  then show ?thesis using n by (simp add: R_def texts_split)
qed

text \<open>The last token of a declaration is dropped when it is a semicolon, and printed again.\<close>

lemma decl_node_texts:
  assumes "decl_node spaces e custom = Value (n, semi)" and "list_all proper e"
  shows "is_decl n \<and> complete n \<and> recorded (r_before (raws_of n)) @ node_text semi n = spaces @ texts e"
proof -
  define e0 where "e0 = (if semi then butlast e else e)"
  have s: "semi = (kind (last e) = '';'')" and e: "e \<noteq> []"
    using assms(1) decl_node_cons by (auto simp: decl_node_def Let_def split: if_splits)
  have e0: "texts e = texts e0 @ (if semi then '';'' else [])" "set e0 \<subseteq> set e"
  proof -
    have "proper (last e)" using assms(2) e by (simp add: list_all_iff)
    then have "semi \<Longrightarrow> token_text (last e) = '';''" using s by (simp add: proper_def)
    then show "texts e = texts e0 @ (if semi then '';'' else [])"
      using e texts_simps(3) [of "butlast e" "[last e]"] by (simp add: e0_def)
  qed (auto simp: e0_def dest: in_set_butlastD)
  obtain pre e1 where b: "before_word spaces e0 = Value (pre, e1)"
    using assms(1) by (auto simp: decl_node_def Let_def s e0_def)
  let ?name = "\<lambda>t. kind t \<noteq> '':'' \<and> \<not> blank t" let ?name_text = "texts (takeWhile ?name e1)"
  obtain between e2 where c: "up_to_colon [] (dropWhile ?name e1) = Value (between, e2)"
    using assms(1) b by (auto simp: decl_node_def Let_def s e0_def)
  have v: "(if hacked ?name_text then decl_value custom (pre @ [hd ?name_text]) between (tl ?name_text) e2
      else decl_value custom pre between ?name_text e2) = Value n"
    using assms(1) b c by (auto simp: decl_node_def Let_def s e0_def)
  have p: "list_all proper e2"
    using assms(2) e0(2) before_word_texts [OF b] up_to_colon_texts [OF c] set_dropWhileD [of _ ?name e1]
    unfolding list_all_iff by blast
  have "pre @ ?name_text @ between @ texts e2 = spaces @ texts e0"
    using before_word_texts [OF b] up_to_colon_texts [OF c] texts_split [of ?name e1] by simp
  moreover have "is_decl n \<and> complete n \<and> recorded (r_before (raws_of n)) @ node_text semi n
      = pre @ ?name_text @ between @ texts e2 @ (if semi then '';'' else [])"
  proof (cases "hacked ?name_text")
    case True
    then have "?name_text = hd ?name_text # tl ?name_text" by (simp add: hacked_def)
    then show ?thesis using v True decl_value_texts [OF _ p, of custom "pre @ [hd ?name_text]" between "tl ?name_text" n] by force
  next
    case False
    then show ?thesis using v decl_value_texts [OF _ p, of custom pre between ?name_text n] by force
  qed
  ultimately show ?thesis by (simp add: e0(1))
qed

section \<open>Comments and at-rules lose nothing\<close>

lemma js_trim_split: "takeWhile js_space i @ js_trim i @ drop (length (takeWhile js_space i) + length (js_trim i)) i = i"
proof -
  let ?d = "dropWhile js_space i"
  have t: "?d = js_trim i @ rev (takeWhile js_space (rev ?d))"
    unfolding js_trim_def js_trim_end_def by (metis rev_append rev_rev_ident takeWhile_dropWhile_id)
  have "drop (length (takeWhile js_space i) + length (js_trim i)) i = drop (length (js_trim i)) ?d"
    by (metis drop_drop add.commute dropWhile_eq_drop)
  also have "\<dots> = rev (takeWhile js_space (rev ?d))" by (subst t) simp
  finally show ?thesis using t by (metis takeWhile_dropWhile_id)
qed

lemma comment_node_texts:
  assumes "proper e" and "kind e = ''comment''"
  shows "is_comment (comment_node pre e) \<and> complete (comment_node pre e)
    \<and> recorded (r_before (raws_of (comment_node pre e))) @ node_text s (comment_node pre e) = pre @ token_text e"
proof -
  obtain m where m: "token_text e = ''/*'' @ m @ ''*/''" using assms by (auto simp: proper_def)
  have i: "js_slice (token_text e) 2 (- 2) = m" unfolding m by (simp add: js_slice_def js_index_def)
  show ?thesis
    unfolding comment_node_def i Let_def using js_trim_split [of m] by (simp add: m)
qed

lemma at_raws_texts:
  assumes "at_raws pre l how = (v, r, rest)" and "list_all proper l"
  shows "at_start r n v @ recorded (r_between r) @ rest = ''@'' @ n @ texts l \<and> (how \<noteq> By_File \<longrightarrow> rest = [])
    \<and> r_before r = Some pre \<and> r_between r \<noteq> None \<and> r_after r = None \<and> r_own_semicolon r = None"
proof -
  obtain b l1 where b: "blanks_from_end l = (b, l1)" by (metis surj_pair)
  show ?thesis
  proof (cases "l1 = []")
    case True
    then show ?thesis using assms(1) blanks_from_end_texts [OF b] by (auto simp: at_raws_def b at_start_def raw_value_def no_raws_def)
  next
    case False
    obtain a l2 where a: "blanks_from_start l1 = (a, l2)" by (metis surj_pair)
    obtain q where v: "parse_raw False l2 = (v, q)"
      using assms(1) False by (cases "parse_raw False l2") (auto simp: at_raws_def b a)
    have "set l1 \<subseteq> set l" using b set_dropWhileD [of _ blank "rev l"] by (force simp: blanks_from_end_def)
    moreover have "\<not> blank (last l1)" using b False hd_dropWhile [of blank "rev l"] by (auto simp: blanks_from_end_def last_rev)
    ultimately have l1: "\<not> blank (last l1)" "set l1 \<subseteq> set l" by simp_all
    then have "l2 \<noteq> []" "last l2 = last l1" "set l2 \<subseteq> set l1"
      using a False last_in_set [OF False] dropWhile_last [OF last_in_set [OF False], of blank]
      by (auto simp: blanks_from_start_def dropWhile_eq_Nil_conv dest: set_dropWhileD)
    then have "v \<noteq> []"
      using v l1 assms(2) clean_value_keeps [of l2 False "''empty''" "[]" True]
      by (auto simp: parse_raw_def list_all_iff split: prod.splits)
    have rv: "raw_value s v = texts l2" if "r_value s = q" for s
      using parse_raw_texts [OF v, of s] raw_value_cong [of s "s\<lparr>r_value := q\<rparr>" v] that by simp
    have "texts l = a @ texts l2 @ b" using blanks_from_end_texts [OF b] blanks_from_start_texts [OF a] by (metis append_assoc)
    then show ?thesis
      using assms(1) False \<open>v \<noteq> []\<close> by (auto simp: at_raws_def b a v at_start_def no_raws_def rv)
  qed
qed

section \<open>Reading loses nothing\<close>

text \<open>
  Tokens that were given back: blanks, which the end of a block or of the file follows.
\<close>

definition closing :: "tokenizer \<Rightarrow> bool" where
  "closing t \<longleftrightarrow> (\<exists>ts bs. returned_tokens t = ts @ bs \<and> list_all blank bs
     \<and> ((\<exists>d. ts = [d] \<and> kind d = ''}'') \<or> ts = [] \<and> length (input_css t) \<le> offset_y t))"

lemma read_closing:
  assumes "read_token False t = Value (Some f, t')" and "closing t"
  shows "blank f \<and> closing t' \<or> kind f = ''}'' \<and> returned_tokens t' = []"
proof -
  obtain ts bs where c: "returned_tokens t = ts @ bs" "list_all blank bs"
    "(\<exists>d. ts = [d] \<and> kind d = ''}'') \<or> ts = [] \<and> length (input_css t) \<le> offset_y t"
    using assms(2) by (auto simp: closing_def)
  from assms(1) show ?thesis
  proof (cases rule: read_token_cases)
    case (given g)
    show ?thesis
    proof (cases bs rule: rev_cases)
      case Nil
      then show ?thesis using c given by auto
    next
      case (snoc bs' b)
      then have "closing t'" using c given by (auto simp: closing_def butlast_append)
      then show ?thesis using c given snoc by simp
    qed
  next
    case (new g y w)
    then show ?thesis using c by auto
  qed simp
qed

lemma read_returned: "read_token False t = Value (Some f, t') \<Longrightarrow> returned_tokens t = [] \<Longrightarrow> returned_tokens t' = []"
  by (erule read_token_cases) auto

text \<open>The text of the token by which an at-rule ends.\<close>

fun end_text :: "at_end_by \<Rightarrow> string" where
  "end_text By_Semicolon = '';''"
| "end_text By_Open = ''{''"
| "end_text By_Close = ''}''"
| "end_text _ = []"

lemma ends_by_text: "ends_by how (kind e) \<Longrightarrow> proper e \<Longrightarrow> token_text e = end_text how"
  by (cases how) (simp_all add: proper_def)

lemma at_tokens_texts:
  "at_tokens t c l = Value (t', l', how) \<Longrightarrow> sound_tokens t \<Longrightarrow> returned_tokens t = [] \<Longrightarrow> list_all proper l \<Longrightarrow>
     sound_tokens t' \<and> returned_tokens t' = [] \<and> list_all proper l' \<and> texts l @ pending t = texts l' @ end_text how @ pending t'
     \<and> (how = By_File \<or> how = At_Once \<longrightarrow> end_of_file t')"
proof (induction "tokens_left t" arbitrary: t c l rule: less_induct)
  case less
  from less.prems(1) show ?case
  proof (cases rule: at_tokens_cases)
    case (at_once)
    then show ?thesis using less.prems by simp
  next
    case (ends e)
    then show ?thesis
      using less.prems read_token_sound [OF ends(1)] read_returned [OF ends(1)] read_token_pending [OF ends(1)] ends_by_text [OF ends(2)]
      by (cases how) auto
  next
    case (file_ends e)
    then show ?thesis
      using less.prems read_token_sound [OF file_ends(1)] read_returned [OF file_ends(1)] read_token_pending [OF file_ends(1)] by auto
  next
    case (goes_on e s)
    then show ?thesis
      using less.hyps [OF read_token_left [OF goes_on(1)] goes_on(2)] less.prems read_token_sound [OF goes_on(1)]
        read_returned [OF goes_on(1)] read_token_pending [OF goes_on(1)] by auto
  qed
qed

lemma other_tokens_texts:
  "other_tokens u t l a n c = Value (how, t', l', a', n') \<Longrightarrow> sound_tokens t \<Longrightarrow> returned_tokens t = [] \<Longrightarrow>
   list_all proper l \<Longrightarrow> proper c \<Longrightarrow>
     sound_tokens t' \<and> list_all proper l' \<and> texts l @ token_text c @ pending t = texts l' @ pending t'
     \<and> (if how = Stopped True then \<exists>d. returned_tokens t' = [d] \<and> kind d = ''}'' else returned_tokens t' = [])"
proof (induction u t l a n c rule: other_tokens.induct)
  case (1 u t l a n c)
  from 1(2) show ?case
  proof (cases rule: other_tokens_cases)
    case (closes)
    then show ?thesis using 1(3-6) by (auto simp: sound_tokens_def give_back_def pending_def)
  next
    case (finishes)
    then show ?thesis using 1(3-6) by simp
  next
    case (file_ends)
    then show ?thesis using 1(3-6) read_token_end(1) [OF file_ends(3)] by simp
  next
    case (goes_on b m d s)
    then show ?thesis
      using 1(1) [OF goes_on(1,2)] 1(3-6) read_token_sound [OF goes_on(2)] read_returned [OF goes_on(2)]
        read_token_pending [OF goes_on(2)] by simp
  qed
qed

section \<open>The invariant of the parser\<close>

text \<open>The text of a container that is open, up to its brace, and of the containers around it.\<close>

fun open_text :: "container \<Rightarrow> raws \<Rightarrow> string" where
  "open_text Root r = []"
| "open_text (In_Rule s) r = recorded (r_before r) @ raw_value r s @ recorded (r_between r) @ ''{''"
| "open_text (In_At_Rule n v) r = recorded (r_before r) @ at_start r n v @ recorded (r_between r) @ ''{''"

definition frame_text :: "bool \<Rightarrow> frame \<Rightarrow> string" where
  "frame_text s f = open_text (f_container f) (f_raws f) @ nodes_text s (f_nodes f)"

definition built :: "parser \<Rightarrow> string" where
  "built p = concat (rev (map (frame_text True) (p_parents p))) @ frame_text (p_semicolon p) (p_current p) @ p_spaces p"

definition frame_ok :: "frame \<Rightarrow> bool" where
  "frame_ok f \<longleftrightarrow> list_all complete (f_nodes f) \<and> r_after (f_raws f) = None \<and> r_own_semicolon (f_raws f) = None
     \<and> (f_container f \<noteq> Root \<longrightarrow> r_before (f_raws f) \<noteq> None \<and> r_between (f_raws f) \<noteq> None)"

fun frames_ok :: "frame \<Rightarrow> frame list \<Rightarrow> bool" where
  "frames_ok f [] \<longleftrightarrow> frame_ok f \<and> f_container f = Root"
| "frames_ok f (g # gs) \<longleftrightarrow> frame_ok f \<and> f_container f \<noteq> Root \<and> frames_ok g gs"

text \<open>The last declaration of the block that is open has no semicolon: then the block or the file ends.\<close>

definition unfinished :: "parser \<Rightarrow> bool" where
  "unfinished p \<longleftrightarrow> dangling (f_nodes (p_current p)) \<and> \<not> p_semicolon p"

definition reads_on :: "parser \<Rightarrow> bool" where
  "reads_on p \<longleftrightarrow> sound_tokens (p_tokens p) \<and> (returned_tokens (p_tokens p) = [] \<or> closing (p_tokens p))
     \<and> (unfinished p \<longrightarrow> closing (p_tokens p))"

definition parser_ok :: "string \<Rightarrow> parser \<Rightarrow> bool" where
  "parser_ok s p \<longleftrightarrow> built p @ pending (p_tokens p) = s \<and> frames_ok (p_current p) (p_parents p) \<and> reads_on p"

lemma frames_ok_current: "frames_ok f fs \<Longrightarrow> frame_ok f"
  by (cases fs) simp_all

lemma frames_ok_change:
  "frames_ok f fs \<Longrightarrow> frame_ok f' \<Longrightarrow> f_container f' = f_container f \<Longrightarrow> frames_ok f' fs"
  by (cases fs) simp_all

lemma raw_value_update [simp]:
  "raw_value (r\<lparr>r_before := x\<rparr>) = raw_value r" "raw_value (r\<lparr>r_semicolon := b\<rparr>) = raw_value r"
  "raw_value (r\<lparr>r_after := x\<rparr>) = raw_value r" "raw_value (r\<lparr>r_own_semicolon := x\<rparr>) = raw_value r"
  by (simp_all add: raw_value_def fun_eq_iff)

lemma at_start_update [simp]:
  "at_start (r\<lparr>r_before := x\<rparr>) = at_start r" "at_start (r\<lparr>r_semicolon := b\<rparr>) = at_start r"
  "at_start (r\<lparr>r_after := x\<rparr>) = at_start r"
  by (simp_all add: at_start_def fun_eq_iff)

text \<open>Closing a container: its node has the text of the frame.\<close>

lemma container_node_text:
  assumes "frame_ok (p_current p)" and "f_container (p_current p) \<noteq> Root"
  shows "recorded (r_before (raws_of (container_node (f_container (p_current p)) (closed_raws p) (f_nodes (p_current p)))))
      @ node_text t (container_node (f_container (p_current p)) (closed_raws p) (f_nodes (p_current p)))
      = frame_text (p_semicolon p) (p_current p) @ p_spaces p @ ''}''"
    and "complete (container_node (f_container (p_current p)) (closed_raws p) (f_nodes (p_current p)))"
    and "\<not> is_comment (container_node (f_container (p_current p)) (closed_raws p) (f_nodes (p_current p)))"
    and "\<not> needs_semicolon (container_node (f_container (p_current p)) (closed_raws p) (f_nodes (p_current p)))"
  using assms
  by (cases "f_container (p_current p)"; cases "f_nodes (p_current p) = []";
      auto simp: frame_text_def closed_raws_def Let_def frame_ok_def block_text_def needs_semicolon_def)+

text \<open>One node more, when the last one does not wait for the end of its block.\<close>

lemma nodes_text_next:
  "\<not> unfinished p \<Longrightarrow> \<not> is_comment x \<Longrightarrow> nodes_text s (f_nodes (p_current p) @ [x])
     = nodes_text (p_semicolon p) (f_nodes (p_current p)) @ recorded (r_before (raws_of x)) @ node_text s x"
  using nodes_text_settled [of "f_nodes (p_current p)" "p_semicolon p" True]
  by (cases "p_semicolon p") (auto simp: unfinished_def nodes_text_append)

text \<open>The state after a token was read.\<close>

definition token_read :: "string \<Rightarrow> token \<Rightarrow> parser \<Rightarrow> bool" where
  "token_read s e p \<longleftrightarrow> built p @ token_text e @ pending (p_tokens p) = s \<and> frames_ok (p_current p) (p_parents p)
     \<and> proper e \<and> sound_tokens (p_tokens p)
     \<and> (if blank e then (returned_tokens (p_tokens p) = [] \<or> closing (p_tokens p)) \<and> (unfinished p \<longrightarrow> closing (p_tokens p))
        else returned_tokens (p_tokens p) = [] \<and> (kind e \<noteq> ''}'' \<longrightarrow> \<not> unfinished p))"

lemma read_token_read:
  assumes "read_token False (p_tokens p) = Value (Some e, t)" and "parser_ok s p"
  shows "token_read s e (p\<lparr>p_tokens := t\<rparr>)"
proof -
  have b: "built (p\<lparr>p_tokens := t\<rparr>) = built p" "unfinished (p\<lparr>p_tokens := t\<rparr>) = unfinished p"
    by (simp_all add: built_def unfinished_def)
  have o: "sound_tokens (p_tokens p)" "returned_tokens (p_tokens p) = [] \<or> closing (p_tokens p)"
    "unfinished p \<Longrightarrow> closing (p_tokens p)"
    using assms(2) by (auto simp: parser_ok_def reads_on_def)
  show ?thesis
  proof (cases "closing (p_tokens p)")
    case True
    then have "blank e \<and> closing t \<or> kind e = ''}'' \<and> returned_tokens t = []" using read_closing [OF assms(1)] by blast
    moreover have "kind e = ''}'' \<Longrightarrow> \<not> blank e" by (simp add: blank_def)
    ultimately show ?thesis
      using assms(2) read_token_pending [OF assms(1)] read_token_sound [OF assms(1) o(1)] b by (auto simp: token_read_def parser_ok_def)
  next
    case False
    then show ?thesis
      using o assms(2) read_token_pending [OF assms(1)] read_token_sound [OF assms(1) o(1)] read_returned [OF assms(1)] b
      by (auto simp: token_read_def parser_ok_def)
  qed
qed

lemma push_node_ok:
  assumes "frames_ok (p_current p) (p_parents p)" and "\<not> unfinished p" and "complete x" and "\<not> is_comment x"
    and "recorded (r_before (raws_of x)) @ node_text semi x = p_spaces p @ w"
    and "q = (push_node x p)\<lparr>p_spaces := rest, p_semicolon := semi\<rparr>"
  shows "built q = built p @ w @ rest \<and> frames_ok (p_current q) (p_parents q) \<and> p_tokens q = p_tokens p
    \<and> (unfinished q \<longleftrightarrow> needs_semicolon x \<and> \<not> semi)"
proof -
  have "built q = built p @ w @ rest"
    using nodes_text_next [OF assms(2,4), of semi] assms(5,6) by (simp add: built_def frame_text_def push_node_def)
  moreover have "frames_ok (p_current q) (p_parents q)"
    unfolding assms(6) using assms(1,3) frames_ok_current [OF assms(1)]
    by (auto simp: push_node_def frame_ok_def intro: frames_ok_change)
  ultimately show ?thesis using assms(4) by (simp add: assms(6) push_node_def unfinished_def)
qed

lemma open_container_ok:
  assumes "frames_ok (p_current p) (p_parents p)" and "\<not> unfinished p" and "c \<noteq> Root"
    and "open_text c (r\<lparr>r_before := Some (p_spaces p)\<rparr>) = p_spaces p @ w"
    and "r_after r = None" and "r_own_semicolon r = None" and "r_between r \<noteq> None" and "q = open_container r c p"
  shows "built q = built p @ w \<and> frames_ok (p_current q) (p_parents q) \<and> p_tokens q = p_tokens p \<and> \<not> unfinished q"
proof -
  have "frame_text True (p_current p) = frame_text (p_semicolon p) (p_current p)"
    using assms(2) nodes_text_settled [of "f_nodes (p_current p)" True False]
    by (cases "p_semicolon p") (auto simp: frame_text_def unfinished_def)
  then have "built q = built p @ w"
    using assms(4) by (simp add: assms(8) built_def open_container_def new_frame_def frame_text_def)
  then show ?thesis
    using assms by (simp add: open_container_def new_frame_def frame_ok_def unfinished_def)
qed

lemma end_block_ok:
  assumes "frames_ok (p_current p) (p_parents p)" and "end_block p = Value q"
  shows "built q = built p @ ''}'' \<and> frames_ok (p_current q) (p_parents q) \<and> p_tokens q = p_tokens p \<and> \<not> unfinished q"
proof -
  obtain f fs where p: "p_parents p = f # fs" using assms(2) by (cases "p_parents p") (auto simp: end_block_def)
  define n where "n = container_node (f_container (p_current p)) (closed_raws p) (f_nodes (p_current p))"
  have q: "q = p\<lparr>p_current := f\<lparr>f_nodes := f_nodes f @ [n]\<rparr>, p_parents := fs, p_spaces := [], p_semicolon := False\<rparr>"
    using assms(2) by (simp add: end_block_def p n_def)
  have c: "frame_ok (p_current p)" "f_container (p_current p) \<noteq> Root" "frames_ok f fs" using assms(1) by (simp_all add: p)
  have n: "recorded (r_before (raws_of n)) @ node_text False n = frame_text (p_semicolon p) (p_current p) @ p_spaces p @ ''}''"
    "complete n" "\<not> is_comment n" "\<not> needs_semicolon n"
    using container_node_text [OF c(1,2)] by (simp_all add: n_def)
  have "built q = built p @ ''}''"
    using n(1) by (simp add: built_def q p frame_text_def nodes_text_append [OF n(3)])
  moreover have "frames_ok (p_current q) (p_parents q)"
    unfolding q using c(3) n(2) frames_ok_current [OF c(3)] by (auto simp: frame_ok_def intro: frames_ok_change)
  ultimately show ?thesis using n(3,4) by (simp add: q unfinished_def)
qed

section \<open>Every step keeps the invariant\<close>

lemma kind_text: "proper e \<Longrightarrow> kind e = [c] \<Longrightarrow> token_text e = [c]"
  by (simp add: proper_def)

lemma free_semicolon_ok:
  assumes "token_read s e p" and "kind e = '';''"
  shows "parser_ok s (free_semicolon e p)"
proof -
  have e: "\<not> blank e" "kind e \<noteq> ''}''" using assms(2) by (simp_all add: blank_def)
  then have r: "built p @ token_text e @ pending (p_tokens p) = s" "frames_ok (p_current p) (p_parents p)"
    "sound_tokens (p_tokens p)" "returned_tokens (p_tokens p) = []" "\<not> unfinished p"
    using assms(1) by (simp_all add: token_read_def)
  let ?q = "p\<lparr>p_spaces := p_spaces p @ token_text e\<rparr>"
  have q: "parser_ok s ?q"
    using r by (auto simp: parser_ok_def reads_on_def built_def unfinished_def)
  show ?thesis
  proof (cases "\<exists>rw sel ns ms. f_nodes (p_current p) = ms @ [Rule rw sel ns] \<and> recorded (r_own_semicolon rw) = []")
    case True
    then obtain rw sel ns ms where n: "f_nodes (p_current p) = ms @ [Rule rw sel ns]" "recorded (r_own_semicolon rw) = []" by blast
    let ?n = "Rule (rw\<lparr>r_own_semicolon := Some (p_spaces p @ token_text e)\<rparr>) sel ns"
    have f: "free_semicolon e p = p\<lparr>p_current := (p_current p)\<lparr>f_nodes := ms @ [?n]\<rparr>, p_spaces := []\<rparr>"
      using n by (auto simp: free_semicolon_def Let_def recorded_def split: option.splits)
    have "frame_ok ((p_current p)\<lparr>f_nodes := ms @ [?n]\<rparr>)"
      using frames_ok_current [OF r(2)] n by (simp add: frame_ok_def)
    then have "frames_ok (p_current (free_semicolon e p)) (p_parents p)"
      using frames_ok_change [OF r(2)] by (simp add: f)
    moreover have "built (free_semicolon e p) = built p @ token_text e"
      using n by (simp add: f built_def frame_text_def nodes_text_append block_text_def)
    ultimately show ?thesis
      using r by (simp add: parser_ok_def reads_on_def f unfinished_def needs_semicolon_def)
  next
    case False
    have "free_semicolon e p = ?q"
    proof (cases "f_nodes (p_current p)" rule: rev_cases)
      case (snoc ms m)
      then show ?thesis using False by (cases m) (auto simp: free_semicolon_def Let_def)
    qed (simp add: free_semicolon_def)
    then show ?thesis using q by simp
  qed
qed

lemma comment_ok:
  assumes "token_read s e p" and "kind e = ''comment''"
  shows "parser_ok s (push_node (comment_node (p_spaces p) e) p)"
proof -
  let ?n = "comment_node (p_spaces p) e"
  have e: "blank e" using assms(2) by (simp add: blank_def)
  then have r: "built p @ token_text e @ pending (p_tokens p) = s" "frames_ok (p_current p) (p_parents p)" "proper e"
    "sound_tokens (p_tokens p)" "returned_tokens (p_tokens p) = [] \<or> closing (p_tokens p)" "unfinished p \<longrightarrow> closing (p_tokens p)"
    using assms(1) by (simp_all add: token_read_def)
  have n: "is_comment ?n" "complete ?n" "\<And>t. recorded (r_before (raws_of ?n)) @ node_text t ?n = p_spaces p @ token_text e"
    using comment_node_texts [OF r(3) assms(2), of "p_spaces p"] by blast+
  have "built (push_node ?n p) = built p @ token_text e"
    using n(1,3) by (simp add: built_def frame_text_def push_node_def nodes_text_comment)
  moreover have "frames_ok (p_current (push_node ?n p)) (p_parents (push_node ?n p))"
    using r(2) n(2) frames_ok_current [OF r(2)] by (auto simp: push_node_def frame_ok_def intro: frames_ok_change)
  moreover have "unfinished (push_node ?n p) \<longleftrightarrow> unfinished p" "p_tokens (push_node ?n p) = p_tokens p"
    using n(1) by (simp_all add: unfinished_def push_node_def)
  ultimately show ?thesis using r by (simp add: parser_ok_def reads_on_def)
qed

lemma at_rule_ok:
  assumes "token_read s e p" and "kind e = ''at-word''" and "at_rule e p = Value p'"
  shows "parser_ok s p'"
proof -
  have e: "\<not> blank e" "kind e \<noteq> ''}''" using assms(2) by (simp_all add: blank_def)
  then have r: "built p @ token_text e @ pending (p_tokens p) = s" "frames_ok (p_current p) (p_parents p)" "proper e"
    "sound_tokens (p_tokens p)" "returned_tokens (p_tokens p) = []" "\<not> unfinished p"
    using assms(1) by (simp_all add: token_read_def)
  let ?n = "drop 1 (token_text e)"
  have n: "token_text e = ''@'' @ ?n" using r(3) assms(2) by (cases "token_text e") (auto simp: proper_def)
  from assms(3) show ?thesis
  proof (cases rule: at_rule_cases)
    case (1 t l how v rw rest)
    let ?p = "p\<lparr>p_tokens := t\<rparr>" and ?x = "At_Rule rw ?n v None"
    have t: "sound_tokens t" "returned_tokens t = []" "list_all proper l" "pending (p_tokens p) = texts l @ end_text how @ pending t"
      "how = By_File \<or> how = At_Once \<Longrightarrow> end_of_file t"
      using at_tokens_texts [OF 1(1) r(4,5)] by auto
    have a: "at_start rw ?n v @ recorded (r_between rw) @ rest = token_text e @ texts l" "how \<noteq> By_File \<Longrightarrow> rest = []"
      "r_before rw = Some (p_spaces p)" "r_between rw \<noteq> None" "r_after rw = None" "r_own_semicolon rw = None"
      using at_raws_texts [OF 1(2) t(3), of ?n] n by (metis append_assoc)+
    have p: "frames_ok (p_current ?p) (p_parents ?p)" "\<not> unfinished ?p" "built ?p = built p"
      using r(2,6) by (simp_all add: unfinished_def built_def)
    have w: "built p @ (token_text e @ texts l) @ end_text how @ pending t = s" using r(1) t(4) by simp
    show ?thesis
    proof (cases "how = By_Open")
      case True
      have ot: "open_text (In_At_Rule ?n v) (rw\<lparr>r_before := Some (p_spaces ?p)\<rparr>) = p_spaces ?p @ (token_text e @ texts l) @ ''{''"
        using a(1,2) True by simp
      have "built p' = built ?p @ (token_text e @ texts l) @ ''{'' \<and> frames_ok (p_current p') (p_parents p')
          \<and> p_tokens p' = p_tokens ?p \<and> \<not> unfinished p'"
        by (rule open_container_ok [OF p(1,2) _ ot a(5,6,4) 1(4) [OF True]]) simp
      then show ?thesis using w p(3) t True by (simp add: parser_ok_def reads_on_def)
    next
      case False
      define semi where "semi = (how = By_Semicolon)"
      define q where "q = (push_node ?x ?p)\<lparr>p_spaces := rest, p_semicolon := semi\<rparr>"
      define u where "u = at_start rw ?n v @ recorded (r_between rw) @ (if semi then '';'' else [])"
      have q: "built q = built p @ u @ rest" "frames_ok (p_current q) (p_parents q)" "p_tokens q = t" "unfinished q \<longleftrightarrow> \<not> semi"
        using push_node_ok [OF p(1,2), of ?x semi u q rest] a(3) p(3) by (simp_all add: q_def u_def needs_semicolon_def)
      have u: "u @ rest = (token_text e @ texts l) @ (if semi then '';'' else [])"
        using a(1,2) by (cases "how = By_Semicolon") (simp_all add: u_def semi_def)
      show ?thesis
      proof (cases "how = By_Close")
        case True
        then have "end_block q = Value p'" using 1(5) by (simp add: q_def semi_def)
        then show ?thesis
          using end_block_ok [OF q(2)] q u w t True by (simp add: parser_ok_def reads_on_def semi_def)
      next
        case nc: False
        have "p' = q" using 1(6) False nc by (simp add: q_def semi_def)
        moreover have "unfinished q \<longrightarrow> closing t"
          using q(4) t(2,5) False nc by (cases how) (auto simp: semi_def closing_def end_of_file_def)
        ultimately show ?thesis
          using q u w t nc False by (cases how) (auto simp: parser_ok_def reads_on_def semi_def)
      qed
    qed
  qed
qed

lemma open_rule_ok:
  assumes "frames_ok (p_current p) (p_parents p)" and "\<not> unfinished p" and "texts l = w"
  shows "built (open_rule l p) = built p @ w @ ''{'' \<and> frames_ok (p_current (open_rule l p)) (p_parents (open_rule l p))
    \<and> p_tokens (open_rule l p) = p_tokens p \<and> \<not> unfinished (open_rule l p)"
proof -
  obtain b l1 where b: "blanks_from_end l = (b, l1)" by (metis surj_pair)
  obtain v q where v: "parse_raw False l1 = (v, q)" by (metis surj_pair)
  define r where "r = no_raws\<lparr>r_between := Some b, r_value := q\<rparr>"
  have "raw_value r v = texts l1" using parse_raw_texts [OF v] by (simp add: r_def)
  then have "open_text (In_Rule v) (r\<lparr>r_before := Some (p_spaces p)\<rparr>) = p_spaces p @ w @ ''{''"
    using blanks_from_end_texts [OF b] assms(3) by (auto simp: r_def)
  moreover have "open_rule l p = open_container r (In_Rule v) p" by (simp add: open_rule_def b v r_def)
  ultimately show ?thesis
    using open_container_ok [OF assms(1,2)] by (simp add: r_def no_raws_def)
qed

lemma empty_rule_ok:
  assumes "token_read s e p" and "kind e = ''{''"
  shows "parser_ok s (empty_rule p)"
proof -
  have e: "\<not> blank e" "kind e \<noteq> ''}''" using assms(2) by (simp_all add: blank_def)
  then have r: "built p @ token_text e @ pending (p_tokens p) = s" "frames_ok (p_current p) (p_parents p)" "proper e"
    "sound_tokens (p_tokens p)" "returned_tokens (p_tokens p) = []" "\<not> unfinished p"
    using assms(1) by (simp_all add: token_read_def)
  have "empty_rule p = open_rule [] p"
    by (simp add: empty_rule_def open_rule_def blanks_from_end_def parse_raw_def no_raws_def)
  then show ?thesis
    using open_rule_ok [OF r(2,6), of "[]" "[]"] kind_text [OF r(3) assms(2)] r by (simp add: parser_ok_def reads_on_def)
qed

lemma add_decl_ok:
  assumes "frames_ok (p_current p) (p_parents p)" and "\<not> unfinished p" and "add_decl l u p = Value q" and "list_all proper l"
  shows "built q = built p @ texts l \<and> frames_ok (p_current q) (p_parents q) \<and> p_tokens q = p_tokens p
    \<and> (unfinished q \<longrightarrow> kind (last l) \<noteq> '';'')"
proof -
  obtain n semi where d: "decl_node (p_spaces p) l u = Value (n, semi)" "q = (push_node n p)\<lparr>p_spaces := [], p_semicolon := semi\<rparr>"
    using assms(3) by (auto simp: add_decl_def push_node_def)
  have n: "is_decl n" "complete n" "recorded (r_before (raws_of n)) @ node_text semi n = p_spaces p @ texts l"
    using decl_node_texts [OF d(1) assms(4)] by simp_all
  then have c: "\<not> is_comment n" by (cases n) simp_all
  have "semi = (kind (last l) = '';'')" using d(1) by (auto simp: decl_node_def Let_def split: if_splits)
  then show ?thesis using push_node_ok [OF assms(1,2) n(2) c n(3) d(2)] by auto
qed

text \<open>What is given back at the end of a declaration is a closing.\<close>

lemma fold_give_back: "fold give_back xs t = t\<lparr>returned_tokens := returned_tokens t @ xs\<rparr>"
  by (induction xs arbitrary: t) (simp_all add: give_back_def)

lemma give_back_closing:
  assumes "list_all blank bs" and "list_all proper bs" and "sound_tokens t"
    and "(\<exists>d. returned_tokens t = [d] \<and> kind d = ''}'') \<or> returned_tokens t = [] \<and> end_of_file t"
  shows "closing (fold give_back (rev bs) t) \<and> sound_tokens (fold give_back (rev bs) t)
    \<and> pending (fold give_back (rev bs) t) = texts bs @ pending t"
proof -
  have "closing (fold give_back (rev bs) t)"
    using assms(1,4) unfolding closing_def fold_give_back
    by (intro exI [of _ "returned_tokens t"] exI [of _ "rev bs"]) (auto simp: end_of_file_def)
  then show ?thesis using assms(2,3) by (simp add: sound_tokens_def fold_give_back pending_def)
qed

lemma other_ok:
  assumes "token_read s e p" and "\<not> blank e" and "kind e \<noteq> ''}''" and "other e p = Value p'"
  shows "parser_ok s p'"
proof -
  have r: "built p @ token_text e @ pending (p_tokens p) = s" "frames_ok (p_current p) (p_parents p)" "proper e"
    "sound_tokens (p_tokens p)" "returned_tokens (p_tokens p) = []" "\<not> unfinished p"
    using assms(1-3) by (simp_all add: token_read_def)
  have q: "frames_ok (p_current (p\<lparr>p_tokens := t\<rparr>)) (p_parents (p\<lparr>p_tokens := t\<rparr>))" "\<not> unfinished (p\<lparr>p_tokens := t\<rparr>)"
    "built (p\<lparr>p_tokens := t\<rparr>) = built p" for t
    using r(2,6) by (simp_all add: unfinished_def built_def)
  from assms(4) show ?thesis
  proof (cases rule: other_cases)
    case (opens t l a n)
    have o: "sound_tokens t" "list_all proper l" "token_text e @ pending (p_tokens p) = texts l @ pending t" "returned_tokens t = []"
      using other_tokens_texts [OF opens(1) r(4,5) _ r(3)] by simp_all
    have "l \<noteq> []" "kind (last l) = ''{''" using other_tokens_last [OF opens(1)] by simp_all
    then have "texts l = texts (butlast l) @ ''{''"
      using o(2) kind_text [of "last l"] texts_simps(3) [of "butlast l" "[last l]"] by (simp add: list_all_iff)
    then show ?thesis
      using open_rule_ok [OF q(1,2) refl, of "butlast l" t] o r(1) q(3) [of t] opens(2) by (simp add: parser_ok_def reads_on_def)
  next
    case (declares t l a n)
    have o: "sound_tokens t" "list_all proper l" "token_text e @ pending (p_tokens p) = texts l @ pending t" "returned_tokens t = []"
      using other_tokens_texts [OF declares(1) r(4,5) _ r(3)] by simp_all
    have "kind (last l) = '';''" using other_tokens_last [OF declares(1)] by simp
    then show ?thesis
      using add_decl_ok [OF q(1,2) declares(2) o(2)] o r(1) q(3) [of t] by (simp add: parser_ok_def reads_on_def)
  next
    case (stops b t l t' l')
    have o: "sound_tokens t" "list_all proper l" "token_text e @ pending (p_tokens p) = texts l @ pending t"
      "(\<exists>d. returned_tokens t = [d] \<and> kind d = ''}'') \<or> returned_tokens t = [] \<and> end_of_file t"
      using other_tokens_texts [OF stops(1) r(4,5) _ r(3)] stops(2) by (auto split: if_splits)
    obtain bs where bs: "l = l' @ bs" "list_all blank bs" "t' = fold give_back (rev bs) t"
    proof (cases "has_prefix (token_text e) ''--''")
      case True
      then show ?thesis using stops(3) that [of "[]"] by simp
    next
      case False
      then have "give_back_blanks l t = (l', t')" using stops(3) by simp
      then show ?thesis using that by (rule give_back_blanks_split)
    qed
    have t': "closing t'" "sound_tokens t'" "pending t' = texts bs @ pending t" "list_all proper l'"
      using give_back_closing [OF bs(2) _ o(1,4)] o(2) bs(1,3) by simp_all
    then show ?thesis
      using add_decl_ok [OF q(1,2) stops(4) t'(4)] o(3) r(1) q(3) [of t'] bs(1) by (simp add: parser_ok_def reads_on_def)
  qed
qed

lemma parse_step_ok:
  assumes "token_read s e p" and "parse_step e p = Value p'"
  shows "parser_ok s p'"
proof -
  consider (space) "kind e = ''space''" | (close) "kind e = ''}''" | (semi) "kind e = '';''" | (comment) "kind e = ''comment''"
    | (at) "kind e = ''at-word''" | (brace) "kind e = ''{''" | (rest) "\<not> blank e" "kind e \<noteq> ''}''" "kind e \<noteq> '';''"
      "kind e \<noteq> ''at-word''" "kind e \<noteq> ''{''"
    by (auto simp: blank_def)
  then show ?thesis
  proof cases
    case space
    then have "blank e" "p' = p\<lparr>p_spaces := p_spaces p @ token_text e\<rparr>" using assms(2) by (auto simp: blank_def parse_step_def)
    then show ?thesis using assms(1) by (auto simp: token_read_def parser_ok_def reads_on_def built_def unfinished_def)
  next
    case close
    then have e: "\<not> blank e" "end_block p = Value p'" using assms(2) by (simp_all add: blank_def parse_step_def)
    then show ?thesis
      using end_block_ok [OF _ e(2)] assms(1) kind_text [OF _ close] by (simp add: token_read_def parser_ok_def reads_on_def)
  next
    case semi
    then show ?thesis using free_semicolon_ok [OF assms(1)] assms(2) by (simp add: parse_step_def)
  next
    case comment
    then show ?thesis using comment_ok [OF assms(1)] assms(2) by (simp add: parse_step_def)
  next
    case at
    then show ?thesis using at_rule_ok [OF assms(1) at] assms(2) by (simp add: parse_step_def)
  next
    case brace
    then show ?thesis using empty_rule_ok [OF assms(1)] assms(2) by (simp add: parse_step_def)
  next
    case rest
    then have "other e p = Value p'" using assms(2) by (simp add: parse_step_def blank_def)
    then show ?thesis by (rule other_ok [OF assms(1) rest(1,2)])
  qed
qed

lemma end_file_ok:
  assumes "parser_ok s p" and "end_of_file (p_tokens p)" and "end_file p = Value sh"
  shows "list_all complete (root_nodes sh) \<and> sheet_text sh = s"
proof -
  have p: "p_parents p = []" "sh = \<lparr>root_raws = closed_raws p, root_nodes = f_nodes (p_current p)\<rparr>"
    using assms(3) by (auto simp: end_file_def split: if_splits)
  have f: "frame_ok (p_current p)" "f_container (p_current p) = Root" "built p = s"
    using assms(1,2) p(1) by (simp_all add: parser_ok_def end_of_file_iff)
  then show ?thesis
    by (cases "f_nodes (p_current p) = []")
       (auto simp: p frame_ok_def sheet_text_def closed_raws_def Let_def built_def frame_text_def)
qed

lemma parse_loop_ok: "parse_loop p = Value sh \<Longrightarrow> parser_ok s p \<Longrightarrow> list_all complete (root_nodes sh) \<and> sheet_text sh = s"
proof (induction p rule: parse_loop.induct)
  case (1 p)
  show ?case
  proof (cases "end_of_file (p_tokens p)")
    case True
    then show ?thesis using 1(2,3) end_file_ok by (subst (asm) parse_loop.simps) simp
  next
    case False
    then obtain e t where r: "read_token False (p_tokens p) = Value (Some e, t)"
      using 1(2) by (subst (asm) parse_loop.simps) (auto split: js.splits option.splits)
    then obtain q where q: "parse_step e (p\<lparr>p_tokens := t\<rparr>) = Value q" "parse_loop q = Value sh"
      using 1(2) False by (subst (asm) parse_loop.simps) (auto split: js.splits)
    show ?thesis
      using 1(1) [OF False r refl refl q(1,2)] parse_step_ok [OF read_token_read [OF r 1(3)] q(1)] by simp
  qed
qed

lemma new_parser_ok: "parser_ok s (new_parser s)"
  by (simp add: parser_ok_def reads_on_def new_parser_def new_tokenizer_def new_frame_def built_def frame_text_def
      pending_def unfinished_def sound_tokens_def frame_ok_def no_raws_def)

text \<open>
  C1. What was parsed is printed as it was written: when \<open>parse\<close> accepts a text, the stringifier gives
  back that text, character by character.
\<close>

theorem parse_stringify:
  assumes "parse_css s = Value sh"
  shows "concat (fst (stringify sh Map.empty)) = s"
proof -
  have "list_all complete (root_nodes sh) \<and> sheet_text sh = s"
    using assms parse_loop_ok [OF _ new_parser_ok] by (simp add: parse_css_def)
  then show ?thesis using stringify_complete by blast
qed

section \<open>Examples\<close>

definition sample_source :: string where
  "sample_source = ''@m x{a , b{*c : /*d*/ e ! important;}; } f{g:h /*i*/}''"

definition sample_tree :: sheet where
  "sample_tree =
     \<lparr>root_raws = no_raws\<lparr>r_semicolon := Some False, r_after := Some []\<rparr>,
      root_nodes =
       [At_Rule (no_raws\<lparr>r_before := Some [], r_between := Some [], r_after := Some '' '', r_after_name := Some '' '', r_semicolon := Some False\<rparr>)
          ''m'' ''x''
          (Some [Rule (no_raws\<lparr>r_before := Some [], r_between := Some [], r_after := Some [], r_own_semicolon := Some '';'', r_semicolon := Some True\<rparr>)
             ''a , b''
             [Decl (no_raws\<lparr>r_before := Some ''*'', r_between := Some '' : /*d*/ '', r_important := Some '' ! important''\<rparr>) ''c'' ''e'' True]]),
        Rule (no_raws\<lparr>r_before := Some '' '', r_between := Some [], r_after := Some [], r_semicolon := Some False\<rparr>) ''f''
          [Decl (no_raws\<lparr>r_before := Some [], r_between := Some '':''\<rparr>) ''g'' ''h'' False,
           Comment (no_raws\<lparr>r_before := Some '' '', r_left := Some [], r_right := Some []\<rparr>) ''i'']]\<rparr>"

lemma sample_parsed: "parse_css sample_source = Value sample_tree"
  unfolding sample_source_def sample_tree_def by code_simp

lemma parse_stringify_witness: "concat (fst (stringify sample_tree Map.empty)) = sample_source"
  by (rule parse_stringify [OF sample_parsed])

end
