(* ===== verification/Css_Parse_Errors.thy ===== *)
theory Css_Parse_Errors
  imports Css_Parser
begin

text \<open>
  The errors of the PostCSS parser: it ends on every text, with a sheet or with one of the errors that the
  code raises on purpose. The accesses that would fail with a \<open>TypeError\<close> (\<open>e[0][0]\<close> of an
  empty list, a token after the last one) are never reached.
\<close>

section \<open>Errors\<close>

definition token_errors :: "string set" where
  "token_errors = {''Unclosed bracket'', ''Unclosed string'', ''Unclosed comment''}"

definition decl_errors :: "string set" where
  "decl_errors = {''Unknown word'', ''Double colon'', ''Missed semicolon''}"

lemma read_token_errors: "read_token u t = Throw e \<Longrightarrow> e \<in> token_errors"
proof -
  assume "read_token u t = Throw e"
  then have "next_token (ignore_errors t \<or> u) (input_css t) (offset_y t) (words t) = Throw e"
    by (auto simp: read_token_def split: if_splits elim!: js_bind.elims)
  then show ?thesis using next_token_errors unfolding token_errors_def by blast
qed

lemma read_token_more: "\<not> end_of_file t \<Longrightarrow> read_token u t \<noteq> Value (None, t')"
  using read_token_end by blast

lemma at_tokens_errors: "at_tokens t c l = Throw e \<Longrightarrow> e \<in> token_errors"
proof (induction "tokens_left t" arbitrary: t c l rule: less_induct)
  case less
  have n: "\<not> end_of_file t" using less.prems by (subst (asm) at_tokens.simps) (simp split: if_splits)
  show ?case
  proof (cases "read_token False t")
    case (Throw x)
    then have "e = x" using less.prems n by (subst (asm) at_tokens.simps) simp
    then show ?thesis using read_token_errors Throw by blast
  next
    case (Value r)
    then obtain f s where r: "read_token False t = Value (Some f, s)" using read_token_more [OF n] by (cases r; cases "fst r") auto
    then have "at_tokens s (bracket_step (c \<noteq> []) (kind f) c) (l @ [f]) = Throw e"
      using less.prems n by (subst (asm) at_tokens.simps) (simp add: Let_def split: if_splits)
    then show ?thesis using less.hyps [OF read_token_left [OF r]] by blast
  qed
qed

lemma other_tokens_errors: "other_tokens u t l a n c = Throw e \<Longrightarrow> e \<in> token_errors"
proof (induction u t l a n c rule: other_tokens.induct)
  case (1 u t l a n c)
  obtain b m where s: "other_step u a n (kind c) = Continue b m"
    using 1(2) by (subst (asm) other_tokens.simps) (auto split: other_step.splits if_splits)
  note e = 1(2) [unfolded other_tokens.simps [of u t l a n c] s other_step.case]
  show ?case
  proof (cases "read_token False t")
    case (Throw x)
    then show ?thesis using e read_token_errors by auto
  next
    case (Value r)
    then obtain d q where r: "read_token False t = Value (Some d, q)" using e by (cases r; cases "fst r") auto
    then show ?thesis using e 1(1) [OF s r refl refl] by simp
  qed
qed

text \<open>The tokens of a declaration hold a colon, and those that \<open>other\<close> reads are not empty.\<close>

definition has_colon :: "token list \<Rightarrow> bool" where
  "has_colon l \<longleftrightarrow> (\<exists>t\<in>set l. kind t = '':'')"

lemma other_step_colon:
  "other_step u a n i = Continue b m \<Longrightarrow> m \<longrightarrow> n \<or> i = '':''"
  by (auto simp: other_step_def Let_def split: if_splits)

lemma other_tokens_colon:
  "other_tokens u t l a n c = Value (how, t', l', a', n') \<Longrightarrow> (n \<longrightarrow> has_colon l) \<Longrightarrow> (l = [] \<longrightarrow> kind c \<noteq> ''}'') \<Longrightarrow>
     (n' \<longrightarrow> has_colon l') \<and> l' \<noteq> [] \<and> (how = Decl_Ends \<longrightarrow> n')"
proof (induction u t l a n c rule: other_tokens.induct)
  case (1 u t l a n c)
  have c: "m \<longrightarrow> has_colon (l @ [c])" if "other_step u a n (kind c) = Continue b m" for b m
    using other_step_colon [OF that] 1(3) by (auto simp: has_colon_def)
  show ?case
  proof (cases "other_step u a n (kind c)")
    case (Finish h)
    then show ?thesis using 1(2-4) other_step_Finish [OF Finish]
      by (subst (asm) other_tokens.simps) (auto simp: has_colon_def split: if_splits)
  next
    case (Continue b m)
    from 1(2) show ?thesis
    proof (cases rule: other_tokens_cases)
      case file_ends
      then show ?thesis using Continue c [OF Continue] by simp
    next
      case (goes_on b' m' d s)
      then show ?thesis using 1(1) [OF goes_on(1,2)] c [OF goes_on(1)] by simp
    qed (use Continue in auto)
  qed
qed

lemma before_word_errors: "before_word b e = Throw x \<Longrightarrow> e \<noteq> [] \<Longrightarrow> x = ''Unknown word''"
  by (induction b e rule: before_word.induct) (auto split: if_splits)

lemma up_to_colon_errors: "up_to_colon b e = Throw x \<Longrightarrow> x = ''Unknown word''"
  by (induction b e rule: up_to_colon.induct) (auto split: if_splits)

lemma colon_in_errors: "colon_in t i e = Throw x \<Longrightarrow> x = ''Double colon''"
  by (induction t i e rule: colon_in.induct) (auto simp: Let_def split: if_splits option.splits)

lemma decl_value_errors:
  assumes "decl_value u pre between p e = Throw x" shows "x \<in> decl_errors"
proof -
  obtain e1 where "check_missed_semicolon e1 = Throw x"
    using assms by (auto simp: decl_value_def Let_def split: prod.splits if_splits elim!: js_bind.elims)
  then show ?thesis
    using colon_in_errors
    by (auto simp: check_missed_semicolon_def decl_errors_def split: if_splits elim!: js_bind.elims)
qed

lemma decl_node_errors:
  assumes "decl_node s e u = Throw x" and "has_colon e" shows "x \<in> decl_errors"
proof -
  define e0 where "e0 = (if kind (last e) = '';'' then butlast e else e)"
  have "e0 \<noteq> []" using assms(2) by (cases e rule: rev_cases) (auto simp: e0_def has_colon_def)
  let ?name = "\<lambda>t. kind t \<noteq> '':'' \<and> \<not> blank t"
  from assms(1) consider (word) "before_word s e0 = Throw x"
    | (colon) pre e1 where "before_word s e0 = Value (pre, e1)" "up_to_colon [] (dropWhile ?name e1) = Throw x"
    | (val) pre between pn e2 where "decl_value u pre between pn e2 = Throw x"
    unfolding decl_node_def Let_def e0_def by (auto simp: js_bind_Throw_iff split: if_splits)
  then show ?thesis
    by cases (use before_word_errors [OF _ \<open>e0 \<noteq> []\<close>] up_to_colon_errors decl_value_errors in \<open>auto simp: decl_errors_def\<close>)
qed

definition parse_errors :: "string set" where
  "parse_errors = token_errors \<union> decl_errors \<union> {''Unclosed block'', ''Unexpected }'', ''At-rule without name''}"

lemma end_block_errors: "end_block p = Throw x \<Longrightarrow> x = ''Unexpected }''"
  by (auto simp: end_block_def split: list.splits)

lemma at_rule_errors:
  assumes "at_rule e p = Throw x" shows "x \<in> parse_errors"
proof (cases "at_tokens (p_tokens p) [] []")
  case (Throw y)
  then show ?thesis using assms at_tokens_errors [OF Throw] by (auto simp: at_rule_def parse_errors_def Let_def split: if_splits)
next
  case (Value r)
  then show ?thesis using assms end_block_errors
    by (cases r) (auto simp: at_rule_def parse_errors_def Let_def split: if_splits prod.splits)
qed

lemma add_decl_errors: "add_decl l u p = Throw x \<Longrightarrow> has_colon l \<Longrightarrow> x \<in> decl_errors"
  using decl_node_errors by (auto simp: add_decl_def elim!: js_bind.elims)

lemma give_back_blanks_colon: "give_back_blanks l t = (l', t') \<Longrightarrow> has_colon l \<Longrightarrow> has_colon l'"
  by (erule give_back_blanks_split) (auto simp: has_colon_def list_all_iff blank_def)

lemma other_errors:
  assumes "other e p = Throw x" and "kind e \<noteq> ''}''" shows "x \<in> parse_errors"
proof (cases "other_tokens (has_prefix (token_text e) ''--'') (p_tokens p) [] [] False e")
  case (Throw y)
  then show ?thesis using assms(1) other_tokens_errors [OF Throw] by (auto simp: other_def parse_errors_def)
next
  case (Value r)
  obtain how t l a n where r: "r = (how, t, l, a, n)" by (cases r) auto
  have c: "n \<longrightarrow> has_colon l" "l \<noteq> []" "how = Decl_Ends \<longrightarrow> n"
    using other_tokens_colon [OF Value [unfolded r]] assms(2) by auto
  obtain l' t' where g: "(if has_prefix (token_text e) ''--'' then (l, t) else give_back_blanks l t) = (l', t')" by (metis surj_pair)
  then have "n \<longrightarrow> has_colon l'" using c(1) give_back_blanks_colon by (auto split: if_splits)
  then have d: "\<And>q. n \<Longrightarrow> add_decl l' (has_prefix (token_text e) ''--'') q = Throw x \<Longrightarrow> x \<in> parse_errors"
    "\<And>q. n \<Longrightarrow> add_decl l (has_prefix (token_text e) ''--'') q = Throw x \<Longrightarrow> x \<in> parse_errors"
    using add_decl_errors c(1) by (auto simp: parse_errors_def)
  note o = assms(1) [unfolded other_def Let_def Value r js_bind.simps split_conv g]
  show ?thesis
  proof (cases how)
    case (Stopped b)
    then show ?thesis using o c(2) d(1) by (auto simp: parse_errors_def token_errors_def decl_errors_def split: if_splits)
  qed (use o c d in auto)
qed

lemma parse_step_errors: "parse_step e p = Throw x \<Longrightarrow> x \<in> parse_errors"
  using end_block_errors [of p x] at_rule_errors [of e p x] other_errors [of e p x]
  by (auto simp: parse_step_def Let_def parse_errors_def split: if_splits)

text \<open>
  C2. Parsing ends on every text, with a style sheet or with one of nine errors, all raised on purpose: the
  parser does not fail in any other way.
\<close>

theorem parse_css_errors:
  "(case parse_css s of
      Value sh \<Rightarrow> True
    | Throw e \<Rightarrow> e \<in> {''Unclosed bracket'', ''Unclosed string'', ''Unclosed comment'', ''Unclosed block'', ''Unexpected }'',
        ''Unknown word'', ''Double colon'', ''Missed semicolon'', ''At-rule without name''})"
proof -
  have "parse_loop p = Throw x \<Longrightarrow> x \<in> parse_errors" for p x
  proof (induction p rule: parse_loop.induct)
    case (1 p)
    show ?case
    proof (cases "end_of_file (p_tokens p)")
      case True
      then have "end_file p = Throw x" using 1(2) by (subst (asm) parse_loop.simps) simp
      then show ?thesis by (simp add: end_file_def parse_errors_def split: if_splits)
    next
      case False
      note e = 1(2) [unfolded parse_loop.simps [of p] if_not_P [OF False]]
      show ?thesis
      proof (cases "read_token False (p_tokens p)")
        case (Throw y)
        then show ?thesis using e read_token_errors [OF Throw] by (simp add: parse_errors_def)
      next
        case (Value r)
        then obtain f t where r: "read_token False (p_tokens p) = Value (Some f, t)"
          using read_token_more [OF False] by (cases r; cases "fst r") auto
        show ?thesis
        proof (cases "parse_step f (p\<lparr>p_tokens := t\<rparr>)")
          case (Throw y)
          then show ?thesis using e r parse_step_errors [OF Throw] by simp
        next
          case (Value q)
          then show ?thesis using e r 1(1) [OF False r refl refl Value] by simp
        qed
      qed
    qed
  qed
  from this [of "new_parser s"] show ?thesis
    by (cases "parse_css s") (auto simp: parse_css_def parse_errors_def token_errors_def decl_errors_def)
qed

end
