(* ===== verification/Quick_Lru.thy ===== *)
theory Quick_Lru
  imports Js_Cache Go_Map
begin

text \<open>
  The cache \<open>QuickLRU\<close> of \<open>webgui/tailwind.js\<close> (the class \<open>mf\<close>): two maps, the recent one and an
  old one; when the recent map is full it becomes the old one and the entries of the old map are
  evicted. A JavaScript \<open>Map\<close> is an association list in the order of insertion (\<open>gm_get\<close>, \<open>gm_put\<close>
  and \<open>gm_del\<close> of \<open>Go_Map\<close>). The time \<open>Date.now()\<close> is an argument; the calls of \<open>onEviction\<close> are
  recorded.
\<close>

section \<open>The state\<close>

record 'v item =
  item_value :: 'v
  item_expiry :: "nat option"
  item_max_age :: "nat option"

record ('k, 'v) lru =
  max_size :: nat
  default_age :: "nat option"
  cache :: "('k \<times> 'v item) list"
  old_cache :: "('k \<times> 'v item) list"
  lru_count :: nat
  evicted :: "('k \<times> 'v) list"

text \<open>The constructor; the options are \<open>maxSize\<close> and \<open>maxAge\<close>.\<close>

definition new_lru :: "nat option \<Rightarrow> nat option \<Rightarrow> ('k, 'v) lru js" where
  "new_lru n0 age =
     (case n0 of
        None \<Rightarrow> Throw ''`maxSize` must be a number greater than 0''
      | Some n \<Rightarrow>
          if n = 0 then Throw ''`maxSize` must be a number greater than 0''
          else if age = Some 0 then Throw ''`maxAge` must be a number greater than 0''
          else Value \<lparr>max_size = n, default_age = age, cache = [], old_cache = [], lru_count = 0, evicted = []\<rparr>)"

section \<open>Operations\<close>

definition plain_entries :: "('k \<times> 'v item) list \<Rightarrow> ('k \<times> 'v) list" where
  "plain_entries m = map (\<lambda>(k, i). (k, item_value i)) m"

definition lru_delete :: "'k \<Rightarrow> ('k, 'v) lru \<Rightarrow> bool \<times> ('k, 'v) lru" where
  "lru_delete k c =
     (let t = (gm_get (cache c) k \<noteq> None)
      in (t \<or> gm_get (old_cache c) k \<noteq> None,
          c\<lparr>cache := gm_del k (cache c), lru_count := (if t then lru_count c - 1 else lru_count c),
            old_cache := gm_del k (old_cache c)\<rparr>))"

definition expired :: "nat \<Rightarrow> 'v item \<Rightarrow> bool" where
  "expired now i = (case item_expiry i of Some x \<Rightarrow> x \<le> now | None \<Rightarrow> False)"

lemma expired_iff: "expired now i \<longleftrightarrow> (\<exists>x. item_expiry i = Some x \<and> x \<le> now)"
  by (auto simp: expired_def split: option.split)

text \<open>\<open>_deleteIfExpired\<close>, \<open>_getItemValue\<close>, \<open>_set\<close> and \<open>_moveToRecent\<close>.\<close>

definition delete_if_expired :: "nat \<Rightarrow> 'k \<Rightarrow> 'v item \<Rightarrow> ('k, 'v) lru \<Rightarrow> bool \<times> ('k, 'v) lru" where
  "delete_if_expired now k i c =
     (if expired now i then lru_delete k (c\<lparr>evicted := evicted c @ [(k, item_value i)]\<rparr>) else (False, c))"

definition get_item_value :: "nat \<Rightarrow> 'k \<Rightarrow> 'v item \<Rightarrow> ('k, 'v) lru \<Rightarrow> 'v option \<times> ('k, 'v) lru" where
  "get_item_value now k i c =
     (if item_expiry i = None \<or> item_expiry i = Some 0 then (Some (item_value i), c)
      else (let (d, c') = delete_if_expired now k i c in (if d then None else Some (item_value i), c')))"

definition lru_put :: "'k \<Rightarrow> 'v item \<Rightarrow> ('k, 'v) lru \<Rightarrow> ('k, 'v) lru" where
  "lru_put k i c =
     (let c1 = c\<lparr>cache := gm_put k i (cache c), lru_count := lru_count c + 1\<rparr>
      in if max_size c1 \<le> lru_count c1 then
           c1\<lparr>lru_count := 0, evicted := evicted c1 @ plain_entries (old_cache c1), old_cache := cache c1, cache := []\<rparr>
         else c1)"

definition move_to_recent :: "'k \<Rightarrow> 'v item \<Rightarrow> ('k, 'v) lru \<Rightarrow> ('k, 'v) lru" where
  "move_to_recent k i c = lru_put k i (c\<lparr>old_cache := gm_del k (old_cache c)\<rparr>)"

definition lru_get :: "nat \<Rightarrow> 'k \<Rightarrow> ('k, 'v) lru \<Rightarrow> 'v option \<times> ('k, 'v) lru" where
  "lru_get now k c =
     (case gm_get (cache c) k of
        Some i \<Rightarrow> get_item_value now k i c
      | None \<Rightarrow>
          (case gm_get (old_cache c) k of
             Some i \<Rightarrow>
               (let (d, c') = delete_if_expired now k i c
                in if d then (None, c') else (Some (item_value i), move_to_recent k i c'))
           | None \<Rightarrow> (None, c)))"

text \<open>\<open>set(e, t, {maxAge})\<close>; \<open>age\<close> is the option, when it is given.\<close>

definition lru_set :: "nat \<Rightarrow> 'k \<Rightarrow> 'v \<Rightarrow> nat option \<Rightarrow> ('k, 'v) lru \<Rightarrow> ('k, 'v) lru" where
  "lru_set now k v age c =
     (let i = (case age of Some a \<Rightarrow> Some a | None \<Rightarrow> map_option (\<lambda>a. now + a) (default_age c))
      in if gm_get (cache c) k \<noteq> None then
           c\<lparr>cache := gm_put k \<lparr>item_value = v, item_expiry = None, item_max_age = i\<rparr> (cache c)\<rparr>
         else lru_put k \<lparr>item_value = v, item_expiry = i, item_max_age = None\<rparr> c)"

definition lru_has :: "nat \<Rightarrow> 'k \<Rightarrow> ('k, 'v) lru \<Rightarrow> bool \<times> ('k, 'v) lru" where
  "lru_has now k c =
     (case gm_get (cache c) k of
        Some i \<Rightarrow> (let (d, c') = delete_if_expired now k i c in (\<not> d, c'))
      | None \<Rightarrow>
          (case gm_get (old_cache c) k of
             Some i \<Rightarrow> (let (d, c') = delete_if_expired now k i c in (\<not> d, c'))
           | None \<Rightarrow> (False, c)))"

definition lru_peek :: "nat \<Rightarrow> 'k \<Rightarrow> ('k, 'v) lru \<Rightarrow> 'v option \<times> ('k, 'v) lru" where
  "lru_peek now k c =
     (case gm_get (cache c) k of
        Some i \<Rightarrow> get_item_value now k i c
      | None \<Rightarrow> (case gm_get (old_cache c) k of Some i \<Rightarrow> get_item_value now k i c | None \<Rightarrow> (None, c)))"

definition lru_clear :: "('k, 'v) lru \<Rightarrow> ('k, 'v) lru" where
  "lru_clear c = c\<lparr>cache := [], old_cache := [], lru_count := 0\<rparr>"

text \<open>\<open>_entriesAscending\<close>: the old entries that have no recent one, then the recent ones; the expired ones
  are deleted on the way.\<close>

fun visit :: "nat \<Rightarrow> bool \<Rightarrow> ('k \<times> 'v item) list \<Rightarrow> ('k, 'v) lru \<Rightarrow> ('k \<times> 'v item) list \<times> ('k, 'v) lru" where
  "visit now old [] c = ([], c)"
| "visit now old ((k, i) # es) c =
     (if old \<and> gm_get (cache c) k \<noteq> None then visit now old es c
      else
        (let (d, c') = delete_if_expired now k i c; (r, c'') = visit now old es c'
         in (if d then r else (k, i) # r, c'')))"

definition entries_ascending :: "nat \<Rightarrow> ('k, 'v) lru \<Rightarrow> ('k \<times> 'v item) list \<times> ('k, 'v) lru" where
  "entries_ascending now c =
     (let (r1, c1) = visit now True (old_cache c) c; (r2, c2) = visit now False (cache c1) c1 in (r1 @ r2, c2))"

definition lru_resize :: "nat \<Rightarrow> nat \<Rightarrow> ('k, 'v) lru \<Rightarrow> ('k, 'v) lru js" where
  "lru_resize now e c =
     (if e = 0 then Throw ''`maxSize` must be a number greater than 0''
      else
        (let (t, c1) = entries_ascending now c;
             c2 = (if length t < e then c1\<lparr>cache := t, old_cache := [], lru_count := length t\<rparr>
                   else c1\<lparr>evicted := evicted c1 @ plain_entries (take (length t - e) t),
                           old_cache := drop (length t - e) t, cache := [], lru_count := 0\<rparr>)
         in Value (c2\<lparr>max_size := e\<rparr>)))"

text \<open>The getter \<open>size\<close>.\<close>

definition lru_size :: "('k, 'v) lru \<Rightarrow> nat" where
  "lru_size c =
     (if lru_count c = 0 then length (old_cache c)
      else min (lru_count c + length (filter (\<lambda>(k, i). gm_get (cache c) k = None) (old_cache c))) (max_size c))"

section \<open>The invariant\<close>

definition lru_ok :: "('k, 'v) lru \<Rightarrow> bool" where
  "lru_ok c \<longleftrightarrow> gm_ok (cache c) \<and> gm_ok (old_cache c) \<and> lru_count c = length (cache c)
     \<and> length (cache c) < max_size c \<and> length (old_cache c) \<le> max_size c"

definition lru_item :: "('k, 'v) lru \<Rightarrow> 'k \<Rightarrow> 'v item option" where
  "lru_item c k = (case gm_get (cache c) k of Some i \<Rightarrow> Some i | None \<Rightarrow> gm_get (old_cache c) k)"

definition lru_content :: "('k, 'v) lru \<Rightarrow> 'k \<Rightarrow> 'v option" where
  "lru_content c k = map_option item_value (lru_item c k)"

lemma length_gm_put: "length (gm_put k v m) = (if gm_get m k = None then Suc (length m) else length m)"
  by (induction m) (auto simp: gm_put_def gm_get_def)

lemma length_gm_del: "gm_ok m \<Longrightarrow> length (gm_del k m) = (if gm_get m k = None then length m else length m - 1)"
proof (induction m)
  case (Cons x m)
  have "gm_get m (fst x) = None" using Cons.prems by (auto simp: gm_ok_def gm_get_def map_of_eq_None_iff)
  then show ?case using Cons by (cases m) (auto simp: gm_del_def gm_ok_def gm_get_def split: if_splits)
qed (simp add: gm_del_def gm_get_def)

lemma gm_get_not_Nil: "gm_get m k = Some v \<Longrightarrow> 0 < length m"
  by (cases m) (auto simp: gm_get_def)

lemma lru_delete_ok: "lru_ok c \<Longrightarrow> lru_ok (snd (lru_delete k c))"
  by (auto simp: lru_ok_def lru_delete_def Let_def length_gm_del)

lemma lru_delete_item: "lru_ok c \<Longrightarrow> lru_item (snd (lru_delete k c)) = (lru_item c)(k := None)"
  by (auto simp: lru_ok_def lru_delete_def lru_item_def Let_def fun_eq_iff split: option.split)

lemma lru_evicted_ok [simp]: "lru_ok (c\<lparr>evicted := e\<rparr>) = lru_ok c" "lru_item (c\<lparr>evicted := e\<rparr>) = lru_item c"
  by (simp_all add: lru_ok_def lru_item_def fun_eq_iff split: option.split)

lemma delete_if_expired_ok: "lru_ok c \<Longrightarrow> lru_ok (snd (delete_if_expired now k i c))"
  by (simp add: delete_if_expired_def lru_delete_ok)

lemma delete_if_expired_item:
  "lru_ok c \<Longrightarrow> lru_item (snd (delete_if_expired now k i c)) = (if expired now i then (lru_item c)(k := None) else lru_item c)"
  by (simp add: delete_if_expired_def lru_delete_item)

lemma delete_if_expired_fst: "lru_item c k \<noteq> None \<Longrightarrow> fst (delete_if_expired now k i c) = expired now i"
  by (auto simp: delete_if_expired_def lru_delete_def lru_item_def Let_def split: option.splits)

text \<open>Putting an entry: it is there afterwards, and what else is there was there before, unless it was old.\<close>

lemma lru_put_ok: "lru_ok c \<Longrightarrow> gm_get (cache c) k = None \<Longrightarrow> lru_ok (lru_put k i c)"
  by (auto simp: lru_ok_def lru_put_def Let_def length_gm_put)

lemma lru_put_item:
  assumes "lru_ok c" and "gm_get (cache c) k = None"
  shows "lru_item (lru_put k i c) j =
    (if j = k then Some i else if max_size c \<le> lru_count c + 1 then gm_get (cache c) j else lru_item c j)"
  using assms by (auto simp: lru_ok_def lru_put_def lru_item_def Let_def split: option.split)

lemma move_to_recent_ok:
  assumes "lru_ok c" and "gm_get (cache c) k = None"
  shows "lru_ok (move_to_recent k i c)"
proof -
  have "lru_ok (c\<lparr>old_cache := gm_del k (old_cache c)\<rparr>)" using assms by (auto simp: lru_ok_def length_gm_del)
  then show ?thesis using lru_put_ok [of "c\<lparr>old_cache := gm_del k (old_cache c)\<rparr>" k i] assms(2) by (simp add: move_to_recent_def)
qed

lemma move_to_recent_item:
  assumes "lru_ok c" and "gm_get (cache c) k = None"
  shows "lru_item (move_to_recent k i c) j =
    (if j = k then Some i else if max_size c \<le> lru_count c + 1 then gm_get (cache c) j else lru_item c j)"
proof -
  have "lru_ok (c\<lparr>old_cache := gm_del k (old_cache c)\<rparr>)" using assms by (auto simp: lru_ok_def length_gm_del)
  then have "lru_item (move_to_recent k i c) j =
      (if j = k then Some i else if max_size c \<le> lru_count c + 1 then gm_get (cache c) j
       else lru_item (c\<lparr>old_cache := gm_del k (old_cache c)\<rparr>) j)"
    using lru_put_item [of "c\<lparr>old_cache := gm_del k (old_cache c)\<rparr>" k i j] assms(2) by (simp add: move_to_recent_def)
  moreover have "j \<noteq> k \<Longrightarrow> lru_item (c\<lparr>old_cache := gm_del k (old_cache c)\<rparr>) j = lru_item c j"
    using assms(1) by (simp add: lru_item_def lru_ok_def split: option.split)
  ultimately show ?thesis by simp
qed

section \<open>What the operations do to the entries\<close>

lemma get_item_value_ok: "lru_ok c \<Longrightarrow> lru_ok (snd (get_item_value now k i c))"
  by (simp add: get_item_value_def Let_def split_def delete_if_expired_ok)

lemma get_item_value_item: "lru_ok c \<Longrightarrow> lru_item (snd (get_item_value now k i c)) \<subseteq>\<^sub>m lru_item c"
  by (auto simp: get_item_value_def Let_def split_def delete_if_expired_item map_le_def)

lemma get_item_value_fst: "lru_item c k = Some i \<Longrightarrow> fst (get_item_value now k i c) \<in> {None, Some (item_value i)}"
  by (auto simp: get_item_value_def Let_def split_def)

lemma item_le_content: "lru_item c' \<subseteq>\<^sub>m lru_item c \<Longrightarrow> lru_content c' \<subseteq>\<^sub>m lru_content c"
  by (fastforce simp: map_le_def lru_content_def dom_def)

text \<open>Reading: entries may go, those that stay are the same, and what is read is the value of the entry.\<close>

definition reads :: "'k \<Rightarrow> ('k, 'v) lru \<Rightarrow> 'v option \<times> ('k, 'v) lru \<Rightarrow> bool" where
  "reads k c p \<longleftrightarrow> lru_ok (snd p) \<and> lru_content (snd p) \<subseteq>\<^sub>m lru_content c \<and> fst p \<in> {None, lru_content c k}
     \<and> max_size (snd p) = max_size c \<and> default_age (snd p) = default_age c"

lemma setting_kept [simp]:
  "max_size (snd (lru_delete k c)) = max_size c" "default_age (snd (lru_delete k c)) = default_age c"
  "max_size (snd (delete_if_expired now k i c)) = max_size c" "default_age (snd (delete_if_expired now k i c)) = default_age c"
  "max_size (lru_put k i c) = max_size c" "default_age (lru_put k i c) = default_age c"
  "max_size (move_to_recent k i c) = max_size c" "default_age (move_to_recent k i c) = default_age c"
  by (simp_all add: lru_delete_def delete_if_expired_def lru_put_def move_to_recent_def Let_def)

lemma get_item_value_reads: "lru_ok c \<Longrightarrow> lru_item c k = Some i \<Longrightarrow> reads k c (get_item_value now k i c)"
  using get_item_value_ok [of c now k i] item_le_content [OF get_item_value_item [of c now k i]] get_item_value_fst [of c k i now]
  by (auto simp: reads_def lru_content_def get_item_value_def Let_def split_def)

lemma move_to_recent_le:
  assumes "lru_ok c" and "gm_get (cache c) k = None" and "gm_get (old_cache c) k = Some i"
  shows "lru_item (move_to_recent k i c) \<subseteq>\<^sub>m lru_item c"
  using move_to_recent_item [OF assms(1,2), of i] assms(2,3) by (auto simp: map_le_def lru_item_def split: if_splits)

lemma lru_get_reads:
  assumes "lru_ok c" shows "reads k c (lru_get now k c)"
proof (cases "gm_get (cache c) k")
  case (Some i)
  then show ?thesis using get_item_value_reads [OF assms, of k i] by (simp add: lru_get_def lru_item_def)
next
  case None
  show ?thesis
  proof (cases "gm_get (old_cache c) k")
    case None': None
    then show ?thesis using None assms by (simp add: lru_get_def reads_def)
  next
    case (Some i)
    have i: "lru_item c k = Some i" using None Some by (simp add: lru_item_def)
    show ?thesis
    proof (cases "expired now i")
      case True
      then show ?thesis
        using None Some i delete_if_expired_ok [OF assms, of now k i] delete_if_expired_fst [of c k now i]
          item_le_content [of "snd (delete_if_expired now k i c)" c] delete_if_expired_item [OF assms, of now k i]
        by (auto simp: lru_get_def reads_def Let_def split_def map_le_def)
    next
      case False
      then show ?thesis
        using None Some i move_to_recent_ok [OF assms None] item_le_content [OF move_to_recent_le [OF assms None Some]]
        by (simp add: lru_get_def reads_def delete_if_expired_def lru_content_def)
    qed
  qed
qed

lemma lru_peek_reads:
  assumes "lru_ok c" shows "reads k c (lru_peek now k c)"
proof (cases "lru_item c k")
  case None
  then show ?thesis using assms by (auto simp: lru_peek_def lru_item_def reads_def split: option.splits)
next
  case (Some i)
  then have "lru_peek now k c = get_item_value now k i c" by (auto simp: lru_peek_def lru_item_def split: option.splits)
  then show ?thesis using get_item_value_reads [OF assms Some] by simp
qed

lemma lru_has_shape: "snd (lru_has now k c) = (case lru_item c k of Some i \<Rightarrow> snd (delete_if_expired now k i c) | None \<Rightarrow> c)"
  by (auto simp: lru_has_def lru_item_def Let_def split_def split: option.splits)

lemma lru_has_value: "fst (lru_has now k c) \<longleftrightarrow> (\<exists>i. lru_item c k = Some i \<and> \<not> expired now i)"
  using delete_if_expired_fst [of c k now] by (auto simp: lru_has_def lru_item_def Let_def split_def split: option.splits)

lemma lru_has_reads: "lru_ok c \<Longrightarrow> reads k c (None, snd (lru_has now k c))"
  using delete_if_expired_ok [of c now k] delete_if_expired_item [of c now k]
    item_le_content [of "snd (delete_if_expired now k i c)" c for i]
  by (auto simp: reads_def lru_has_shape map_le_def split: option.split)

text \<open>Writing.\<close>

lemma lru_set_ok: "lru_ok c \<Longrightarrow> lru_ok (lru_set now k v age c)"
  using lru_put_ok [of c k] by (auto simp: lru_set_def Let_def lru_ok_def length_gm_put)

lemma lru_set_content:
  assumes "lru_ok c"
  shows "lru_content (lru_set now k v age c) \<subseteq>\<^sub>m (lru_content c)(k \<mapsto> v)" and "lru_content (lru_set now k v age c) k = Some v"
proof -
  have "lru_content (lru_set now k v age c) k = Some v
      \<and> (j \<noteq> k \<longrightarrow> lru_content (lru_set now k v age c) j \<in> {None, lru_content c j})" for j
  proof (cases "gm_get (cache c) k = None")
    case True
    then show ?thesis
      using lru_put_item [OF assms True, where j = k] lru_put_item [OF assms True, where j = j]
      by (cases "gm_get (cache c) j") (auto simp: lru_set_def lru_content_def Let_def lru_item_def [of c j])
  next
    case False
    then show ?thesis
      using assms by (cases "gm_get (cache c) j") (auto simp: lru_set_def lru_content_def lru_item_def Let_def lru_ok_def)
  qed
  then show "lru_content (lru_set now k v age c) \<subseteq>\<^sub>m (lru_content c)(k \<mapsto> v)" "lru_content (lru_set now k v age c) k = Some v"
    unfolding map_le_def by (metis domD fun_upd_apply insertE option.distinct(1) singletonD)+
qed

lemma lru_delete_content: "lru_ok c \<Longrightarrow> lru_content (snd (lru_delete k c)) = (lru_content c)(k := None)"
  by (simp add: lru_content_def lru_delete_item fun_eq_iff)

lemma lru_clear_ok: "lru_ok c \<Longrightarrow> lru_ok (lru_clear c) \<and> lru_content (lru_clear c) = Map.empty"
  by (auto simp: lru_ok_def lru_clear_def lru_content_def lru_item_def fun_eq_iff)

section \<open>Resizing\<close>

lemma gm_del_absent: "gm_get m k = None \<Longrightarrow> gm_del k m = m"
  by (auto simp: gm_del_def gm_get_def map_of_eq_None_iff filter_id_conv image_iff split_def)

lemma delete_old: "lru_ok c \<Longrightarrow> gm_get (cache c) k = None \<Longrightarrow> cache (snd (delete_if_expired now k i c)) = cache c"
  by (simp add: delete_if_expired_def lru_delete_def Let_def gm_del_absent)

text \<open>What \<open>visit\<close> gives are entries it was given, each key once, and it keeps the invariant.\<close>

lemma visit_ok:
  "lru_ok c \<Longrightarrow> distinct (map fst es) \<Longrightarrow> visit now old es c = (r, c') \<Longrightarrow>
     lru_ok c' \<and> lru_item c' \<subseteq>\<^sub>m lru_item c \<and> set r \<subseteq> set es \<and> distinct (map fst r)
     \<and> max_size c' = max_size c \<and> default_age c' = default_age c
     \<and> (old \<longrightarrow> cache c' = cache c \<and> (\<forall>e\<in>set r. gm_get (cache c) (fst e) = None))"
proof (induction now old es c arbitrary: r c' rule: visit.induct)
  case (2 now old k i es c)
  show ?case
  proof (cases "old \<and> gm_get (cache c) k \<noteq> None")
    case True
    then have v: "visit now old es c = (r, c')" using 2(5) by simp
    have "distinct (map fst es)" using 2(4) by simp
    then show ?thesis using 2(1) [OF True 2(3) _ v] by auto
  next
    case False
    obtain d c1 where d: "delete_if_expired now k i c = (d, c1)" by (metis surj_pair)
    obtain r1 where r1: "visit now old es c1 = (r1, c')" "r = (if d then r1 else (k, i) # r1)"
      using 2(5) False d by (auto simp: Let_def split: prod.splits)
    have c1: "lru_ok c1" "lru_item c1 \<subseteq>\<^sub>m lru_item c" "max_size c1 = max_size c" "default_age c1 = default_age c"
      using delete_if_expired_ok [OF 2(3), of now k i] delete_if_expired_item [OF 2(3), of now k i] d
        setting_kept(3,4) [of now k i c]
      by (auto simp: map_le_def split: if_splits)
    have o: "old \<Longrightarrow> cache c1 = cache c" using delete_old [OF 2(3), of k now i] False d by simp
    have IH: "lru_ok c' \<and> lru_item c' \<subseteq>\<^sub>m lru_item c1 \<and> set r1 \<subseteq> set es \<and> distinct (map fst r1)
        \<and> max_size c' = max_size c1 \<and> default_age c' = default_age c1
        \<and> (old \<longrightarrow> cache c' = cache c1 \<and> (\<forall>e\<in>set r1. gm_get (cache c1) (fst e) = None))"
      using 2(2) [OF False d [symmetric] refl c1(1) _ r1(1)] 2(4) by simp
    moreover have "fst ` set r1 \<subseteq> fst ` set es" using IH by blast
    ultimately show ?thesis
      using c1 o False 2(4) r1(2) map_le_trans [of "lru_item c'" "lru_item c1" "lru_item c"] by auto
  qed
qed simp

lemma entries_ascending_ok:
  assumes "lru_ok c" and "entries_ascending now c = (t, c')"
  shows "lru_ok c' \<and> gm_ok t \<and> gm_get t \<subseteq>\<^sub>m lru_item c \<and> default_age c' = default_age c"
proof -
  obtain r1 c1 where v1: "visit now True (old_cache c) c = (r1, c1)" by (metis surj_pair)
  obtain r2 where v2: "visit now False (cache c1) c1 = (r2, c')" "t = r1 @ r2"
    using assms(2) v1 by (auto simp: entries_ascending_def Let_def split: prod.splits)
  have o: "gm_ok (cache c)" "gm_ok (old_cache c)" using assms(1) by (simp_all add: lru_ok_def)
  have a: "lru_ok c1" "set r1 \<subseteq> set (old_cache c)" "distinct (map fst r1)" "cache c1 = cache c" "default_age c1 = default_age c"
    "\<And>e. e \<in> set r1 \<Longrightarrow> gm_get (cache c) (fst e) = None"
    using visit_ok [OF assms(1) _ v1] o(2) by (auto simp: gm_ok_def)
  have b: "lru_ok c'" "set r2 \<subseteq> set (cache c)" "distinct (map fst r2)" "default_age c' = default_age c1"
    using visit_ok [OF a(1) _ v2(1)] o(1) a(4) by (auto simp: gm_ok_def)
  have in2: "gm_get (cache c) k = Some i" if "(k, i) \<in> set r2" for k i using that b(2) gm_get_in [OF o(1)] by blast
  have "fst ` set r1 \<inter> fst ` set r2 = {}"
  proof (rule ccontr)
    assume "fst ` set r1 \<inter> fst ` set r2 \<noteq> {}"
    then obtain k i j where "(k, i) \<in> set r1" "(k, j) \<in> set r2" by fastforce
    then show False using a(6) [of "(k, i)"] in2 by simp
  qed
  then have t: "gm_ok t" using a(3) b(3) by (simp add: gm_ok_def v2(2))
  have "lru_item c k = Some i" if "gm_get t k = Some i" for k i
  proof -
    have "(k, i) \<in> set r1 \<or> (k, i) \<in> set r2" using that t by (auto simp: gm_get_in v2(2))
    then show ?thesis
    proof
      assume "(k, i) \<in> set r1"
      then show ?thesis using a(2) a(6) [of "(k, i)"] gm_get_in [OF o(2), of k i] by (auto simp: lru_item_def)
    qed (simp add: lru_item_def in2)
  qed
  then show ?thesis using b(1,4) a(5) t by (auto simp: map_le_def)
qed

lemma lru_resize_ok:
  assumes "lru_ok c" and "lru_resize now e c = Value c'"
  shows "lru_ok c' \<and> lru_content c' \<subseteq>\<^sub>m lru_content c \<and> max_size c' = e"
proof -
  obtain t c1 where t: "entries_ascending now c = (t, c1)" by (metis surj_pair)
  have e: "e \<noteq> 0" using assms(2) by (auto simp: lru_resize_def split: if_splits)
  have a: "gm_ok t" "gm_get t \<subseteq>\<^sub>m lru_item c" using entries_ascending_ok [OF assms(1) t] by simp_all
  have d: "gm_ok (drop n t)" "gm_get (drop n t) \<subseteq>\<^sub>m lru_item c" for n
  proof -
    show o: "gm_ok (drop n t)" using a(1) by (simp add: gm_ok_def drop_map [symmetric])
    show "gm_get (drop n t) \<subseteq>\<^sub>m lru_item c"
      using a(2) gm_get_in [OF o] gm_get_in [OF a(1)] unfolding map_le_def by (metis domD domI in_set_dropD)
  qed
  show ?thesis
  proof (cases "length t < e")
    case True
    then have c': "c' = c1\<lparr>cache := t, old_cache := [], lru_count := length t, max_size := e\<rparr>"
      using assms(2) e t by (simp add: lru_resize_def Let_def)
    moreover have "lru_item c' = gm_get t" by (auto simp: c' lru_item_def fun_eq_iff split: option.split)
    ultimately show ?thesis using True a item_le_content [of c' c] by (simp add: lru_ok_def)
  next
    case False
    define n where "n = length t - e"
    have c': "c' = c1\<lparr>evicted := evicted c1 @ plain_entries (take n t), old_cache := drop n t, cache := [], lru_count := 0, max_size := e\<rparr>"
      using assms(2) e t False by (simp add: lru_resize_def Let_def n_def)
    moreover have "lru_item c' = gm_get (drop n t)" by (auto simp: c' lru_item_def fun_eq_iff)
    ultimately show ?thesis using False e d item_le_content [of c' c] by (simp add: lru_ok_def n_def)
  qed
qed

section \<open>Sequences of operations\<close>

datatype ('k, 'v) lru_op = Get 'k | Put 'k 'v "nat option" | Has 'k | Peek 'k | Delete 'k | Clear | Resize nat

fun lru_do :: "nat \<Rightarrow> ('k, 'v) lru_op \<Rightarrow> ('k, 'v) lru \<Rightarrow> ('k, 'v) lru js" where
  "lru_do now (Get k) c = Value (snd (lru_get now k c))"
| "lru_do now (Put k v age) c = Value (lru_set now k v age c)"
| "lru_do now (Has k) c = Value (snd (lru_has now k c))"
| "lru_do now (Peek k) c = Value (snd (lru_peek now k c))"
| "lru_do now (Delete k) c = Value (snd (lru_delete k c))"
| "lru_do now Clear c = Value (lru_clear c)"
| "lru_do now (Resize e) c = lru_resize now e c"

fun lru_run :: "(nat \<times> ('k, 'v) lru_op) list \<Rightarrow> ('k, 'v) lru \<Rightarrow> ('k, 'v) lru js" where
  "lru_run [] c = Value c"
| "lru_run ((now, x) # xs) c = js_bind (lru_do now x c) (lru_run xs)"

text \<open>The map without bounds and times that a cache stands for.\<close>

fun map_do :: "('k, 'v) lru_op \<Rightarrow> ('k \<rightharpoonup> 'v) \<Rightarrow> ('k \<rightharpoonup> 'v)" where
  "map_do (Put k v age) m = m(k \<mapsto> v)"
| "map_do (Delete k) m = m(k := None)"
| "map_do Clear m = Map.empty"
| "map_do _ m = m"

lemma map_le_upd: "m \<subseteq>\<^sub>m m' \<Longrightarrow> m(k := x) \<subseteq>\<^sub>m m'(k := x)"
  by (auto simp: map_le_def)

lemma lru_do_ok:
  assumes "lru_ok c" and "lru_content c \<subseteq>\<^sub>m m" and "lru_do now x c = Value c'"
  shows "lru_ok c' \<and> lru_content c' \<subseteq>\<^sub>m map_do x m"
proof (cases x)
  case (Get k)
  then show ?thesis
    using lru_get_reads [OF assms(1), of k now] assms(2,3) map_le_trans [of "lru_content c'" "lru_content c" m] by (auto simp: reads_def)
next
  case (Put k v age)
  then show ?thesis
    using lru_set_ok [OF assms(1)] map_le_trans [OF lru_set_content(1) [OF assms(1)] map_le_upd [OF assms(2)]] assms(3) by auto
next
  case (Has k)
  then show ?thesis
    using lru_has_reads [OF assms(1), of k now] assms(2,3) map_le_trans [of "lru_content c'" "lru_content c" m] by (auto simp: reads_def)
next
  case (Peek k)
  then show ?thesis
    using lru_peek_reads [OF assms(1), of k now] assms(2,3) map_le_trans [of "lru_content c'" "lru_content c" m] by (auto simp: reads_def)
next
  case (Delete k)
  then show ?thesis
    using lru_delete_ok [OF assms(1)] lru_delete_content [OF assms(1)] map_le_upd [OF assms(2)] assms(3) by auto
next
  case Clear
  then show ?thesis using lru_clear_ok [OF assms(1)] assms(3) by auto
next
  case (Resize e)
  then show ?thesis
    using lru_resize_ok [OF assms(1), of now e c'] assms(2,3) map_le_trans [of "lru_content c'" "lru_content c" m] by auto
qed

lemma lru_run_ok:
  "lru_ok c \<Longrightarrow> lru_content c \<subseteq>\<^sub>m m \<Longrightarrow> lru_run xs c = Value c' \<Longrightarrow> lru_ok c' \<and> lru_content c' \<subseteq>\<^sub>m fold map_do (map snd xs) m"
proof (induction xs arbitrary: c m)
  case (Cons y xs)
  obtain now x where y: "y = (now, x)" by (cases y)
  then obtain c1 where "lru_do now x c = Value c1" "lru_run xs c1 = Value c'" using Cons.prems(3) by auto
  then show ?case using lru_do_ok [OF Cons.prems(1,2), of now x c1] Cons.IH [of c1 "map_do x m"] y by simp
qed simp

lemma new_lru_ok: "new_lru n age = Value c \<Longrightarrow> lru_ok c \<and> lru_content c = Map.empty"
  by (auto simp: new_lru_def lru_ok_def lru_content_def lru_item_def fun_eq_iff split: option.splits if_splits)

text \<open>
  C6. A cache refines a map that never forgets: whatever sequence of operations was made, at whatever
  times, what it gives for a key is what was last put in under that key and not deleted since; an
  entry of the old map never comes up again after a newer one.
\<close>

theorem lru_refines_map:
  assumes "new_lru n age = Value c0" and "lru_run xs c0 = Value c" and "fst (lru_get now k c) = Some v"
  shows "fold map_do (map snd xs) Map.empty k = Some v"
proof -
  have "lru_ok c \<and> lru_content c \<subseteq>\<^sub>m fold map_do (map snd xs) Map.empty"
    using new_lru_ok [OF assms(1)] lru_run_ok [OF _ _ assms(2)] by simp
  moreover from this have "lru_content c k = Some v" using lru_get_reads [of c k now] assms(3) by (simp add: reads_def)
  ultimately show ?thesis unfolding map_le_def by (metis domI)
qed

text \<open>
  C31. The bounds of a cache: whatever was done, \<open>size\<close> is at most \<open>maxSize\<close>, and fewer than twice
  \<open>maxSize\<close> entries are held.
\<close>

theorem lru_bounds:
  assumes "new_lru n age = Value c0" and "lru_run xs c0 = Value c"
  shows "lru_size c \<le> max_size c \<and> length (cache c) + length (old_cache c) < 2 * max_size c"
proof -
  have "lru_ok c" using new_lru_ok [OF assms(1)] lru_run_ok [OF _ map_le_refl assms(2)] by simp
  then show ?thesis by (auto simp: lru_ok_def lru_size_def)
qed

lemma lru_do_age:
  assumes "lru_ok c" and "lru_do now x c = Value c'" shows "default_age c' = default_age c"
proof (cases x)
  case (Resize e)
  obtain t c1 where t: "entries_ascending now c = (t, c1)" by (metis surj_pair)
  have "default_age c' = default_age c1"
    using assms(2) Resize t by (auto simp: lru_resize_def Let_def split: if_splits)
  then show ?thesis using entries_ascending_ok [OF assms(1) t] by simp
qed (use assms lru_get_reads [OF assms(1)] lru_has_reads [OF assms(1)] lru_peek_reads [OF assms(1)]
    in \<open>auto simp: reads_def lru_set_def lru_clear_def Let_def\<close>)

lemma lru_run_age: "lru_ok c \<Longrightarrow> lru_run xs c = Value c' \<Longrightarrow> default_age c' = default_age c"
proof (induction xs arbitrary: c)
  case (Cons y xs)
  obtain now x where y: "y = (now, x)" by (cases y)
  then obtain c1 where "lru_do now x c = Value c1" "lru_run xs c1 = Value c'" using Cons.prems(2) by auto
  then show ?case
    using Cons.IH [of c1] lru_do_ok [OF Cons.prems(1) map_le_refl, of now x c1] lru_do_age [OF Cons.prems(1), of now x c1] by simp
qed simp

section \<open>What was used lately is kept\<close>

text \<open>The entry \<open>i\<close> of \<open>k\<close> after \<open>n\<close> operations: it is recent, or old with few recent entries.\<close>

definition kept :: "'k \<Rightarrow> 'v item \<Rightarrow> nat \<Rightarrow> ('k, 'v) lru \<Rightarrow> bool" where
  "kept k i n c \<longleftrightarrow> lru_ok c \<and> (gm_get (cache c) k = Some i
     \<or> gm_get (cache c) k = None \<and> gm_get (old_cache c) k = Some i \<and> lru_count c \<le> n)"

lemma kept_item: "kept k i n c \<Longrightarrow> lru_item c k = Some i"
  by (auto simp: kept_def lru_item_def)

lemma kept_Suc: "kept k i n c \<Longrightarrow> kept k i (Suc n) c"
  by (auto simp: kept_def)

lemma lru_put_kept:
  assumes "kept k i n c" and "j \<noteq> k" and "gm_get (cache c) j = None" and "Suc n < max_size c"
  shows "kept k i (Suc n) (lru_put j x c)"
  using assms lru_put_ok [of c j x] by (auto simp: kept_def lru_put_def Let_def lru_ok_def)

lemma lru_put_keeps: "lru_ok c \<Longrightarrow> gm_get (cache c) k = None \<Longrightarrow> kept k i n (lru_put k i c)"
  using lru_put_ok [of c k i] by (auto simp: kept_def lru_put_def Let_def lru_ok_def)

lemma lru_delete_kept: "kept k i n c \<Longrightarrow> j \<noteq> k \<Longrightarrow> kept k i n (snd (lru_delete j c))"
  using lru_delete_ok [of c j] by (auto simp: kept_def lru_delete_def Let_def lru_ok_def length_gm_del)

lemma kept_evicted [simp]: "kept k i n (c\<lparr>evicted := e\<rparr>) = kept k i n c"
  by (simp add: kept_def)

lemma delete_if_expired_kept:
  assumes "kept k i n c" and "item_expiry i = None" and "lru_item c j = Some x"
  shows "kept k i n (snd (delete_if_expired now j x c))"
proof (cases "j = k")
  case True
  then show ?thesis using assms kept_item [OF assms(1)] by (simp add: delete_if_expired_def expired_iff)
next
  case False
  then show ?thesis using lru_delete_kept [of k i n "c\<lparr>evicted := evicted c @ [(j, item_value x)]\<rparr>" j] assms(1)
    by (simp add: delete_if_expired_def)
qed

lemma get_item_value_kept:
  "kept k i n c \<Longrightarrow> item_expiry i = None \<Longrightarrow> lru_item c j = Some x \<Longrightarrow> kept k i n (snd (get_item_value now j x c))"
  using delete_if_expired_kept [of k i n c j x now] by (simp add: get_item_value_def Let_def split_def)

lemma old_del_kept: "kept k i n c \<Longrightarrow> j \<noteq> k \<Longrightarrow> kept k i n (c\<lparr>old_cache := gm_del j (old_cache c)\<rparr>)"
  by (auto simp: kept_def lru_ok_def length_gm_del)

lemma lru_get_kept:
  assumes "kept k i n c" and "item_expiry i = None" and "Suc n < max_size c"
  shows "kept k i (Suc n) (snd (lru_get now j c))"
proof (cases "gm_get (cache c) j")
  case (Some x)
  then show ?thesis
    using get_item_value_kept [OF assms(1,2), of j x now] by (simp add: lru_get_def lru_item_def kept_Suc)
next
  case None
  show ?thesis
  proof (cases "gm_get (old_cache c) j")
    case None': None
    then show ?thesis using None assms(1) by (simp add: lru_get_def kept_Suc)
  next
    case (Some x)
    have x: "lru_item c j = Some x" using None Some by (simp add: lru_item_def)
    show ?thesis
    proof (cases "expired now x")
      case True
      then show ?thesis
        using None Some kept_Suc [OF delete_if_expired_kept [OF assms(1,2) x, of now]] delete_if_expired_fst [of c j now x] x
        by (simp add: lru_get_def Let_def split_def)
    next
      case False
      then have g: "snd (lru_get now j c) = lru_put j x (c\<lparr>old_cache := gm_del j (old_cache c)\<rparr>)"
        using None Some by (simp add: lru_get_def delete_if_expired_def move_to_recent_def)
      show ?thesis
      proof (cases "j = k")
        case True
        then have "x = i" using x kept_item [OF assms(1)] by simp
        moreover have "lru_ok (c\<lparr>old_cache := gm_del j (old_cache c)\<rparr>)"
          using assms(1) by (auto simp: kept_def lru_ok_def length_gm_del)
        ultimately show ?thesis using lru_put_keeps [of "c\<lparr>old_cache := gm_del j (old_cache c)\<rparr>" k i] None g True by simp
      next
        case False
        then show ?thesis using lru_put_kept [OF old_del_kept [OF assms(1) False], of j x] None assms(3) g by simp
      qed
    qed
  qed
qed

text \<open>Operations that use other keys, or look at this one.\<close>

fun spares :: "'k \<Rightarrow> ('k, 'v) lru_op \<Rightarrow> bool" where
  "spares k (Put j v age) \<longleftrightarrow> j \<noteq> k"
| "spares k (Delete j) \<longleftrightarrow> j \<noteq> k"
| "spares k Clear \<longleftrightarrow> False"
| "spares k (Resize e) \<longleftrightarrow> False"
| "spares k _ \<longleftrightarrow> True"

lemma lru_set_kept:
  assumes "kept k i n c" and "j \<noteq> k" and "Suc n < max_size c"
  shows "kept k i (Suc n) (lru_set now j v age c)"
proof (cases "gm_get (cache c) j = None")
  case True
  then show ?thesis using lru_put_kept [OF assms(1,2) True assms(3)] by (simp add: lru_set_def)
next
  case False
  then show ?thesis using assms by (auto simp: lru_set_def kept_def lru_ok_def length_gm_put)
qed

lemma lru_peek_kept:
  assumes "kept k i n c" and "item_expiry i = None" shows "kept k i n (snd (lru_peek now j c))"
proof (cases "lru_item c j")
  case None
  then show ?thesis using assms(1) by (auto simp: lru_peek_def lru_item_def split: option.splits)
next
  case (Some x)
  then have "lru_peek now j c = get_item_value now j x c" by (auto simp: lru_peek_def lru_item_def split: option.splits)
  then show ?thesis using get_item_value_kept [OF assms Some] by simp
qed

lemma lru_has_kept: "kept k i n c \<Longrightarrow> item_expiry i = None \<Longrightarrow> kept k i n (snd (lru_has now j c))"
  using delete_if_expired_kept [of k i n c j] by (auto simp: lru_has_shape split: option.split)

lemma lru_do_kept:
  assumes "kept k i n c" and "item_expiry i = None" and "Suc n < max_size c" and "spares k x" and "lru_do now x c = Value c'"
  shows "kept k i (Suc n) c' \<and> max_size c' = max_size c"
proof (cases x)
  case (Get j)
  have "max_size (snd (lru_get now j c)) = max_size c" using lru_get_reads [of c j now] assms(1) by (simp add: reads_def kept_def)
  then show ?thesis using Get lru_get_kept [OF assms(1,2,3), of now j] assms(5) by auto
next
  case (Put j v age)
  then show ?thesis using lru_set_kept [OF assms(1) _ assms(3), of j now v age] assms(4,5) by (auto simp: lru_set_def Let_def)
next
  case (Has j)
  have "max_size (snd (lru_has now j c)) = max_size c" using lru_has_reads [of c j now] assms(1) by (simp add: reads_def kept_def)
  then show ?thesis using Has kept_Suc [OF lru_has_kept [OF assms(1,2), of now j]] assms(5) by auto
next
  case (Peek j)
  have "max_size (snd (lru_peek now j c)) = max_size c" using lru_peek_reads [of c j now] assms(1) by (simp add: reads_def kept_def)
  then show ?thesis using Peek kept_Suc [OF lru_peek_kept [OF assms(1,2), of now j]] assms(5) by auto
next
  case (Delete j)
  then show ?thesis using kept_Suc [OF lru_delete_kept [OF assms(1), of j]] assms(4,5) by auto
qed (use assms(4) in simp_all)

lemma lru_run_kept:
  "kept k i n c \<Longrightarrow> item_expiry i = None \<Longrightarrow> n + length xs < max_size c \<Longrightarrow> list_all (spares k) (map snd xs) \<Longrightarrow>
     lru_run xs c = Value c' \<Longrightarrow> kept k i (n + length xs) c'"
proof (induction xs arbitrary: c n)
  case (Cons y xs)
  obtain now x where y: "y = (now, x)" by (cases y)
  then obtain c1 where c1: "lru_do now x c = Value c1" "lru_run xs c1 = Value c'" using Cons.prems(5) by auto
  have "kept k i (Suc n) c1 \<and> max_size c1 = max_size c"
    using lru_do_kept [OF Cons.prems(1,2) _ _ c1(1)] Cons.prems(3,4) y by simp
  then show ?case using Cons.IH [of "Suc n" c1] Cons.prems(2-4) c1(2) by simp
qed simp

text \<open>
  C7. What was used lately is kept, in a cache that was made without \<open>maxAge\<close>: after a value was put in without
  an age, fewer than \<open>maxSize\<close> further operations leave it there, of any kind but putting in or deleting
  this key, clearing the cache and changing its size.
\<close>

theorem recent_is_kept:
  assumes "new_lru n None = Value c0" and "lru_run xs c0 = Value c" and "lru_run ys (lru_set now k v None c) = Value c'"
    and "length ys < max_size c" and "list_all (spares k) (map snd ys)"
  shows "fst (lru_get now' k c') = Some v"
proof -
  have c: "lru_ok c" using new_lru_ok [OF assms(1)] lru_run_ok [OF _ map_le_refl assms(2)] by simp
  have age: "default_age c = None"
    using new_lru_ok [OF assms(1)] lru_run_age [OF _ assms(2)] assms(1) by (auto simp: new_lru_def split: option.splits if_splits)
  define i where "i = \<lparr>item_value = v, item_expiry = None :: nat option, item_max_age = None\<rparr>"
  have s: "kept k i 0 (lru_set now k v None c)"
  proof (cases "gm_get (cache c) k = None")
    case True
    then show ?thesis using lru_put_keeps [OF c True, of i 0] age by (simp add: lru_set_def i_def)
  next
    case False
    then show ?thesis using lru_set_ok [OF c, of now k v None] c age by (auto simp: lru_set_def i_def kept_def lru_ok_def)
  qed
  have "max_size (lru_set now k v None c) = max_size c" by (simp add: lru_set_def Let_def)
  then have "kept k i (length ys) c'"
    using lru_run_kept [OF s _ _ assms(5,3)] assms(4) by (simp add: i_def)
  then show ?thesis
    by (auto simp: kept_def lru_get_def get_item_value_def delete_if_expired_def expired_iff i_def)
qed

section \<open>Ages\<close>

text \<open>
  An age that is given with a value is taken for the time at which it expires: at any time after that
  many milliseconds the entry is gone at once.
\<close>

lemma age_is_a_time:
  assumes "lru_ok c" and "gm_get (cache c) k = None" and "a \<le> now"
  shows "\<not> fst (lru_has now k (lru_set now k v (Some a) c))"
  using lru_put_item [OF assms(1,2), of "\<lparr>item_value = v, item_expiry = Some a, item_max_age = None\<rparr>" k] assms(2,3)
  by (simp add: lru_has_value lru_set_def expired_iff)

text \<open>A value that replaces one in the recent map never expires, whatever the age of the cache.\<close>

lemma replaced_never_expires:
  assumes "lru_ok c" and "gm_get (cache c) k \<noteq> None"
  shows "fst (lru_has later k (lru_set now k v age c))"
  using assms by (auto simp: lru_has_value lru_set_def Let_def lru_item_def lru_ok_def expired_iff)

section \<open>The interface\<close>

interpretation ql: lossy_cache "lru_get now" "\<lambda>k v. lru_set now k v None" lru_content lru_ok for now
proof unfold_locales
  fix c :: "('a, 'b) lru" and k v
  assume c: "lru_ok c"
  show "lru_content (snd (lru_get now k c)) \<subseteq>\<^sub>m lru_content c" "lru_ok (snd (lru_get now k c))"
    using lru_get_reads [OF c, of k now] by (simp_all add: reads_def)
  show "lru_content c k = Some v" if "fst (lru_get now k c) = Some v"
    using lru_get_reads [OF c, of k now] that by (simp add: reads_def)
  show "lru_content (lru_set now k v None c) \<subseteq>\<^sub>m (lru_content c)(k \<mapsto> v)" by (rule lru_set_content(1) [OF c])
  show "lru_ok (lru_set now k v None c)" by (rule lru_set_ok [OF c])
qed

section \<open>Examples\<close>

definition sample_lru :: "(nat, nat) lru" where
  "sample_lru = \<lparr>max_size = 3, default_age = None, cache = [], old_cache = [], lru_count = 0, evicted = []\<rparr>"

definition sample_ops :: "(nat \<times> (nat, nat) lru_op) list" where
  "sample_ops = [(0, Put 1 10 None), (1, Put 2 20 None), (2, Get 1), (3, Put 3 30 None), (4, Put 4 40 None), (5, Get 2)]"

definition plain_item :: "nat \<Rightarrow> nat item" where
  "plain_item v = \<lparr>item_value = v, item_expiry = None, item_max_age = None\<rparr>"

definition sample_used :: "(nat, nat) lru" where
  "sample_used = \<lparr>max_size = 3, default_age = None, cache = [(4, plain_item 40), (2, plain_item 20)],
     old_cache = [(1, plain_item 10), (3, plain_item 30)], lru_count = 2, evicted = []\<rparr>"

lemma sample_new: "new_lru (Some 3) None = Value sample_lru"
  by (simp add: new_lru_def sample_lru_def)

lemma sample_run: "lru_run sample_ops sample_lru = Value sample_used"
  unfolding sample_ops_def sample_lru_def sample_used_def plain_item_def by code_simp

lemma lru_refines_map_witness: "fold map_do (map snd sample_ops) Map.empty 2 = Some 20"
proof -
  have "fst (lru_get 6 2 sample_used) = Some 20" unfolding sample_used_def plain_item_def by code_simp
  then show ?thesis by (rule lru_refines_map [OF sample_new sample_run])
qed

lemma lru_bounds_witness: "lru_size sample_used \<le> max_size sample_used \<and> length (cache sample_used) + length (old_cache sample_used) < 2 * max_size sample_used"
  by (rule lru_bounds [OF sample_new sample_run])

definition sample_more :: "(nat \<times> (nat, nat) lru_op) list" where
  "sample_more = [(7, Put 6 60 None), (8, Get 1)]"

definition sample_later :: "(nat, nat) lru" where
  "sample_later = (case lru_run sample_more (lru_set 6 5 50 None sample_used) of Value c \<Rightarrow> c | Throw e \<Rightarrow> sample_used)"

lemma sample_more_run: "lru_run sample_more (lru_set 6 5 50 None sample_used) = Value sample_later"
  unfolding sample_later_def sample_more_def sample_used_def plain_item_def by code_simp

lemma recent_is_kept_witness: "fst (lru_get 9 5 sample_later) = Some 50"
  by (rule recent_is_kept [OF sample_new sample_run sample_more_run]) (simp_all add: sample_more_def sample_used_def)

end
