(* ===== verification/Candidate_Extraction.thy ===== *)
theory Candidate_Extraction
  imports Quick_Lru
begin

text \<open>
  How Tailwind collects the candidates of a text in \<open>webgui/tailwind.js\<close> (\<open>O2\<close>): line by line, through
  a cache of the candidates of the lines that were seen before. The cache is a \<open>QuickLRU\<close> of 25000
  lines for every extractor (the \<open>WeakMap\<close> \<open>Li\<close>); an extractor is a parameter, a function from a line
  to its candidates. The theorem: the cache does not change what is collected.
\<close>

section \<open>Extraction\<close>

type_synonym lines_cache = "(string, string list) lru"

text \<open>The candidates of a line, without \<open>!*\<close>, as a set.\<close>

definition line_set :: "(string \<Rightarrow> string list) \<Rightarrow> string \<Rightarrow> string list" where
  "line_set e n = fold set_add (filter (\<lambda>x. x \<noteq> ''!*'') (e n)) []"

text \<open>One line: the candidates \<open>t\<close>, the lines \<open>i\<close> that were seen, and the cache.\<close>

definition extract_line ::
  "nat \<Rightarrow> (string \<Rightarrow> string list) \<Rightarrow> string \<Rightarrow> string list \<times> string list \<times> lines_cache \<Rightarrow> (string list \<times> string list \<times> lines_cache) js" where
  "extract_line now e line = (\<lambda>(t, i, c).
     let n = js_trim line
     in if n \<in> set i then Value (t, i, c)
        else
          (let i' = set_add n i; (h, c1) = lru_has now n c
           in if h then
                (case lru_get now n c1 of
                   (Some s, c2) \<Rightarrow> Value (fold set_add s t, i', c2)
                 | (None, c2) \<Rightarrow> Throw ''TypeError'')
              else
                (let a = line_set e n in Value (fold set_add a t, i', lru_set now n a None c1))))"

fun extract_lines ::
  "nat \<Rightarrow> (string \<Rightarrow> string list) \<Rightarrow> string list \<Rightarrow> string list \<times> string list \<times> lines_cache \<Rightarrow> (string list \<times> string list \<times> lines_cache) js" where
  "extract_lines now e [] p = Value p"
| "extract_lines now e (l # ls) p = js_bind (extract_line now e l p) (extract_lines now e ls)"

text \<open>\<open>O2(r, e, t, i)\<close>; \<open>ext\<close> is what the extractors do.\<close>

definition extract_candidates ::
  "('e \<Rightarrow> string \<Rightarrow> string list) \<Rightarrow> nat \<Rightarrow> string \<Rightarrow> 'e \<Rightarrow> string list \<Rightarrow> string list \<Rightarrow> ('e \<rightharpoonup> lines_cache)
     \<Rightarrow> (string list \<times> string list \<times> ('e \<rightharpoonup> lines_cache)) js" where
  "extract_candidates ext now r e t i li =
     js_bind (case li e of Some c \<Rightarrow> Value c | None \<Rightarrow> new_lru (Some 25000) None) (\<lambda>c.
       js_bind (extract_lines now (ext e) (split_on newline r) (t, i, c)) (\<lambda>(t', i', c').
         Value (t', i', li(e \<mapsto> c'))))"

section \<open>Without the cache\<close>

definition plain_line :: "(string \<Rightarrow> string list) \<Rightarrow> string \<Rightarrow> string list \<times> string list \<Rightarrow> string list \<times> string list" where
  "plain_line e line = (\<lambda>(t, i).
     let n = js_trim line in if n \<in> set i then (t, i) else (fold set_add (line_set e n) t, set_add n i))"

definition plain_candidates ::
  "(string \<Rightarrow> string list) \<Rightarrow> string \<Rightarrow> string list \<Rightarrow> string list \<Rightarrow> string list \<times> string list" where
  "plain_candidates e r t i = fold (plain_line e) (split_on newline r) (t, i)"

text \<open>A cache whose entries have no age and are the candidates of their lines.\<close>

definition ageless :: "('k, 'v) lru \<Rightarrow> bool" where
  "ageless c \<longleftrightarrow> default_age c = None \<and> (\<forall>k i. lru_item c k = Some i \<longrightarrow> item_expiry i = None)"

lemma ageless_not_expired: "ageless c \<Longrightarrow> lru_item c k = Some i \<Longrightarrow> \<not> expired now i"
  by (auto simp: ageless_def expired_iff)

lemma has_ageless: "ageless c \<Longrightarrow> lru_has now k c = (lru_item c k \<noteq> None, c)"
  using lru_has_value [of now k c] lru_has_shape [of now k c] ageless_not_expired [of c k]
  by (cases "lru_item c k") (auto simp: prod_eq_iff delete_if_expired_def)

lemma get_ageless:
  assumes "lru_ok c" and "ageless c" and "lru_item c k = Some i"
  shows "fst (lru_get now k c) = Some (item_value i) \<and> ageless (snd (lru_get now k c))"
proof (cases "gm_get (cache c) k")
  case (Some j)
  then have "j = i" using assms(3) by (simp add: lru_item_def)
  then show ?thesis using Some assms(2,3) by (simp add: lru_get_def get_item_value_def ageless_def)
next
  case None
  then have o: "gm_get (old_cache c) k = Some i" using assms(3) by (simp add: lru_item_def)
  then have g: "lru_get now k c = (Some (item_value i), move_to_recent k i c)"
    using None ageless_not_expired [OF assms(2,3)] by (simp add: lru_get_def delete_if_expired_def)
  have "item_expiry x = None" if "lru_item (move_to_recent k i c) j = Some x" for j x
    using move_to_recent_le [OF assms(1) None o] that assms(2) unfolding map_le_def ageless_def by (metis domI)
  then show ?thesis using assms(2) g by (simp add: ageless_def)
qed

lemma set_ageless:
  assumes "lru_ok c" and "ageless c" shows "ageless (lru_set now k v None c)"
proof -
  have "item_expiry x = None" if "lru_item (lru_set now k v None c) j = Some x" for j x
  proof (cases "gm_get (cache c) k = None")
    case True
    have "lru_item c j = Some x" if "j \<noteq> k"
      using \<open>lru_item (lru_set now k v None c) j = Some x\<close> that lru_put_item [OF assms(1) True, where j = j] True
      by (auto simp: lru_set_def lru_item_def [of c j] split: if_splits)
    moreover have "item_expiry x = None" if "j = k"
      using \<open>lru_item (lru_set now k v None c) j = Some x\<close> that lru_put_item [OF assms(1) True, where j = k] True assms(2)
      by (auto simp: lru_set_def ageless_def)
    ultimately show ?thesis using assms(2) by (auto simp: ageless_def)
  next
    case False
    have "gm_ok (cache c)" using assms(1) by (simp add: lru_ok_def)
    then have "j = k \<and> item_expiry x = None \<or> lru_item c j = Some x"
      using that False by (cases "gm_get (cache c) j") (auto simp: lru_set_def Let_def lru_item_def split: if_splits)
    then show ?thesis using assms(2) by (auto simp: ageless_def)
  qed
  then show ?thesis using assms(2) by (auto simp: ageless_def lru_set_def Let_def)
qed

definition lines_ok :: "(string \<Rightarrow> string list) \<Rightarrow> lines_cache \<Rightarrow> bool" where
  "lines_ok e c \<longleftrightarrow> ql.caches (line_set e) c \<and> ageless c"

lemma extract_line_plain:
  assumes "lines_ok e c" and "plain_line e l (t, i) = (t', i')"
  shows "\<exists>c'. extract_line now e l (t, i, c) = Value (t', i', c') \<and> lines_ok e c'"
proof (cases "js_trim l \<in> set i")
  case True
  then show ?thesis using assms by (simp add: extract_line_def plain_line_def)
next
  case False
  let ?n = "js_trim l"
  have p: "t' = fold set_add (line_set e ?n) t" "i' = set_add ?n i" using assms(2) False by (simp_all add: plain_line_def Let_def)
  have c: "ql.caches (line_set e) c" "ageless c" "lru_ok c" using assms(1) by (auto simp: lines_ok_def ql.caches_def)
  show ?thesis
  proof (cases "lru_item c ?n")
    case None
    then have "extract_line now e l (t, i, c) = Value (t', i', lru_set now ?n (line_set e ?n) None c)"
      using False p has_ageless [OF c(2), of now ?n] by (simp add: extract_line_def Let_def)
    then show ?thesis using ql.caches_keep [OF c(1) refl] set_ageless [OF c(3,2)] by (simp add: lines_ok_def)
  next
    case (Some x)
    obtain c2 where g: "lru_get now ?n c = (Some (item_value x), c2)" "ageless c2"
      using get_ageless [OF c(3,2) Some, of now] by (metis prod.collapse)
    have "item_value x = line_set e ?n" using ql.look_value [OF c(1), of now ?n] g(1) by simp
    then have "extract_line now e l (t, i, c) = Value (t', i', c2)"
      using False p g Some has_ageless [OF c(2), of now ?n] by (simp add: extract_line_def Let_def)
    then show ?thesis using ql.caches_look [OF c(1), of now ?n] g by (simp add: lines_ok_def)
  qed
qed

lemma extract_lines_plain:
  assumes "lines_ok e c"
  shows "\<exists>c'. extract_lines now e ls (t, i, c) = (case fold (plain_line e) ls (t, i) of (t', i') \<Rightarrow> Value (t', i', c')) \<and> lines_ok e c'"
  using assms
proof (induction ls arbitrary: t i c)
  case (Cons l ls)
  obtain t1 i1 where p: "plain_line e l (t, i) = (t1, i1)" by (metis surj_pair)
  obtain c1 where "extract_line now e l (t, i, c) = Value (t1, i1, c1)" "lines_ok e c1"
    using extract_line_plain [OF Cons.prems p, of now] by blast
  then show ?case using Cons.IH [of c1 t1 i1] p by simp
qed simp

section \<open>The cache is invisible\<close>

text \<open>A sequence of calls: the time, the text, the extractor, and the sets that were collected so far.\<close>

fun extract_all ::
  "('e \<Rightarrow> string \<Rightarrow> string list) \<Rightarrow> (nat \<times> string \<times> 'e \<times> string list \<times> string list) list \<Rightarrow> ('e \<rightharpoonup> lines_cache)
     \<Rightarrow> (string list \<times> string list) list js" where
  "extract_all ext [] li = Value []"
| "extract_all ext ((now, r, e, t, i) # calls) li =
     js_bind (extract_candidates ext now r e t i li) (\<lambda>(t', i', li').
       js_bind (extract_all ext calls li') (\<lambda>rs. Value ((t', i') # rs)))"

definition caches_ok :: "('e \<Rightarrow> string \<Rightarrow> string list) \<Rightarrow> ('e \<rightharpoonup> lines_cache) \<Rightarrow> bool" where
  "caches_ok ext li \<longleftrightarrow> (\<forall>e c. li e = Some c \<longrightarrow> lines_ok (ext e) c)"

lemma new_lines_ok: "\<exists>c. new_lru (Some 25000) None = Value c \<and> lines_ok e c"
proof -
  obtain c :: lines_cache where c: "new_lru (Some 25000) None = Value c" by (simp add: new_lru_def)
  then have "lru_ok c \<and> lru_content c = Map.empty" by (rule new_lru_ok)
  moreover have "default_age c = None" using c by (auto simp: new_lru_def)
  ultimately have "lines_ok e c"
    by (auto simp: lines_ok_def ql.caches_def ageless_def lru_content_def fun_eq_iff)
  then show ?thesis using c by blast
qed

lemma extract_candidates_plain:
  assumes "caches_ok ext li"
  shows "\<exists>li'. extract_candidates ext now r e t i li
      = (case plain_candidates (ext e) r t i of (t', i') \<Rightarrow> Value (t', i', li')) \<and> caches_ok ext li'"
proof -
  obtain c where c: "(case li e of Some c \<Rightarrow> Value c | None \<Rightarrow> new_lru (Some 25000) None) = Value c" "lines_ok (ext e) c"
  proof (cases "li e")
    case None
    then show ?thesis using new_lines_ok [of "ext e"] that by auto
  next
    case (Some c)
    then show ?thesis using assms that by (auto simp: caches_ok_def)
  qed
  obtain c' where "extract_lines now (ext e) (split_on newline r) (t, i, c)
      = (case plain_candidates (ext e) r t i of (t', i') \<Rightarrow> Value (t', i', c'))" "lines_ok (ext e) c'"
    using extract_lines_plain [OF c(2), of now "split_on newline r" t i] by (auto simp: plain_candidates_def)
  moreover from this(2) assms have "caches_ok ext (li(e \<mapsto> c'))" by (simp add: caches_ok_def)
  ultimately show ?thesis
    using c(1) by (intro exI [of _ "li(e \<mapsto> c')"]) (simp add: extract_candidates_def split: prod.split)
qed

text \<open>
  C5. The cache of the lines does not change what is collected: whatever texts were extracted before,
  by whatever extractors and at whatever times, every call adds the candidates that the extractor
  gives for the lines not seen yet, and no call fails.
\<close>

theorem extraction_cache_invisible:
  "extract_all ext calls Map.empty = Value (map (\<lambda>(now, r, e, t, i). plain_candidates (ext e) r t i) calls)"
proof -
  have "extract_all ext calls li = Value (map (\<lambda>(now, r, e, t, i). plain_candidates (ext e) r t i) calls)"
    if "caches_ok ext li" for li
    using that
  proof (induction calls arbitrary: li)
    case (Cons x calls)
    obtain now r e t i where x: "x = (now, r, e, t, i)" by (cases x) auto
    obtain t' i' where p: "plain_candidates (ext e) r t i = (t', i')" by (metis surj_pair)
    then obtain li' where "extract_candidates ext now r e t i li = Value (t', i', li')" "caches_ok ext li'"
      using extract_candidates_plain [OF Cons.prems, of now r e t i] by auto
    then show ?case using Cons.IH [of li'] x p by simp
  qed simp
  then show ?thesis by (simp add: caches_ok_def)
qed

end
