(* ===== verification/Tailwind_Offsets.thy ===== *)
theory Tailwind_Offsets
  imports Js_Prelude Go_Map "HOL-Library.Char_ord" "HOL-Library.List_Lexorder"
begin

text \<open>
  The order of Tailwind's rules in \<open>webgui/tailwind.js\<close> (the class \<open>Xo\<close> with \<open>us\<close>, \<open>qh\<close>, \<open>Lh\<close> and \<open>$_\<close>):
  every rule has an offset, and \<open>sort\<close> brings the rules into the order of the style sheet. A \<open>bigint\<close> is
  an \<^typ>\<open>int\<close>. The variants of a rule are the bits of a number; the bits of the arbitrary variants
  (\<open>[\<dots>]\<close>) are given away again before sorting, in the order of their names. The functions that
  compare the values of some variants are parameters, stored with the options.
\<close>

unbundle bit_operations_syntax

section \<open>Sorting\<close>

text \<open>\<open>e.sort(c)\<close> is stable. For a comparison that is not an order JavaScript leaves the result open;
  here it is that of insertion.\<close>

fun insert_by :: "('a \<Rightarrow> 'a \<Rightarrow> int) \<Rightarrow> 'a \<Rightarrow> 'a list \<Rightarrow> 'a list" where
  "insert_by c x [] = [x]"
| "insert_by c x (y # ys) = (if c x y \<le> 0 then x # y # ys else y # insert_by c x ys)"

definition js_sort :: "('a \<Rightarrow> 'a \<Rightarrow> int) \<Rightarrow> 'a list \<Rightarrow> 'a list" where
  "js_sort c xs = foldr (insert_by c) xs []"

lemma insert_by_key:
  "\<forall>y\<in>set ys. (c x y \<le> 0) = (k x \<le> k y) \<Longrightarrow> insert_by c x ys = insort_key k x ys"
  by (induction ys) auto

lemma js_sort_key:
  fixes k :: "'a \<Rightarrow> 'b :: linorder"
  assumes "\<forall>x\<in>set xs. \<forall>y\<in>set xs. (c x y \<le> 0) = (k x \<le> k y)"
  shows "js_sort c xs = sort_key k xs"
  using assms
proof (induction xs)
  case (Cons x xs)
  then have "js_sort c xs = sort_key k xs" by simp
  then show ?case
    using Cons.prems insert_by_key [of "sort_key k xs" c x k] by (simp add: js_sort_def)
qed (simp add: js_sort_def)

lemma mset_js_sort [simp]: "mset (js_sort c xs) = mset xs"
proof -
  have "mset (insert_by c x ys) = add_mset x (mset ys)" for x ys by (induction ys) auto
  then show ?thesis by (induction xs) (simp_all add: js_sort_def)
qed

lemma set_js_sort [simp]: "set (js_sort c xs) = set xs"
  by (metis mset_js_sort set_mset_mset)

text \<open>\<open>us\<close>, \<open>Lh\<close> of a list with one element at least, and \<open>$_\<close>.\<close>

definition big_sign :: "int \<Rightarrow> int" where
  "big_sign r = (if r > 0 then 1 else 0) - (if r < 0 then 1 else 0)"

fun big_max :: "int list \<Rightarrow> int" where
  "big_max [] = 0"
| "big_max (t # ts) = fold (\<lambda>t e. if e > t then e else t) ts t"

fun name_compare :: "string \<Rightarrow> string \<Rightarrow> int" where
  "name_compare (c # cs) (d # ds) =
     (let a = int (of_char c) - int (of_char d) in if a \<noteq> 0 then a else name_compare cs ds)"
| "name_compare cs ds = int (length cs) - int (length ds)"

lemma big_sign_le [simp]: "big_sign r \<le> 0 \<longleftrightarrow> r \<le> 0"
  by (simp add: big_sign_def)

lemma char_diff:
  fixes c d :: char
  shows "int (of_char c) - int (of_char d) = 0 \<longleftrightarrow> c = d" and "int (of_char c) - int (of_char d) \<le> 0 \<longleftrightarrow> c \<le> d"
  by (simp, simp add: less_eq_char_def)

lemma name_compare_Nil: "name_compare [] b = - int (length b)" "name_compare a [] = int (length a)"
proof -
  show "name_compare [] b = - int (length b)" by (cases b) simp_all
  show "name_compare a [] = int (length a)" by (cases a) simp_all
qed

lemma name_compare_sign: "(name_compare a b \<le> 0 \<longleftrightarrow> a \<le> b) \<and> (name_compare a b = 0 \<longleftrightarrow> a = b)"
proof (induction a arbitrary: b)
  case Nil
  then show ?case by (cases b) (simp_all add: name_compare_Nil)
next
  case (Cons c cs)
  show ?case
  proof (cases b)
    case Nil
    then show ?thesis by (simp add: name_compare_Nil)
  next
    case b: (Cons d ds)
    show ?thesis
    proof (cases "c = d")
      case True
      then show ?thesis using Cons.IH [of ds] by (simp add: b)
    next
      case False
      then have "name_compare (c # cs) (d # ds) = int (of_char c) - int (of_char d)" using char_diff(1) [of c d] by (simp add: Let_def)
      moreover have "c # cs \<le> d # ds \<longleftrightarrow> c \<le> d" using False by (simp add: order.strict_iff_order)
      ultimately show ?thesis using False char_diff [of c d] by (simp add: b)
    qed
  qed
qed

section \<open>Offsets\<close>

datatype layer = Defaults | Base | Components | Utilities | User | Variants

fun layer_position :: "layer \<Rightarrow> int" where
  "layer_position Defaults = 0"
| "layer_position Base = 1"
| "layer_position Components = 2"
| "layer_position Utilities = 3"
| "layer_position User = 4"
| "layer_position Variants = 5"

text \<open>The option of a variant with a value; \<open>opt_arg\<close> is the value with its modifier. \<open>applyVariantOffset\<close>
  writes the bits of the variant into the option it is given, which the forms of one variant share;
  here every call has an option of its own.\<close>

record 'a variant_option =
  opt_id :: nat
  opt_sort :: "('a \<Rightarrow> 'a \<Rightarrow> int) option"
  opt_arg :: 'a
  opt_variant :: int

record 'a offset =
  layer :: layer
  parent_layer :: layer
  arbitrary :: int
  variants :: int
  parallel_index :: int
  index_of :: int
  property_offset :: int
  property_name :: string
  options :: "'a variant_option list"

record offsets =
  next_index :: "layer \<Rightarrow> int"
  reserved_bits :: nat
  variant_offsets :: "(string \<times> int) list"

definition new_offsets :: offsets where
  "new_offsets = \<lparr>next_index = (\<lambda>_. 0), reserved_bits = 0, variant_offsets = []\<rparr>"

definition create_offset :: "layer \<Rightarrow> offsets \<Rightarrow> 'a offset \<times> offsets" where
  "create_offset e s =
     (\<lparr>layer = e, parent_layer = e, arbitrary = 0, variants = 0, parallel_index = 0, index_of = next_index s e,
       property_offset = 0, property_name = [], options = []\<rparr>,
      s\<lparr>next_index := (next_index s)(e := next_index s e + 1)\<rparr>)"

definition arbitrary_property :: "string \<Rightarrow> offsets \<Rightarrow> 'a offset \<times> offsets" where
  "arbitrary_property e s = (let (o', s') = create_offset Utilities s in (o'\<lparr>arbitrary := 1, property_name := e\<rparr>, s'))"

definition for_variant :: "string \<Rightarrow> nat \<Rightarrow> offsets \<Rightarrow> ('a offset \<times> offsets) js" where
  "for_variant e t s =
     (case gm_get (variant_offsets s) e of
        None \<Rightarrow> Throw (''Cannot find offset for unknown variant '' @ e)
      | Some i \<Rightarrow> (let (o', s') = create_offset Variants s in Value (o'\<lparr>variants := push_bit t i\<rparr>, s')))"

definition apply_variant_offset :: "'a offset \<Rightarrow> 'a offset \<Rightarrow> 'a variant_option \<Rightarrow> 'a offset" where
  "apply_variant_offset e t i =
     e\<lparr>layer := Variants, parent_layer := (if layer e = Variants then parent_layer e else layer e),
       variants := variants e OR variants t,
       options := (if opt_sort i \<noteq> None then i\<lparr>opt_variant := variants t\<rparr> # options e else options e),
       parallel_index := big_max [parallel_index e, parallel_index t]\<rparr>"

definition apply_parallel_offset :: "'a offset \<Rightarrow> nat \<Rightarrow> 'a offset" where
  "apply_parallel_offset e t = e\<lparr>parallel_index := int t\<rparr>"

definition record_variant :: "string \<Rightarrow> nat \<Rightarrow> offsets \<Rightarrow> 'a offset \<times> offsets" where
  "record_variant e t s =
     (let b = push_bit (reserved_bits s) 1;
          (o', s') = create_offset Variants (s\<lparr>variant_offsets := gm_put e b (variant_offsets s), reserved_bits := reserved_bits s + t\<rparr>)
      in (o'\<lparr>variants := b\<rparr>, s'))"

definition record_variants :: "(string \<times> nat) list \<Rightarrow> offsets \<Rightarrow> offsets" where
  "record_variants es s = fold (\<lambda>(e, t) s. snd (record_variant e t s :: unit offset \<times> offsets)) es s"

section \<open>Comparing offsets\<close>

text \<open>The options \<open>i\<close> of \<open>e\<close> and \<open>n\<close> of \<open>t\<close>; 0 stands for \<open>continue\<close>.\<close>

definition compare_option :: "'a offset \<Rightarrow> 'a offset \<Rightarrow> 'a variant_option \<Rightarrow> 'a variant_option \<Rightarrow> int" where
  "compare_option e t i n =
     (case opt_sort i of
        None \<Rightarrow> 0
      | Some f \<Rightarrow>
          if opt_id i \<noteq> opt_id n \<or> opt_sort n = None then 0
          else
            (let s = big_max [opt_variant i, opt_variant n]; a = NOT (s OR (s - 1))
             in if variants e AND a \<noteq> variants t AND a then 0 else f (opt_arg i) (opt_arg n)))"

definition compare_options :: "'a offset \<Rightarrow> 'a offset \<Rightarrow> int" where
  "compare_options e t =
     (case dropWhile (\<lambda>c. c = 0) [compare_option e t i n. i \<leftarrow> options e, n \<leftarrow> options t] of [] \<Rightarrow> 0 | c # _ \<Rightarrow> c)"

definition compare_offsets :: "'a offset \<Rightarrow> 'a offset \<Rightarrow> int" where
  "compare_offsets e t =
     (if layer e \<noteq> layer t then layer_position (layer e) - layer_position (layer t)
      else if parent_layer e \<noteq> parent_layer t then layer_position (parent_layer e) - layer_position (parent_layer t)
      else if compare_options e t \<noteq> 0 then compare_options e t
      else if variants e \<noteq> variants t then variants e - variants t
      else if parallel_index e \<noteq> parallel_index t then parallel_index e - parallel_index t
      else if arbitrary e \<noteq> arbitrary t then arbitrary e - arbitrary t
      else if property_offset e \<noteq> property_offset t then property_offset e - property_offset t
      else index_of e - index_of t)"

section \<open>Sorting rules\<close>

text \<open>\<open>qh\<close>: the bits of \<open>r\<close> that are given away, replaced by the new ones.\<close>

definition remap_bits :: "int \<Rightarrow> (int \<times> int) list \<Rightarrow> int" where
  "remap_bits r e =
     (let (t, i) = fold (\<lambda>(n, s) (t, i). if r AND n \<noteq> 0 then (t OR n, i OR s) else (t, i)) e (0, 0)
      in (r AND NOT t) OR i)"

text \<open>The pairs of old and new bits of the arbitrary variants.\<close>

definition recalculate_variant_offsets :: "offsets \<Rightarrow> (int \<times> int) list" where
  "recalculate_variant_offsets s =
     (let e = js_sort (\<lambda>(n, _) (m, _). name_compare n m) (filter (\<lambda>(n, _). has_prefix n ''['') (variant_offsets s));
          t = js_sort (\<lambda>n m. big_sign (n - m)) (map snd e)
      in filter (\<lambda>(n, m). n \<noteq> m) (zip (map snd e) t))"

definition remap_arbitrary_variant_offsets :: "offsets \<Rightarrow> ('a offset \<times> 'r) list \<Rightarrow> ('a offset \<times> 'r) list" where
  "remap_arbitrary_variant_offsets st e =
     (let t = recalculate_variant_offsets st
      in if t = [] then e else map (\<lambda>(n, s). (n\<lparr>variants := remap_bits (variants n) t\<rparr>, s)) e)"

text \<open>The position of a property among the properties in the order of their names, from 1.\<close>

definition property_positions :: "string list \<Rightarrow> string \<Rightarrow> int" where
  "property_positions i p = (if p \<in> set i then int (length (takeWhile (\<lambda>x. x \<noteq> p) i)) + 1 else 0)"

definition sort_arbitrary_properties :: "('a offset \<times> 'r) list \<Rightarrow> ('a offset \<times> 'r) list" where
  "sort_arbitrary_properties e =
     (let t = remdups (map (property_name \<circ> fst) (filter (\<lambda>(a, _). arbitrary a = 1) e)); i = js_sort name_compare t
      in if t = [] then e
         else map (\<lambda>(o', l). (o'\<lparr>property_offset := property_positions i (property_name o')\<rparr>, l)) e)"

definition sort_rules :: "offsets \<Rightarrow> ('a offset \<times> 'r) list \<Rightarrow> ('a offset \<times> 'r) list" where
  "sort_rules st e =
     js_sort (\<lambda>(t, _) (i, _). big_sign (compare_offsets t i)) (sort_arbitrary_properties (remap_arbitrary_variant_offsets st e))"

section \<open>The bits of the variants\<close>

text \<open>The map after \<open>recordVariants\<close>: every variant has as many bits as it has forms.\<close>

fun bits_from :: "nat \<Rightarrow> (string \<times> nat) list \<Rightarrow> (string \<times> int) list" where
  "bits_from r [] = []"
| "bits_from r ((e, t) # es) = (e, 2 ^ r) # bits_from (r + t) es"

lemma bits_from_append: "bits_from r (es @ fs) = bits_from r es @ bits_from (r + sum_list (map snd es)) fs"
  by (induction r es rule: bits_from.induct) (simp_all add: add.assoc)

lemma bits_from_ones: "bits_from r (map (\<lambda>n. (n, Suc 0)) ns) = zip ns (map (\<lambda>k. 2 ^ k) [r..<r + length ns])"
  by (induction ns arbitrary: r) (simp_all add: upt_rec)

lemma fst_bits_from [simp]: "map fst (bits_from r es) = map fst es"
  by (induction r es rule: bits_from.induct) simp_all

lemma put_new: "k \<notin> fst ` set m \<Longrightarrow> gm_put k v m = m @ [(k, v)]"
  by (induction m) (auto simp: gm_put_def)

lemma record_variants_bits:
  assumes "distinct (map fst es)" and "fst ` set (variant_offsets s) \<inter> fst ` set es = {}"
  shows "variant_offsets (record_variants es s) = variant_offsets s @ bits_from (reserved_bits s) es
    \<and> reserved_bits (record_variants es s) = reserved_bits s + sum_list (map snd es)"
  using assms
proof (induction es arbitrary: s)
  case (Cons p es)
  obtain e t where p: "p = (e, t)" by force
  define s1 where "s1 = snd (record_variant e t s :: unit offset \<times> offsets)"
  have s1: "variant_offsets s1 = variant_offsets s @ [(e, 2 ^ reserved_bits s)]" "reserved_bits s1 = reserved_bits s + t"
    using Cons.prems by (auto simp: s1_def record_variant_def create_offset_def p put_new push_bit_eq_mult Let_def)
  have "record_variants (p # es) s = record_variants es s1" by (simp add: record_variants_def p s1_def)
  moreover have "variant_offsets (record_variants es s1) = variant_offsets s1 @ bits_from (reserved_bits s1) es
      \<and> reserved_bits (record_variants es s1) = reserved_bits s1 + sum_list (map snd es)"
    by (rule Cons.IH) (use Cons.prems s1 in \<open>auto simp: p\<close>)
  ultimately show ?case by (simp add: s1 p)
qed (simp add: record_variants_def)

lemma new_variants_bits:
  assumes "distinct (map fst es)"
  shows "variant_offsets (record_variants es new_offsets) = bits_from 0 es
    \<and> reserved_bits (record_variants es new_offsets) = sum_list (map snd es)"
  using record_variants_bits [OF assms, of new_offsets] by (simp add: new_offsets_def)

text \<open>The bits below \<open>r\<close> are not given away any more.\<close>

lemma bits_from_range:
  "(e, t) \<in> set es \<Longrightarrow> distinct (map fst es) \<Longrightarrow>
    \<exists>k. map_of (bits_from r es) e = Some (2 ^ k) \<and> r \<le> k \<and> k + t \<le> r + sum_list (map snd es)"
proof (induction r es rule: bits_from.induct)
  case (2 r e' t' es)
  show ?case
  proof (cases "(e, t) = (e', t')")
    case False
    then have m: "(e, t) \<in> set es" using "2.prems" by auto
    then have "e \<in> fst ` set es" by force
    then have "e \<noteq> e'" using "2.prems"(2) by auto
    moreover obtain k where "map_of (bits_from (r + t') es) e = Some (2 ^ k)" "r + t' \<le> k" "k + t \<le> r + t' + sum_list (map snd es)"
      using "2.IH" m "2.prems"(2) by auto
    ultimately show ?thesis by (auto intro!: exI [of _ k])
  qed auto
qed simp

lemma bits_from_apart:
  "(e, t) \<in> set es \<Longrightarrow> (e', t') \<in> set es \<Longrightarrow> e \<noteq> e' \<Longrightarrow> distinct (map fst es) \<Longrightarrow>
    map_of (bits_from r es) e = Some (2 ^ k) \<Longrightarrow> map_of (bits_from r es) e' = Some (2 ^ k') \<Longrightarrow>
    k + t \<le> k' \<or> k' + t' \<le> k"
proof (induction r es rule: bits_from.induct)
  case (2 r f u es)
  have range: "r + u \<le> l" if "g \<noteq> f" "(g, w) \<in> set ((f, u) # es)" "map_of (bits_from r ((f, u) # es)) g = Some (2 ^ l)" for g w l
  proof -
    have "map_of (bits_from (r + u) es) g = Some (2 ^ l)" "(g, w) \<in> set es" using that by auto
    then show ?thesis using bits_from_range [of g w es "r + u"] "2.prems"(4) by (auto simp del: map_of_eq_Some_iff)
  qed
  have first: "l = r \<and> w = u" if "(f, w) \<in> set ((f, u) # es)" "map_of (bits_from r ((f, u) # es)) f = Some (2 ^ l)" for l w
    using that "2.prems"(4) by (auto simp: rev_image_eqI)
  consider "e = f" | "e' = f" | "e \<noteq> f" "e' \<noteq> f" by blast
  then show ?case
  proof cases
    case 1
    then show ?thesis using first [of t k] range [of e' t' k'] "2.prems" by blast
  next
    case 2
    then show ?thesis using first [of t' k'] range [of e t k] "2.prems" by blast
  next
    case 3
    then show ?thesis using "2.IH" "2.prems" by auto
  qed
qed simp

text \<open>C16. Once the variants are recorded, no two forms of variants have the same bit: the offsets that
  \<open>forVariant\<close> makes for two forms are powers of two, which agree only for the same form of the same
  variant, and all of them are below the bits that are still free.\<close>

theorem variant_forms_apart:
  assumes "distinct (map fst es)" and "(e, t) \<in> set es" and "(e', t') \<in> set es" and "i < t" and "i' < t'"
  defines "st \<equiv> record_variants es new_offsets"
  shows "\<exists>o1 s1 o2 s2 k k'. for_variant e i st = Value (o1, s1) \<and> for_variant e' i' st = Value (o2, s2)
    \<and> variants o1 = 2 ^ k \<and> variants o2 = 2 ^ k' \<and> k < reserved_bits st \<and> k' < reserved_bits st
    \<and> (k = k' \<longleftrightarrow> e = e' \<and> i = i')"
proof -
  note st = new_variants_bits [OF assms(1), folded st_def]
  obtain k where k: "map_of (bits_from 0 es) e = Some (2 ^ k)" "k + t \<le> sum_list (map snd es)"
    using bits_from_range [OF assms(2,1), of 0] by auto
  obtain k' where k': "map_of (bits_from 0 es) e' = Some (2 ^ k')" "k' + t' \<le> sum_list (map snd es)"
    using bits_from_range [OF assms(3,1), of 0] by auto
  have 1: "\<exists>o1 s1. for_variant g j st = Value (o1, s1) \<and> variants o1 = 2 ^ (l + j)"
    if "map_of (bits_from 0 es) g = Some (2 ^ l)" for g j l
    using that st by (simp add: for_variant_def gm_get_def create_offset_def push_bit_eq_mult power_add del: map_of_eq_Some_iff)
  have "k + i = k' + i' \<longleftrightarrow> e = e' \<and> i = i'"
  proof (cases "e = e'")
    case True
    then show ?thesis using k k' by auto
  next
    case False
    then show ?thesis using bits_from_apart [OF assms(2,3) False assms(1) k(1) k'(1)] assms(4,5) by auto
  qed
  moreover have "k + i < reserved_bits st" "k' + i' < reserved_bits st" using st k(2) k'(2) assms(4,5) by auto
  ultimately show ?thesis using 1 [OF k(1), of i] 1 [OF k'(1), of i'] by blast
qed

theorem variant_forms_apart_witness:
  "\<exists>o1 s1 o2 s2 k k'. for_variant ''dark'' 0 (record_variants [(''first'', 2), (''dark'', 1)] new_offsets) = Value (o1, s1)
    \<and> for_variant ''first'' 1 (record_variants [(''first'', 2), (''dark'', 1)] new_offsets) = Value (o2, s2)
    \<and> variants o1 = 2 ^ k \<and> variants o2 = 2 ^ k' \<and> k < 3 \<and> k' < 3 \<and> (k \<noteq> k')"
  using variant_forms_apart [of "[(''first'', 2), (''dark'', 1)]" "''dark''" 1 "''first''" 2 0 1]
    new_variants_bits [of "[(''first'', 2), (''dark'', 1)]"] by simp

section \<open>Giving bits away again\<close>

definition hits :: "int \<Rightarrow> (int \<times> int) list \<Rightarrow> (int \<times> int) list" where
  "hits r ps = filter (\<lambda>(n, _). r AND n \<noteq> 0) ps"

definition union_bits :: "int list \<Rightarrow> int" where
  "union_bits bs = foldr (OR) bs 0"

lemma union_bits_simps [simp]: "union_bits [] = 0" "union_bits (b # bs) = b OR union_bits bs"
  by (simp_all add: union_bits_def)

lemma bit_union_bits [simp]: "bit (union_bits bs) k \<longleftrightarrow> (\<exists>b\<in>set bs. bit b k)"
  by (induction bs) (auto simp: bit_or_iff)

lemma remap_bits_hits: "remap_bits r ps = (r AND NOT (union_bits (map fst (hits r ps)))) OR union_bits (map snd (hits r ps))"
proof -
  have "fold (\<lambda>(n, s) (t, i). if r AND n \<noteq> 0 then (t OR n, i OR s) else (t, i)) ps (t, i)
      = (t OR union_bits (map fst (hits r ps)), i OR union_bits (map snd (hits r ps)))" for t i
    by (induction ps arbitrary: t i) (auto simp: hits_def or.assoc)
  then show ?thesis by (simp add: remap_bits_def)
qed

lemma and_not_0_iff: "a AND b \<noteq> (0 :: int) \<longleftrightarrow> (\<exists>k. bit a k \<and> bit b k)"
  by (auto simp: bit_eq_iff bit_and_iff)

text \<open>What happens to the bits of a rule happens to each of them.\<close>

lemma remap_bits_or: "remap_bits (a OR b) ps = remap_bits a ps OR remap_bits b ps"
proof (rule bit_eqI)
  fix k
  have h: "set (hits (a OR b) ps) = set (hits a ps) \<union> set (hits b ps)"
    by (auto simp: hits_def and_not_0_iff bit_or_iff)
  have "\<exists>p\<in>set (hits r ps). bit (fst p) k" if "bit r k" "p \<in> set ps" "bit (fst p) k" for r p
  proof
    show "p \<in> set (hits r ps)" using that by (cases p) (auto simp: hits_def and_not_0_iff)
  qed (rule that)
  moreover have "set (hits r ps) \<subseteq> set ps" for r by (auto simp: hits_def)
  ultimately show "bit (remap_bits (a OR b) ps) k = bit (remap_bits a ps OR remap_bits b ps) k"
    unfolding remap_bits_hits
    by (simp add: bit_or_iff bit_and_iff bit_not_iff h bex_Un image_Un) blast
qed

lemma remap_bits_0: "remap_bits 0 ps = 0"
  by (simp add: remap_bits_hits hits_def)

lemma remap_union_bits: "remap_bits (union_bits bs) ps = union_bits (map (\<lambda>b. remap_bits b ps) bs)"
  by (induction bs) (simp_all add: remap_bits_0 remap_bits_or)

lemma power_and: "(2 :: int) ^ j AND 2 ^ k = (if j = k then 2 ^ j else 0)"
  by (rule bit_eqI) (auto simp: bit_and_iff bit_simps)

lemma remap_single:
  assumes "distinct (map fst ps)" and "\<forall>p\<in>set ps. \<exists>k. fst p = 2 ^ k"
  shows "remap_bits (2 ^ j) ps = (case map_of ps (2 ^ j) of None \<Rightarrow> 2 ^ j | Some s \<Rightarrow> s)"
proof -
  have "hits (2 ^ j) ps = filter (\<lambda>(n, _). n = 2 ^ j) ps"
    unfolding hits_def using assms(2) by (intro filter_cong) (auto simp: power_and split: if_splits)
  also have "\<dots> = (case map_of ps (2 ^ j) of None \<Rightarrow> [] | Some s \<Rightarrow> [(2 ^ j, s)])"
    using assms(1)
  proof (induction ps)
    case (Cons p ps)
    show ?case
    proof (cases "fst p = 2 ^ j")
      case True
      then have "map_of ps (2 ^ j) = None" using Cons.prems by (auto simp: map_of_eq_None_iff)
      then show ?thesis using Cons True by (cases p) auto
    qed (use Cons in \<open>cases p; auto\<close>)
  qed simp
  finally show ?thesis by (cases "map_of ps (2 ^ j)") (simp_all add: remap_bits_hits)
qed

lemma map_of_filter_changed:
  "distinct (map fst ps) \<Longrightarrow> map_of ps k = Some m \<Longrightarrow>
    map_of (filter (\<lambda>(n, m). n \<noteq> m) ps) k = (if k = m then None else Some m)"
  by (induction ps) (auto simp: map_of_eq_None_iff rev_image_eqI split: if_splits)

lemma filter_below: "sorted_wrt (<) xs \<Longrightarrow> j < length xs \<Longrightarrow> filter (\<lambda>m. m < (xs ! j :: 'a :: linorder)) xs = take j xs"
proof (induction xs arbitrary: j)
  case (Cons x xs)
  then show ?case
    by (cases j) (force simp: filter_empty_conv, simp)
qed simp

lemma index_in_sorted:
  fixes ns :: "'a :: linorder list"
  assumes "distinct ns" and "n \<in> set ns"
  shows "\<exists>j < length ns. sort ns ! j = n \<and> j = card {m \<in> set ns. m < n}"
proof -
  obtain j where j: "j < length ns" "sort ns ! j = n"
    using assms(2) by (metis in_set_conv_nth length_sort set_sort)
  have "sorted_wrt (<) (sort ns)" using assms(1) by (simp add: strict_sorted_iff)
  then have "{m \<in> set ns. m < n} = set (take j (sort ns))"
    using filter_below [of "sort ns" j] j by (metis length_sort set_filter set_sort)
  then have "card {m \<in> set ns. m < n} = j" using j(1) assms(1) by (simp add: distinct_card)
  then show ?thesis using j by blast
qed

text \<open>The variants \<open>fs\<close> of the plugins are recorded first, the arbitrary variants \<open>ns\<close> as the rules need
  them.\<close>

definition given_bits :: "(string \<times> nat) list \<Rightarrow> string list \<Rightarrow> (string \<times> int) list" where
  "given_bits fs ns = zip ns (map ((^) 2) [sum_list (map snd fs)..<sum_list (map snd fs) + length ns])"

lemma given_bits_parts:
  "map fst (given_bits fs ns) = ns"
  "map snd (given_bits fs ns) = map ((^) 2) [sum_list (map snd fs)..<sum_list (map snd fs) + length ns]"
  by (simp_all add: given_bits_def)

lemma recalculate_given:
  assumes "distinct (map fst fs @ ns)" and "\<forall>f\<in>set (map fst fs). \<not> has_prefix f ''[''" and "\<forall>n\<in>set ns. has_prefix n ''[''"
  defines "st \<equiv> record_variants (fs @ map (\<lambda>n. (n, 1)) ns) new_offsets" and "e \<equiv> sort_key fst (given_bits fs ns)"
  shows "variant_offsets st = bits_from 0 fs @ given_bits fs ns"
    and "recalculate_variant_offsets st = filter (\<lambda>(n, m). n \<noteq> m) (zip (map snd e) (map snd (given_bits fs ns)))"
proof -
  have "map fst (fs @ map (\<lambda>n. (n, 1)) ns) = map fst fs @ ns" by (simp add: comp_def)
  then show v: "variant_offsets st = bits_from 0 fs @ given_bits fs ns"
    using new_variants_bits [of "fs @ map (\<lambda>n. (n, 1)) ns"] assms(1)
    by (simp add: st_def bits_from_append bits_from_ones given_bits_def del: map_append)
  have "\<not> has_prefix n ''[''" if "(n, b) \<in> set (bits_from 0 fs)" for n b
    using assms(2) that by (metis fst_bits_from list.set_map fst_conv imageI)
  then have "filter (\<lambda>(n, _). has_prefix n ''['') (bits_from 0 fs) = []"
    by (auto simp: filter_empty_conv)
  moreover have "filter (\<lambda>(n, _). has_prefix n ''['') (given_bits fs ns) = given_bits fs ns"
    using assms(3) by (auto simp: filter_id_conv given_bits_def dest: set_zip_leftD)
  ultimately have f: "filter (\<lambda>(n, _). has_prefix n ''['') (variant_offsets st) = given_bits fs ns" by (simp add: v)
  have 1: "js_sort (\<lambda>(n, _) (m, _). name_compare n m) (given_bits fs ns) = e"
    unfolding e_def by (rule js_sort_key) (auto simp: name_compare_sign)
  have "js_sort (\<lambda>n m. big_sign (n - m)) (map snd e) = sort (map snd e)"
    by (rule js_sort_key) auto
  also have "\<dots> = sort (map snd (given_bits fs ns))"
    by (rule properties_for_sort) (simp_all add: e_def)
  also have "\<dots> = map snd (given_bits fs ns)"
    by (rule sort_key_id_if_sorted [unfolded id_def, simplified]) (auto simp: given_bits_parts sorted_map intro: sorted_wrt_mono_rel [OF _ sorted_upt])
  finally show "recalculate_variant_offsets st = filter (\<lambda>(n, m). n \<noteq> m) (zip (map snd e) (map snd (given_bits fs ns)))"
    unfolding recalculate_variant_offsets_def f 1 by (simp add: Let_def)
qed

lemma sort_given_nth:
  assumes "distinct ns" and "n \<in> set ns"
  shows "\<exists>j < length ns. j = card {m \<in> set ns. m < n} \<and> (\<exists>b. sort_key fst (given_bits fs ns) ! j = (n, b) \<and> (n, b) \<in> set (given_bits fs ns))"
proof -
  let ?e = "sort_key fst (given_bits fs ns)"
  have "map fst ?e = sort (map fst (given_bits fs ns))"
    by (rule properties_for_sort [symmetric]) simp_all
  then have names: "map fst ?e = sort ns" by (simp add: given_bits_parts)
  have len: "length ?e = length ns" by (simp add: given_bits_def)
  obtain j where j: "j < length ns" "sort ns ! j = n" "j = card {m \<in> set ns. m < n}"
    using index_in_sorted [OF assms] by blast
  then have "fst (?e ! j) = n" using len names nth_map [of j ?e fst] by simp
  moreover have "?e ! j \<in> set (given_bits fs ns)" using j(1) len nth_mem [of j ?e] by simp
  ultimately show ?thesis using j by (metis prod.collapse)
qed

lemma remap_given:
  assumes "distinct (map fst fs @ ns)" and "\<forall>f\<in>set (map fst fs). \<not> has_prefix f ''[''" and "\<forall>n\<in>set ns. has_prefix n ''[''"
  defines "st \<equiv> record_variants (fs @ map (\<lambda>n. (n, 1)) ns) new_offsets"
  shows "n \<in> set ns \<Longrightarrow> \<exists>b. map_of (given_bits fs ns) n = Some b
      \<and> remap_bits b (recalculate_variant_offsets st) = 2 ^ (sum_list (map snd fs) + card {m \<in> set ns. m < n})"
    and "k < sum_list (map snd fs) \<Longrightarrow> remap_bits (2 ^ k) (recalculate_variant_offsets st) = 2 ^ k"
proof -
  let ?R = "sum_list (map snd fs)" and ?e = "sort_key fst (given_bits fs ns)"
  define ps where "ps = zip (map snd ?e) (map snd (given_bits fs ns))"
  have r: "recalculate_variant_offsets st = filter (\<lambda>(n, m). n \<noteq> m) ps"
    unfolding ps_def st_def by (rule recalculate_given(2) [OF assms(1-3)])
  have len: "length (given_bits fs ns) = length ns" by (simp add: given_bits_def)
  have fst_ps: "map fst ps = map snd ?e" by (simp add: ps_def)
  have "mset (map fst ps) = mset (map snd (given_bits fs ns))" by (simp add: fst_ps)
  moreover have "distinct (map snd (given_bits fs ns))" by (auto simp: given_bits_parts distinct_map inj_on_def)
  ultimately have d: "distinct (map fst ps)" by (metis mset_eq_imp_distinct_iff)
  have pow: "\<exists>k. fst p = 2 ^ k \<and> ?R \<le> k" if "p \<in> set ps" for p
  proof -
    have "fst p \<in> set (map fst ps)" using that by simp
    then have "fst p \<in> set (map snd (given_bits fs ns))" by (simp add: fst_ps)
    then show ?thesis by (auto simp: given_bits_parts)
  qed
  have "distinct (map fst (filter (\<lambda>(n, m). n \<noteq> m) ps))" using d by (simp add: distinct_map_filter)
  then have single: "remap_bits (2 ^ k) (recalculate_variant_offsets st)
      = (case map_of (filter (\<lambda>(n, m). n \<noteq> m) ps) (2 ^ k) of None \<Rightarrow> 2 ^ k | Some s \<Rightarrow> s)" for k
    unfolding r by (rule remap_single) (use pow in fastforce)+
  {
    assume "n \<in> set ns"
    then obtain j b where j: "j < length ns" "j = card {m \<in> set ns. m < n}" "?e ! j = (n, b)" "(n, b) \<in> set (given_bits fs ns)"
      using sort_given_nth [of ns n fs] assms(1) by auto
    have m: "map_of (given_bits fs ns) n = Some b" using j(4) assms(1) by (simp add: given_bits_parts)
    obtain k where k: "b = 2 ^ k" using j(4) by (auto simp: given_bits_def dest!: set_zip_rightD)
    have "ps ! j = (b, 2 ^ (?R + j))" "j < length ps"
      using j(1,3) len by (simp_all add: ps_def given_bits_parts)
    then have "map_of ps b = Some (2 ^ (?R + j))" using d by (metis map_of_is_SomeI nth_mem)
    then have "remap_bits b (recalculate_variant_offsets st) = 2 ^ (?R + j)"
      using map_of_filter_changed [OF d] single [of k] k by simp
    then show "\<exists>b. map_of (given_bits fs ns) n = Some b
      \<and> remap_bits b (recalculate_variant_offsets st) = 2 ^ (?R + card {m \<in> set ns. m < n})" using m j(2) by auto
  }
  assume "k < ?R"
  then have "2 ^ k \<notin> fst ` set (filter (\<lambda>(n, m). n \<noteq> m) ps)" using pow by force
  then have "map_of (filter (\<lambda>(n, m). n \<noteq> m) ps) (2 ^ k) = None" by (simp add: map_of_eq_None_iff)
  then show "remap_bits (2 ^ k) (recalculate_variant_offsets st) = 2 ^ k" by (simp add: single)
qed

text \<open>C14. Arbitrary variants are ordered by their names, in whatever order the rules mentioned them: after
  \<open>remapArbitraryVariantOffsets\<close>, the bit of the name with \<open>k\<close> smaller ones is the \<open>k\<close>-th above the bits
  of the other variants; the forms of those keep their bits, and the bits of a rule with several variants
  are changed one by one.\<close>

theorem arbitrary_variants_by_name:
  assumes "distinct (map fst fs @ ns)" and "\<forall>f\<in>set (map fst fs). \<not> has_prefix f ''[''" and "\<forall>n\<in>set ns. has_prefix n ''[''"
  defines "st \<equiv> record_variants (fs @ map (\<lambda>n. (n, 1)) ns) new_offsets"
    and "new \<equiv> \<lambda>b. remap_bits b (recalculate_variant_offsets (record_variants (fs @ map (\<lambda>n. (n, 1)) ns) new_offsets))"
  shows "(\<forall>n\<in>set ns. map_option new (gm_get (variant_offsets st) n) = Some (2 ^ (sum_list (map snd fs) + card {m \<in> set ns. m < n})))
    \<and> (\<forall>(f, t)\<in>set fs. \<forall>i<t. \<exists>b. gm_get (variant_offsets st) f = Some b \<and> new (push_bit i b) = push_bit i b)
    \<and> (\<forall>bs. new (union_bits bs) = union_bits (map new bs))"
proof (intro conjI ballI allI)
  have v: "variant_offsets st = bits_from 0 fs @ given_bits fs ns"
    unfolding st_def by (rule recalculate_given(1) [OF assms(1-3)])
  have d: "distinct (map fst fs)" using assms(1) by simp
  show "map_option new (gm_get (variant_offsets st) n) = Some (2 ^ (sum_list (map snd fs) + card {m \<in> set ns. m < n}))"
    if "n \<in> set ns" for n
  proof -
    have "n \<notin> set (map fst fs)" using that assms(1) by auto
    then have "map_of (bits_from 0 fs) n = None" by (metis fst_bits_from list.set_map map_of_eq_None_iff)
    then show ?thesis using remap_given(1) [OF assms(1-3) that] by (auto simp: v gm_get_def new_def map_add_def split: option.splits)
  qed
  show "case p of (f, t) \<Rightarrow> \<forall>i<t. \<exists>b. gm_get (variant_offsets st) f = Some b \<and> new (push_bit i b) = push_bit i b"
    if m: "p \<in> set fs" for p
  proof -
    obtain f t where p: "p = (f, t)" by force
    obtain k where k: "map_of (bits_from 0 fs) f = Some (2 ^ k)" "k + t \<le> sum_list (map snd fs)"
      using bits_from_range [of f t fs 0] m p d by auto
    have "f \<notin> set (map fst (given_bits fs ns))" using m p assms(1) by (force simp: given_bits_parts)
    then have "map_of (given_bits fs ns) f = None" by (simp add: map_of_eq_None_iff)
    then have "gm_get (variant_offsets st) f = Some (2 ^ k)" using k(1) by (simp add: v gm_get_def map_add_def del: map_of_eq_Some_iff)
    moreover have "new (push_bit i (2 ^ k)) = push_bit i (2 ^ k)" if "i < t" for i
      using remap_given(2) [OF assms(1-3), of "k + i"] k(2) that by (simp add: new_def push_bit_eq_mult power_add)
    ultimately show ?thesis by (auto simp: p)
  qed
  show "new (union_bits bs) = union_bits (map new bs)" for bs
    by (simp add: new_def remap_union_bits)
qed

theorem arbitrary_variants_by_name_witness:
  "map_option (\<lambda>b. remap_bits b (recalculate_variant_offsets (record_variants ([(''first'', 2)] @ map (\<lambda>n. (n, 1)) [''[&:hover]'', ''[&:focus]'']) new_offsets)))
     (gm_get (variant_offsets (record_variants ([(''first'', 2)] @ map (\<lambda>n. (n, 1)) [''[&:hover]'', ''[&:focus]'']) new_offsets)) ''[&:hover]'')
   = Some 8"
proof -
  have "{m \<in> set [''[&:hover]'', ''[&:focus]'']. m < ''[&:hover]''} = {''[&:focus]''}" by auto
  then have c: "card {m \<in> set [''[&:hover]'', ''[&:focus]'']. m < ''[&:hover]''} = 1" by simp
  have "map_option (\<lambda>b. remap_bits b (recalculate_variant_offsets (record_variants ([(''first'', 2)] @ map (\<lambda>n. (n, 1)) [''[&:hover]'', ''[&:focus]'']) new_offsets)))
     (gm_get (variant_offsets (record_variants ([(''first'', 2)] @ map (\<lambda>n. (n, 1)) [''[&:hover]'', ''[&:focus]'']) new_offsets)) ''[&:hover]'')
   = Some (2 ^ (sum_list (map snd [(''first'', 2)]) + card {m \<in> set [''[&:hover]'', ''[&:focus]'']. m < ''[&:hover]''}))"
    by (rule arbitrary_variants_by_name [THEN conjunct1, THEN bspec]) (simp_all add: has_prefix_def)
  then show ?thesis unfolding c by simp
qed

section \<open>The order of the rules\<close>

text \<open>Without functions that compare the values of variants the order is that of these numbers.\<close>

definition rank :: "'a offset \<Rightarrow> int list" where
  "rank e = [layer_position (layer e), layer_position (parent_layer e), variants e, parallel_index e, arbitrary e,
     property_offset e, index_of e]"

lemma layer_position_eq [simp]: "layer_position a = layer_position b \<longleftrightarrow> a = b"
  by (cases a; cases b) simp_all

lemma compare_options_none [simp]: "options e = [] \<Longrightarrow> compare_options e t = 0"
  by (simp add: compare_options_def)

lemma compare_offsets_rank: "options e = [] \<Longrightarrow> compare_offsets e t \<le> 0 \<longleftrightarrow> rank e \<le> rank t"
  unfolding compare_offsets_def rank_def layer_position_eq [symmetric]
  by (auto simp del: layer_position_eq)

text \<open>What is sorted: the rules with the bits given away again, and the positions of the properties.\<close>

definition numbered_rules :: "offsets \<Rightarrow> ('a offset \<times> 'r) list \<Rightarrow> ('a offset \<times> 'r) list" where
  "numbered_rules st e = sort_arbitrary_properties (remap_arbitrary_variant_offsets st e)"

lemma remap_rules_keep:
  "map snd (remap_arbitrary_variant_offsets st e) = map snd e"
  "map (options \<circ> fst) (remap_arbitrary_variant_offsets st e) = map (options \<circ> fst) e"
  by (simp_all add: remap_arbitrary_variant_offsets_def Let_def case_prod_unfold comp_def)

lemma number_properties_keep:
  "map snd (sort_arbitrary_properties e) = map snd e"
  "map (options \<circ> fst) (sort_arbitrary_properties e) = map (options \<circ> fst) e"
  by (simp_all add: sort_arbitrary_properties_def Let_def case_prod_unfold comp_def)

lemma position_is_index:
  assumes "sorted_wrt (<) i" and "p \<in> set i"
  shows "property_positions i p = int (card {q \<in> set i. q < p}) + 1"
proof -
  obtain j where j: "j < length i" "i ! j = p" using assms(2) by (metis in_set_conv_nth)
  have "takeWhile (\<lambda>x. x \<noteq> p) i = take j i"
    using j assms(1) by (intro takeWhile_eq_take_P_nth) (auto dest: sorted_wrt_nth_less)
  moreover have "{q \<in> set i. q < p} = set (take j i)"
    using arg_cong [OF filter_below [OF assms(1) j(1)], of set] by (simp add: j(2))
  moreover have "distinct (take j i)" using assms(1) by (simp add: strict_sorted_iff)
  then have "card (set (take j i)) = j" using j(1) by (simp add: distinct_card)
  ultimately show ?thesis using assms(2) j(1) by (simp add: property_positions_def)
qed

lemma card_below:
  fixes p q :: "'a :: linorder"
  assumes "finite A" and "p \<in> A" and "q \<in> A"
  shows "card {x \<in> A. x < p} \<le> card {x \<in> A. x < q} \<longleftrightarrow> p \<le> q"
proof (cases "p \<le> q")
  case True
  then have "card {x \<in> A. x < p} \<le> card {x \<in> A. x < q}" using assms(1) by (intro card_mono) auto
  then show ?thesis using True by simp
next
  case False
  then have "q < p" by simp
  then have "{x \<in> A. x < q} \<subseteq> {x \<in> A. x < p}" by (intro Collect_mono) (meson order.strict_trans)
  moreover have "q \<in> {x \<in> A. x < p}" "q \<notin> {x \<in> A. x < q}" using assms(3) \<open>q < p\<close> by simp_all
  ultimately have "{x \<in> A. x < q} \<subset> {x \<in> A. x < p}" by blast
  then have "card {x \<in> A. x < q} < card {x \<in> A. x < p}" using assms(1) by (intro psubset_card_mono) simp_all
  then show ?thesis using \<open>q < p\<close> by simp
qed

lemma positions_order:
  assumes "p \<in> set t" and "q \<in> set t" and "distinct t"
  shows "property_positions (js_sort name_compare t) p \<le> property_positions (js_sort name_compare t) q \<longleftrightarrow> p \<le> q"
proof -
  have s: "js_sort name_compare t = sort t" by (rule js_sort_key) (simp add: name_compare_sign)
  have "sorted_wrt (<) (sort t)" using assms(3) by (simp add: strict_sorted_iff)
  note index = position_is_index [OF this]
  have "card {x \<in> set t. x < p} \<le> card {x \<in> set t. x < q} \<longleftrightarrow> p \<le> q"
    by (rule card_below) (use assms in auto)
  then show ?thesis using index [of p] index [of q] assms(1,2) by (simp add: s)
qed

text \<open>The names of the arbitrary properties among the rules.\<close>

definition property_names :: "offsets \<Rightarrow> ('a offset \<times> 'r) list \<Rightarrow> string list" where
  "property_names st e = remdups (map (property_name \<circ> fst) (filter (\<lambda>(a, _). arbitrary a = 1) (remap_arbitrary_variant_offsets st e)))"

lemma numbered_positions:
  assumes "z \<in> set (map fst (numbered_rules st e))" and "arbitrary z = 1"
  shows "property_name z \<in> set (property_names st e)
    \<and> property_offset z = property_positions (js_sort name_compare (property_names st e)) (property_name z)"
proof -
  define m where "m = remap_arbitrary_variant_offsets st e"
  define t where "t = property_names st e"
  note t'_def = t_def
  note t_def = t_def [unfolded property_names_def, folded m_def]
  have "\<exists>w\<in>set m. property_name z = property_name (fst w) \<and> arbitrary z = arbitrary (fst w)
      \<and> (t \<noteq> [] \<longrightarrow> property_offset z = property_positions (js_sort name_compare t) (property_name z))"
  proof (cases "t = []")
    case True
    then have "numbered_rules st e = m" unfolding numbered_rules_def sort_arbitrary_properties_def Let_def m_def [symmetric] t_def [symmetric] by simp
    then show ?thesis using assms(1) True by auto
  next
    case False
    then have "numbered_rules st e = map (\<lambda>(z, l). (z\<lparr>property_offset := property_positions (js_sort name_compare t) (property_name z)\<rparr>, l)) m"
      unfolding numbered_rules_def sort_arbitrary_properties_def Let_def m_def [symmetric] t_def [symmetric] by simp
    then obtain w where "w \<in> set m" "z = fst w\<lparr>property_offset := property_positions (js_sort name_compare t) (property_name (fst w))\<rparr>"
      using assms(1) by auto
    then show ?thesis by (intro bexI [of _ w]) simp_all
  qed
  then obtain w where w: "w \<in> set m" "property_name z = property_name (fst w)" "arbitrary (fst w) = 1"
      "t \<noteq> [] \<longrightarrow> property_offset z = property_positions (js_sort name_compare t) (property_name z)" using assms(2) by auto
  then have "property_name z \<in> set t" by (auto simp: t_def case_prod_unfold)
  then show ?thesis using w(4) by (cases t) (auto simp flip: t'_def)
qed

text \<open>C15. Where no variant comes with a function of its own to compare its values, \<open>sort\<close> returns exactly the
  rules it was given, in the order of layer, parent layer, variants, parallel index, arbitrary properties
  after the others, the place of the property in the alphabet, and registration; rules that agree in all
  of these stay in the order they came in.\<close>

theorem rules_in_order:
  assumes "\<forall>r\<in>set e. options (fst r) = []"
  shows "sort_rules st e = sort_key (rank \<circ> fst) (numbered_rules st e) \<and> mset (map snd (sort_rules st e)) = mset (map snd e)
    \<and> (\<forall>x\<in>set (map fst (numbered_rules st e)). \<forall>y\<in>set (map fst (numbered_rules st e)). arbitrary x = 1 \<and> arbitrary y = 1 \<longrightarrow>
        (property_offset x \<le> property_offset y \<longleftrightarrow> property_name x \<le> property_name y))"
proof (intro conjI ballI impI)
  let ?n = "numbered_rules st e"
  have "set (map (options \<circ> fst) ?n) = set (map (options \<circ> fst) e)"
    by (simp only: numbered_rules_def number_properties_keep remap_rules_keep)
  then have "(\<forall>x\<in>set (map (options \<circ> fst) ?n). x = []) = (\<forall>x\<in>set (map (options \<circ> fst) e). x = [])" by (simp only:)
  then have o: "\<forall>r\<in>set ?n. options (fst r) = []" using assms by simp
  have s: "sort_rules st e = js_sort (\<lambda>(t, _) (i, _). big_sign (compare_offsets t i)) ?n"
    by (simp add: sort_rules_def numbered_rules_def)
  show "sort_rules st e = sort_key (rank \<circ> fst) ?n"
    unfolding s by (rule js_sort_key) (use o in \<open>auto simp: compare_offsets_rank\<close>)
  have "map snd ?n = map snd e" by (simp add: numbered_rules_def number_properties_keep remap_rules_keep)
  then show "mset (map snd (sort_rules st e)) = mset (map snd e)" by (metis mset_js_sort mset_map s)
  show "property_offset x \<le> property_offset y \<longleftrightarrow> property_name x \<le> property_name y"
    if "x \<in> set (map fst ?n)" "y \<in> set (map fst ?n)" "arbitrary x = 1 \<and> arbitrary y = 1" for x y
    using numbered_positions [OF that(1)] numbered_positions [OF that(2)] that(3) positions_order by (simp add: property_names_def)
qed

theorem rules_in_order_witness:
  "map snd (sort_rules new_offsets
     [(fst (create_offset Utilities new_offsets) :: unit offset, ''b''), (fst (create_offset Base new_offsets), ''a'')]) = [''a'', ''b'']"
proof -
  let ?e = "[(fst (create_offset Utilities new_offsets) :: unit offset, ''b''), (fst (create_offset Base new_offsets), ''a'')]"
  have "sort_rules new_offsets ?e = sort_key (rank \<circ> fst) (numbered_rules new_offsets ?e)"
    using rules_in_order [of ?e new_offsets] by (simp add: create_offset_def)
  also have "map snd \<dots> = [''a'', ''b'']" by code_simp
  finally show ?thesis .
qed

end
