(* ===== verification/Tailwind_Split.thy ===== *)
theory Tailwind_Split
  imports Js_Prelude Go_Map
begin

text \<open>
  How Tailwind takes the name of a class apart, in \<open>webgui/tailwind.js\<close>: \<open>ve\<close> splits at a separator
  outside of brackets (\<open>R_\<close> uses it for the variants), \<open>x_\<close> lists the ways to read a name as that of a
  utility with a value, \<open>T_\<close> looks them up, and \<open>Ug\<close> and \<open>L_\<close> take apart the parameters of \<open>@apply\<close> and the
  formats of variants.
\<close>

section \<open>Splitting at the top level\<close>

definition slash_back :: char where
  "slash_back = CHR 0x5C"

fun closes :: "char \<Rightarrow> char \<Rightarrow> bool" where
  "closes c b \<longleftrightarrow> c = CHR '')'' \<and> b = CHR ''('' \<or> c = CHR '']'' \<and> b = CHR ''['' \<or> c = CHR ''}'' \<and> b = CHR ''{''"

text \<open>The stack of open brackets \<open>t\<close>, innermost first, after \<open>o\<close>.\<close>

definition nest_step :: "char \<Rightarrow> char list \<Rightarrow> char list" where
  "nest_step c t =
     (if c \<in> {CHR ''('', CHR ''['', CHR ''{''} then c # t
      else if t \<noteq> [] \<and> closes c (hd t) then tl t else t)"

text \<open>The loop of \<open>ve(r, e)\<close>: the rest, the index \<open>a\<close>, the brackets, the last position, and whether the
  character before was a slash_back.\<close>

fun split_loop :: "string \<Rightarrow> string \<Rightarrow> string \<Rightarrow> nat \<Rightarrow> char list \<Rightarrow> nat \<Rightarrow> bool \<Rightarrow> string list" where
  "split_loop r e [] a t n s = [drop n r]"
| "split_loop r e (c # cs) a t n s =
     (let hit = t = [] \<and> e \<noteq> [] \<and> c = hd e \<and> \<not> s \<and> (length e = 1 \<or> take (length e) (c # cs) = e);
          s' = (\<not> s \<and> c = slash_back); t' = nest_step c t
      in if hit then take (a - n) (drop n r) # split_loop r e cs (Suc a) t' (a + length e) s'
         else split_loop r e cs (Suc a) t' n s')"

definition split_top :: "string \<Rightarrow> string \<Rightarrow> string list" where
  "split_top r e = split_loop r e r 0 [] 0 False"

section \<open>Utilities and values\<close>

text \<open>\<open>r.lastIndexOf(c, e)\<close>: the last place up to \<open>e\<close>.\<close>

definition last_index :: "char \<Rightarrow> string \<Rightarrow> nat \<Rightarrow> nat option" where
  "last_index c r e =
     (case rev (filter (\<lambda>i. r ! i = c) [0..<min (Suc e) (length r)]) of [] \<Rightarrow> None | i # _ \<Rightarrow> Some i)"

text \<open>The pair that is yielded for the place \<open>t\<close>, of a dash or (\<open>i\<close>) a slash.\<close>

definition permutation_at :: "string \<Rightarrow> nat \<Rightarrow> bool \<Rightarrow> (string \<times> string) list" where
  "permutation_at r t i =
     (let n = take t r; s = (if i then drop t r else drop (Suc t) r)
      in if n = [] \<or> s = ''/'' then [] else [(n, s)])"

text \<open>The later rounds of \<open>x_\<close> after the place \<open>t = Suc e\<close>; the next place is at most \<open>e\<close>.\<close>

fun dash_permutations :: "string \<Rightarrow> nat \<Rightarrow> (string \<times> string) list" where
  "dash_permutations r 0 = []"
| "dash_permutations r (Suc e) =
     (case last_index (CHR ''-'') r e of
        None \<Rightarrow> []
      | Some t \<Rightarrow> permutation_at r t False @ dash_permutations r (min t e))"

text \<open>The first round: an arbitrary value, a modifier, or a dash.\<close>

definition first_place :: "string \<Rightarrow> (nat \<times> bool) option" where
  "first_place r =
     (if r \<noteq> [] \<and> last r = CHR '']'' then
        (case str_index r ''['' of
           Some (Suc a) \<Rightarrow> if r ! a = CHR ''-'' then Some (a, False) else if r ! a = CHR ''/'' then Some (a, True) else None
         | _ \<Rightarrow> None)
      else if CHR ''/'' \<in> set r then map_option (\<lambda>t. (t, True)) (last_index (CHR ''/'') r (length r))
      else map_option (\<lambda>t. (t, False)) (last_index (CHR ''-'') r (length r)))"

text \<open>\<open>x_\<close>.\<close>

definition candidate_permutations :: "string \<Rightarrow> (string \<times> string) list" where
  "candidate_permutations r =
     (case first_place r of None \<Rightarrow> [] | Some (t, i) \<Rightarrow> permutation_at r t i @ dash_permutations r t)"

text \<open>\<open>T_\<close>: the rules of the plugins for a name with the value they are asked for. \<open>m\<close> is
  \<open>candidateRuleMap\<close>, \<open>arb\<close> what \<open>O_\<close> makes of an arbitrary property, \<open>n\<close> the prefix.\<close>

definition matched_plugins :: "(string \<rightharpoonup> 'p) \<Rightarrow> (string \<Rightarrow> 'p option) \<Rightarrow> string \<Rightarrow> string \<Rightarrow> ('p \<times> string) list" where
  "matched_plugins m arb n r =
     (let s = length n; a = has_prefix r n \<or> has_prefix r (CHR ''-'' # n);
          i = (a \<and> s < length r \<and> r ! s = CHR ''-'');
          t = (if i then n @ drop (Suc s) r else r)
      in (case m r of Some p \<Rightarrow> [(p, ''DEFAULT'')] | None \<Rightarrow> [])
       @ (case arb r of Some p \<Rightarrow> [(p, ''DEFAULT'')] | None \<Rightarrow> [])
       @ (case m t of Some p \<Rightarrow> if i then [(p, ''-DEFAULT'')] else [] | None \<Rightarrow> [])
       @ concat (map (\<lambda>(u, v). case m u of Some p \<Rightarrow> [(p, if i then CHR ''-'' # v else v)] | None \<Rightarrow> []) (candidate_permutations t)))"

section \<open>Parameters and formats\<close>

text \<open>\<open>r.split(/[\s\t\n]+/g)\<close>.\<close>

fun split_spaces :: "string \<Rightarrow> string list" where
  "split_spaces [] = [[]]"
| "split_spaces (c # cs) =
     (if js_space c then [] # (if cs \<noteq> [] \<and> js_space (hd cs) then tl (split_spaces cs) else split_spaces cs)
      else (case split_spaces cs of [] \<Rightarrow> [[c]] | w # ws \<Rightarrow> (c # w) # ws))"

text \<open>\<open>Ug\<close>: the candidates of \<open>@apply\<close>, and whether they are important.\<close>

definition apply_candidates :: "string \<Rightarrow> string list \<times> bool" where
  "apply_candidates r =
     (let e = split_spaces r in if last e = ''!important'' then (butlast e, True) else (e, False))"

text \<open>\<open>L_\<close>: the parts of a format with braces; after a slash_back that ends the format the code appends \<open>undefined\<close>.\<close>

fun format_loop :: "string \<Rightarrow> string list \<Rightarrow> string \<Rightarrow> nat \<Rightarrow> string list js" where
  "format_loop [] e t i = Value (if t \<noteq> [] then e @ [js_trim t] else e)"
| "format_loop (c # cs) e t i =
     (if c = slash_back then
        (case cs of
           [] \<Rightarrow> format_loop [] e (t @ slash_back # ''undefined'') i
         | d # ds \<Rightarrow> format_loop ds e (t @ [slash_back, d]) i)
      else if c = CHR ''{'' then format_loop cs (e @ [js_trim t]) [] (Suc i)
      else if c = CHR ''}'' then
        (case i of 0 \<Rightarrow> Throw ''Your { and } are unbalanced.'' | Suc i \<Rightarrow> format_loop cs (e @ [js_trim t]) [] i)
      else format_loop cs e (t @ [c]) i)"

definition format_parts :: "string \<Rightarrow> string list js" where
  "format_parts r = js_bind (format_loop r [] [] 0) (\<lambda>e. Value (filter (\<lambda>n. n \<noteq> []) e))"

section \<open>Splitting and joining\<close>

text \<open>The pieces without positions: \<open>w\<close> is the piece so far.\<close>

fun pieces :: "char \<Rightarrow> string \<Rightarrow> char list \<Rightarrow> bool \<Rightarrow> string \<Rightarrow> string list" where
  "pieces x [] t s w = [w]"
| "pieces x (c # cs) t s w =
     (if t = [] \<and> c = x \<and> \<not> s then w # pieces x cs (nest_step c t) (\<not> s \<and> c = slash_back) []
      else pieces x cs (nest_step c t) (\<not> s \<and> c = slash_back) (w @ [c]))"

lemma split_loop_pieces:
  "drop a r = cs \<Longrightarrow> n \<le> a \<Longrightarrow> a \<le> length r \<Longrightarrow> split_loop r [x] cs a t n s = pieces x cs t s (take (a - n) (drop n r))"
proof (induction cs arbitrary: a t n s)
  case (Cons c cs)
  have c: "a < length r" "drop (Suc a) r = cs" "r ! a = c"
    using Cons.prems(1) by (auto simp: nth_via_drop drop_Suc drop_tl) (metis drop_eq_Nil leI list.distinct(1))
  show ?case
  proof (cases "t = [] \<and> c = x \<and> \<not> s")
    case True
    then have "split_loop r [x] (c # cs) a t n s
        = take (a - n) (drop n r) # split_loop r [x] cs (Suc a) (nest_step c t) (Suc a) (\<not> s \<and> c = slash_back)"
      by simp
    then show ?thesis using Cons.IH [of "Suc a" "Suc a"] True c by simp
  next
    case False
    then have "split_loop r [x] (c # cs) a t n s = split_loop r [x] cs (Suc a) (nest_step c t) n (\<not> s \<and> c = slash_back)"
      by (auto simp: Let_def)
    moreover have "take (Suc a - n) (drop n r) = take (a - n) (drop n r) @ [c]"
      using c Cons.prems by (simp add: Suc_diff_le take_Suc_conv_app_nth)
    ultimately show ?thesis using Cons.IH [of "Suc a" n] False c Cons.prems by auto
  qed
qed simp

lemma split_top_pieces: "split_top r [x] = pieces x r [] False []"
  by (simp add: split_top_def split_loop_pieces)

lemma pieces_ne [simp]: "pieces x cs t s w \<noteq> []"
  by (induction x cs t s w rule: pieces.induct) auto

lemma join_pieces: "join [x] (pieces x cs t s w) = w @ cs"
  by (induction x cs t s w rule: pieces.induct) (auto simp: join_Cons)

text \<open>A piece with its brackets closed, no open escape, and the separator only inside of brackets or escaped.\<close>

fun sep_closed_from :: "char \<Rightarrow> string \<Rightarrow> char list \<Rightarrow> bool \<Rightarrow> bool" where
  "sep_closed_from x [] t s \<longleftrightarrow> t = [] \<and> \<not> s"
| "sep_closed_from x (c # cs) t s \<longleftrightarrow> \<not> (t = [] \<and> c = x \<and> \<not> s) \<and> sep_closed_from x cs (nest_step c t) (\<not> s \<and> c = slash_back)"

definition closed_piece :: "char \<Rightarrow> string \<Rightarrow> bool" where
  "closed_piece x w \<longleftrightarrow> sep_closed_from x w [] False"

definition plain_separator :: "char \<Rightarrow> bool" where
  "plain_separator x \<longleftrightarrow> x \<notin> {CHR ''('', CHR ''['', CHR ''{'', slash_back}"

lemma pieces_closed: "sep_closed_from x v t s \<Longrightarrow> pieces x v t s w = [w @ v]"
  by (induction x v t s arbitrary: w rule: sep_closed_from.induct) auto

lemma pieces_closed_then:
  "sep_closed_from x v t s \<Longrightarrow> plain_separator x \<Longrightarrow> pieces x (v @ x # rest) t s w = (w @ v) # pieces x rest [] False []"
  by (induction x v t s arbitrary: w rule: sep_closed_from.induct) (auto simp: plain_separator_def nest_step_def)

text \<open>C22. Splitting at a separator of one character, no bracket and no backslash, loses nothing: joining the
  parts gives the text again. And it finds exactly the parts that were joined, where in each of them
  brackets are closed and the separator occurs only in brackets or escaped.\<close>

theorem split_top_join:
  assumes "plain_separator x" and "ws \<noteq> []" and "\<forall>w\<in>set ws. closed_piece x w"
  shows "split_top (join [x] ws) [x] = ws \<and> (\<forall>r. join [x] (split_top r [x]) = r)"
proof
  show "split_top (join [x] ws) [x] = ws"
    unfolding split_top_pieces using assms(2,3)
  proof (induction ws rule: induct_list012)
    case (2 w)
    then show ?case by (simp add: closed_piece_def pieces_closed join_Cons)
  next
    case (3 w v ws)
    then show ?case using pieces_closed_then [of x w "[]" False] assms(1) by (simp add: closed_piece_def join_Cons)
  qed simp
  show "\<forall>r. join [x] (split_top r [x]) = r" by (simp add: split_top_pieces join_pieces)
qed

theorem split_top_join_witness:
  "split_top ''hover:[&:nth-child(2)]:flex'' '':'' = [''hover'', ''[&:nth-child(2)]'', ''flex'']"
proof -
  have "split_top (join '':'' [''hover'', ''[&:nth-child(2)]'', ''flex'']) '':'' = [''hover'', ''[&:nth-child(2)]'', ''flex'']"
    using split_top_join [of "CHR '':''" "[''hover'', ''[&:nth-child(2)]'', ''flex'']"]
    by (simp add: plain_separator_def slash_back_def closed_piece_def nest_step_def)
  then show ?thesis by (simp add: join_Cons)
qed

text \<open>
  A defect: the loop goes on behind the first character of a separator that was found, so separators of
  more characters (the configuration may name one) are found twice where they overlap, and joining
  does not give the text back.
\<close>

lemma long_separator_overlaps:
  "split_top ''a___b'' ''__'' = [''a'', '''', ''b''] \<and> join ''__'' (split_top ''a___b'' ''__'') = ''a____b''"
  by (simp add: split_top_def nest_step_def slash_back_def Let_def join_Cons)

section \<open>Every utility is found\<close>

lemma last_index_0: "last_index c r 0 = (if r \<noteq> [] \<and> r ! 0 = c then Some 0 else None)"
  by (cases r) (simp_all add: last_index_def)

lemma last_index_Suc: "last_index c r (Suc e) = (if Suc e < length r \<and> r ! Suc e = c then Some (Suc e) else last_index c r e)"
proof (cases "Suc e < length r")
  case True
  then have "min (Suc (Suc e)) (length r) = Suc (Suc e)" "min (Suc e) (length r) = Suc e" by simp_all
  then show ?thesis using True by (auto simp: last_index_def)
next
  case False
  then have "min (Suc (Suc e)) (length r) = length r" "min (Suc e) (length r) = length r" by simp_all
  then show ?thesis using False by (simp add: last_index_def)
qed

lemma last_index_le: "last_index c r e = Some t \<Longrightarrow> t \<le> e"
  by (induction e) (auto simp: last_index_0 last_index_Suc split: if_splits)

lemma dash_permutations_Suc:
  "dash_permutations r (Suc e) = (if e < length r \<and> r ! e = CHR ''-'' then permutation_at r e False else []) @ dash_permutations r e"
proof (cases "e < length r \<and> r ! e = CHR ''-''")
  case True
  then have "last_index (CHR ''-'') r e = Some e" by (cases e) (auto simp: last_index_0 last_index_Suc)
  then show ?thesis using True by simp
next
  case no: False
  show ?thesis
  proof (cases e)
    case 0
    then show ?thesis using no by (auto simp: last_index_0)
  next
    case (Suc d)
    then have "last_index (CHR ''-'') r e = last_index (CHR ''-'') r d" using no by (auto simp: last_index_Suc)
    moreover have "min t e = min t d" if "last_index (CHR ''-'') r d = Some t" for t using last_index_le [OF that] Suc by simp
    ultimately show ?thesis using no Suc by (auto split: option.split simp del: dash_permutations.simps(1))
  qed
qed

text \<open>Every dash below the bound is tried, from the right.\<close>

lemma dash_permutations_all:
  "dash_permutations r k = concat (map (\<lambda>t. if t < length r \<and> r ! t = CHR ''-'' then permutation_at r t False else []) (rev [0..<k]))"
  by (induction k) (simp_all add: dash_permutations_Suc del: dash_permutations.simps(2))

lemma in_dash_permutations:
  "(u, v) \<in> set (dash_permutations r k) \<longleftrightarrow> u \<noteq> [] \<and> v \<noteq> ''/'' \<and> r = u @ CHR ''-'' # v \<and> length u < k"
proof -
  have "(\<exists>t<k. t < length r \<and> r ! t = CHR ''-'' \<and> take t r \<noteq> [] \<and> drop (Suc t) r \<noteq> ''/'' \<and> u = take t r \<and> v = drop (Suc t) r)
      \<longleftrightarrow> u \<noteq> [] \<and> v \<noteq> ''/'' \<and> r = u @ CHR ''-'' # v \<and> length u < k"
    (is "?l = ?r")
  proof
    assume ?l
    then show ?r by (auto simp: Cons_nth_drop_Suc) (metis id_take_nth_drop)
  next
    assume ?r
    then show ?l by (intro exI [of _ "length u"]) (simp add: nth_append)
  qed
  then show ?thesis by (auto simp: dash_permutations_all permutation_at_def Let_def)
qed

lemma str_index_char: "x \<notin> set u \<Longrightarrow> str_index (u @ x # v) [x] = Some (length u)"
  by (induction u) auto

lemma last_index_found: "r ! t = c \<Longrightarrow> t < length r \<Longrightarrow> t \<le> e \<Longrightarrow> \<exists>t'. last_index c r e = Some t' \<and> t \<le> t' \<and> t' < length r \<and> r ! t' = c"
proof (induction e)
  case 0
  then show ?case by (auto simp: last_index_0)
next
  case (Suc e)
  then show ?case by (cases "t = Suc e") (auto simp: last_index_Suc)
qed

text \<open>When a name made of \<open>u\<close>, a dash and \<open>v\<close> can be read as that: an arbitrary value or modifier at the end
  begins with the first \<open>[\<close> of the name, after a dash or a slash; otherwise the last slash, if there is
  one, stands in \<open>v\<close>, which is more than a slash.\<close>

definition value_for :: "string \<Rightarrow> string \<Rightarrow> bool" where
  "value_for u v \<longleftrightarrow>
     (if v \<noteq> [] \<and> last v = CHR '']'' then
        \<exists>x w. v = x @ CHR ''['' # w \<and> CHR ''['' \<notin> set (u @ x) \<and> (x = [] \<or> last x \<in> {CHR ''-'', CHR ''/''})
      else CHR ''/'' \<in> set v \<and> v \<noteq> ''/'' \<or> CHR ''/'' \<notin> set (u @ v))"

lemma arbitrary_found:
  assumes "u \<noteq> []" and "last v = CHR '']''" and "v = x @ CHR ''['' # w" and "CHR ''['' \<notin> set (u @ x)"
    and "x = [] \<or> last x \<in> {CHR ''-'', CHR ''/''}"
  shows "(u, v) \<in> set (candidate_permutations (u @ CHR ''-'' # v))"
proof -
  let ?r = "u @ CHR ''-'' # v"
  have i: "str_index ?r ''['' = Some (Suc (length u + length x))"
    using str_index_char [of "CHR ''[''" "u @ CHR ''-'' # x" w] assms(3,4) by simp
  have l: "last ?r = CHR '']''" using assms(2,3) by simp
  show ?thesis
  proof (cases "x = []")
    case True
    then have "first_place ?r = Some (length u, False)" using i l by (simp add: first_place_def nth_append)
    then show ?thesis using assms(1,3) True by (simp add: candidate_permutations_def permutation_at_def)
  next
    case False
    then have "?r ! (length u + length x) = last x" using assms(3) by (simp add: nth_append last_conv_nth nth_Cons')
    then have "\<exists>i. first_place ?r = Some (length u + length x, i)" using i l False assms(5) by (auto simp: first_place_def)
    moreover have "(u, v) \<in> set (dash_permutations ?r (length u + length x))"
      using assms(1,3) False by (simp add: in_dash_permutations append_eq_Cons_conv)
    ultimately show ?thesis by (auto simp: candidate_permutations_def)
  qed
qed

lemma permutation_found:
  assumes "u \<noteq> []" and "value_for u v"
  shows "(u, v) \<in> set (candidate_permutations (u @ CHR ''-'' # v))"
proof (cases "v \<noteq> [] \<and> last v = CHR '']''")
  case True
  then obtain x w where "v = x @ CHR ''['' # w" "CHR ''['' \<notin> set (u @ x)" "x = [] \<or> last x \<in> {CHR ''-'', CHR ''/''}"
    using assms(2) unfolding value_for_def if_P [OF True] by blast
  then show ?thesis using arbitrary_found [OF assms(1)] True by blast
next
  case no: False
  let ?r = "u @ CHR ''-'' # v"
  have l: "last ?r \<noteq> CHR '']''" using no by auto
  have v: "v \<noteq> ''/''" using assms(2) no by (auto simp: value_for_def)
  show ?thesis
  proof (cases "CHR ''/'' \<in> set ?r")
    case True
    then have "CHR ''/'' \<in> set v" using assms(2) no by (auto simp: value_for_def)
    then obtain j where "j < length v" "v ! j = CHR ''/''" by (auto simp: in_set_conv_nth)
    then obtain t where t: "last_index (CHR ''/'') ?r (length ?r) = Some t" "length u < t"
      using last_index_found [of ?r "Suc (length u + j)" "CHR ''/''" "length ?r"] by (auto simp: nth_append)
    then have "first_place ?r = Some (t, True)" using l True by (simp add: first_place_def)
    moreover have "(u, v) \<in> set (dash_permutations ?r t)" using t(2) assms(1) v by (simp add: in_dash_permutations)
    ultimately show ?thesis by (simp add: candidate_permutations_def)
  next
    case False
    obtain t where t: "last_index (CHR ''-'') ?r (length ?r) = Some t" "length u \<le> t" "t < length ?r" "?r ! t = CHR ''-''"
      using last_index_found [of ?r "length u" "CHR ''-''" "length ?r"] by (auto simp: nth_append)
    then have f: "first_place ?r = Some (t, False)" using l False by (simp add: first_place_def)
    have "t = length u \<or> (u, v) \<in> set (dash_permutations ?r t)" using t(2) assms(1) v by (auto simp: in_dash_permutations)
    then show ?thesis using f assms(1) v by (auto simp: candidate_permutations_def permutation_at_def)
  qed
qed

lemma last_index_Some: "last_index c r e = Some t \<Longrightarrow> t < length r \<and> r ! t = c"
  by (induction e) (auto simp: last_index_0 last_index_Suc split: if_splits)

lemma first_place_Some:
  "first_place r = Some (t, i) \<Longrightarrow> t < length r \<and> r ! t = (if i then CHR ''/'' else CHR ''-'')"
  by (auto simp: first_place_def split: if_splits option.splits nat.splits dest!: last_index_Some)
    (auto dest!: str_index_Some simp: nth_append)

lemma permutation_at_sound:
  assumes "(u, v) \<in> set (permutation_at r t i)" and "t < length r"
  shows "u \<noteq> [] \<and> r = (if i then u @ v else u @ r ! t # v) \<and> (i \<longrightarrow> v \<noteq> [] \<and> hd v = r ! t)"
  using assms by (auto simp: permutation_at_def Let_def id_take_nth_drop hd_drop_conv_nth split: if_splits)

text \<open>Only ways to read the name are listed.\<close>

lemma permutation_sound:
  assumes "(u, v) \<in> set (candidate_permutations r)"
  shows "u \<noteq> [] \<and> (r = u @ CHR ''-'' # v \<or> r = u @ v \<and> v \<noteq> [] \<and> hd v = CHR ''/'')"
proof -
  obtain t i where p: "first_place r = Some (t, i)" and uv: "(u, v) \<in> set (permutation_at r t i) \<union> set (dash_permutations r t)"
    using assms by (cases "first_place r") (auto simp: candidate_permutations_def)
  show ?thesis
  proof (cases "(u, v) \<in> set (permutation_at r t i)")
    case True
    then show ?thesis using permutation_at_sound [OF True] first_place_Some [OF p] by (auto split: if_splits)
  next
    case False
    then show ?thesis using uv in_dash_permutations [of u v r t] by blast
  qed
qed

text \<open>C23. Every utility of a plugin is found under the name made of the prefix, its own name (which does not begin
  with a dash), a dash and a value; and, if the prefix is empty or ends in a dash, with a dash in front
  for the negative value. The value may be a plain one, one with a slash or a modifier, or one that is
  arbitrary or has an arbitrary modifier; what is needed is that no \<open>[\<close> stands before the arbitrary part,
  that the name of the utility has no slash unless the value has one, and that the value is not a
  single slash (\<open>value_for\<close>).\<close>

theorem utility_is_found:
  assumes "m (n @ u) = Some p" and "u \<noteq> []" and "hd u \<noteq> CHR ''-''" and "value_for (n @ u) v"
  shows "(p, v) \<in> set (matched_plugins m arb n (n @ u @ CHR ''-'' # v))
    \<and> (n = [] \<or> last n = CHR ''-'' \<longrightarrow> (p, CHR ''-'' # v) \<in> set (matched_plugins m arb n (CHR ''-'' # n @ u @ CHR ''-'' # v)))"
proof (intro conjI impI)
  have f: "((n @ u), v) \<in> set (candidate_permutations (n @ u @ CHR ''-'' # v))"
    using permutation_found [of "n @ u" v] assms(2,4) by simp
  let ?r = "n @ u @ CHR ''-'' # v"
  have "?r ! length n = hd u" using assms(2) by (simp add: nth_append hd_conv_nth)
  then show "(p, v) \<in> set (matched_plugins m arb n ?r)"
    using f assms(1,3) by (force simp: matched_plugins_def Let_def)
  assume "n = [] \<or> last n = CHR ''-''"
  then have "(CHR ''-'' # ?r) ! length n = CHR ''-''"
    by (cases n rule: rev_cases) (auto simp: nth_append)
  moreover have "has_prefix (CHR ''-'' # ?r) (CHR ''-'' # n)" by simp
  ultimately show "(p, CHR ''-'' # v) \<in> set (matched_plugins m arb n (CHR ''-'' # ?r))"
    using f assms(1) by (force simp: matched_plugins_def Let_def)
qed

theorem utility_is_found_witness:
  "(7, ''-1/2'') \<in> set (matched_plugins [''tw-mt'' \<mapsto> (7::nat)] (\<lambda>_. None) ''tw-'' ''-tw-mt-1/2'')"
  using utility_is_found [of "[''tw-mt'' \<mapsto> (7::nat)]" "''tw-''" "''mt''" 7 "''1/2''" "\<lambda>_. None"]
  by (simp add: value_for_def)

end
