(* ===== verification/Tailwind_Rules.thy ===== *)
theory Tailwind_Rules
  imports Candidate_Extraction Tailwind_Offsets
begin

text \<open>
  The rules of the candidates in \<open>webgui/tailwind.js\<close>: \<open>as\<close> generates them once for every candidate and
  keeps them in the caches of the context (\<open>il\<close>), \<open>q2\<close> keeps those that \<open>@apply\<close> asks for, \<open>Uh\<close> and \<open>H_\<close>
  take a candidate that turned out to be invalid out of the caches, and \<open>T2\<close> puts the rules into the
  layers of the style sheet. The search for the utilities of a candidate (\<open>Yo\<close>) is a parameter, a
  function that may also change the offsets and make new nodes. The mark on a node that names its
  candidate is part of the node, so a node is of one candidate: matches of two candidates that share a
  node, whose mark the code overwrites, and nodes that are changed between two calls are not covered.
\<close>

section \<open>The context\<close>

text \<open>The name \<open>*\<close> of the rules that are always there is an object (\<open>gt\<close>), not the string.\<close>

datatype candidate = Class string | Always

fun candidate_text :: "candidate \<Rightarrow> string" where
  "candidate_text (Class s) = s"
| "candidate_text Always = ''*''"

text \<open>A node is an object, which the sets of nodes compare by its identity.\<close>

record 'n node =
  node_id :: nat
  css :: 'n

type_synonym ('a, 'n) rule = "'a offset \<times> 'n node"

text \<open>A match of \<open>Yo\<close>: \<open>[{sort, options}, node]\<close>.\<close>

record ('a, 'n) found =
  found_sort :: "'a offset"
  respect_important :: bool
  found_node :: "'n node"

text \<open>What \<open>Yo\<close> may change: the maps of the plugins, the offsets, and the objects.\<close>

record 's world =
  plugins :: 's
  offs :: offsets
  next_id :: nat

record ('s, 'a, 'n) tw_context = "'s world" +
  rule_cache :: "('a, 'n) rule list"
  candidate_rules :: "(candidate, ('a, 'n) rule list) gomap"
  class_cache :: "(candidate, ('a, 'n) found list) gomap"
  apply_cache :: "(candidate, ('a, 'n) found list) gomap"
  not_class :: "candidate list"
  sheet_cache :: "(layer \<Rightarrow> 'n node list) option"

text \<open>
  The parameters: the search, what \<open>important\<close> in the configuration does to a rule (\<open>D_\<close>), the
  candidate a node was made for, and \<open>candidateRuleMap.delete\<close>.
\<close>

record ('s, 'a, 'n) tailwind =
  search :: "candidate \<Rightarrow> 's world \<Rightarrow> ('a, 'n) found list \<times> 's world"
  important :: "('n \<Rightarrow> 'n) option"
  made_for :: "'n \<Rightarrow> candidate option"
  forget :: "candidate \<Rightarrow> 's \<Rightarrow> 's"

definition new_context :: "'s \<Rightarrow> offsets \<Rightarrow> candidate list \<Rightarrow> ('s, 'a, 'n) tw_context" where
  "new_context p os blocklist =
     \<lparr>plugins = p, offs = os, next_id = 0, rule_cache = [], candidate_rules = [], class_cache = [], apply_cache = [],
      not_class = blocklist, sheet_cache = None\<rparr>"

section \<open>Operations\<close>

definition run_search :: "('s, 'a, 'n) tailwind \<Rightarrow> candidate \<Rightarrow> ('s, 'a, 'n) tw_context \<Rightarrow> ('a, 'n) found list \<times> ('s, 'a, 'n) tw_context" where
  "run_search tw s e =
     (let (a, w) = search tw s \<lparr>plugins = plugins e, offs = offs e, next_id = next_id e\<rparr>
      in (a, e\<lparr>plugins := plugins w, offs := offs w, next_id := next_id w\<rparr>))"

text \<open>A copy of a node, \<open>f\<close> applied to it, is a new object.\<close>

definition copy_node :: "('n \<Rightarrow> 'n) \<Rightarrow> 'n node \<Rightarrow> nat \<Rightarrow> 'n node \<times> nat" where
  "copy_node f d i = (\<lparr>node_id = i, css = f (css d)\<rparr>, Suc i)"

definition make_rule :: "('s, 'a, 'n) tailwind \<Rightarrow> bool \<Rightarrow> ('a, 'n) found \<Rightarrow> nat \<Rightarrow> ('a, 'n) rule \<times> nat" where
  "make_rule tw t l i =
     (let (d, i) = (case important tw of Some n \<Rightarrow> if respect_important l then copy_node n (found_node l) i else (found_node l, i)
                                        | None \<Rightarrow> (found_node l, i));
          (d, i) = (if t then copy_node id d i else (d, i))
      in ((found_sort l, d), i))"

fun make_rules :: "('s, 'a, 'n) tailwind \<Rightarrow> bool \<Rightarrow> ('a, 'n) found list \<Rightarrow> nat \<Rightarrow> ('a, 'n) rule list \<times> nat" where
  "make_rules tw t [] i = ([], i)"
| "make_rules tw t (l # ls) i = (let (p, i) = make_rule tw t l i; (ps, i) = make_rules tw t ls i in (p # ps, i))"

text \<open>One candidate in the loop of \<open>as\<close>. The pair of a rule is a new array, so the sets take it at their end.\<close>

definition generate_rule :: "('s, 'a, 'n) tailwind \<Rightarrow> bool \<Rightarrow> candidate \<Rightarrow> ('s, 'a, 'n) tw_context \<Rightarrow> ('a, 'n) rule list \<times> ('s, 'a, 'n) tw_context" where
  "generate_rule tw t s e =
     (if s \<in> set (not_class e) then ([], e)
      else (case gm_get (candidate_rules e) s of
         Some ps \<Rightarrow> (ps, e)
       | None \<Rightarrow>
          (let (a, e) = run_search tw s e
           in if a = [] then ([], e\<lparr>not_class := set_add s (not_class e)\<rparr>)
              else (let (ps, i) = make_rules tw t a (next_id e)
                    in (ps, e\<lparr>next_id := i, class_cache := gm_put s a (class_cache e),
                              candidate_rules := gm_put s ps (candidate_rules e), rule_cache := rule_cache e @ ps\<rparr>)))))"

fun generate_rules :: "('s, 'a, 'n) tailwind \<Rightarrow> bool \<Rightarrow> candidate list \<Rightarrow> ('s, 'a, 'n) tw_context \<Rightarrow> ('a, 'n) rule list \<times> ('s, 'a, 'n) tw_context" where
  "generate_rules tw t [] e = ([], e)"
| "generate_rules tw t (s # r) e =
     (let (ps, e) = generate_rule tw t s e; (qs, e) = generate_rules tw t r e in (ps @ qs, e))"

text \<open>\<open>q2\<close>, one candidate.\<close>

fun copy_found :: "('a, 'n) found list \<Rightarrow> nat \<Rightarrow> ('a, 'n) found list \<times> nat" where
  "copy_found [] i = ([], i)"
| "copy_found (l # ls) i =
     (let (d, i) = copy_node id (found_node l) i; (ls, i) = copy_found ls i in (l\<lparr>found_node := d\<rparr> # ls, i))"

definition apply_candidate :: "('s, 'a, 'n) tailwind \<Rightarrow> candidate \<Rightarrow> ('s, 'a, 'n) tw_context \<Rightarrow> ('s, 'a, 'n) tw_context" where
  "apply_candidate tw t e =
     (if t \<in> set (not_class e) \<or> gm_get (apply_cache e) t \<noteq> None then e
      else (case gm_get (class_cache e) t of
         Some a \<Rightarrow> (let (a, i) = copy_found a (next_id e) in e\<lparr>next_id := i, apply_cache := gm_put t a (apply_cache e)\<rparr>)
       | None \<Rightarrow>
          (let (a, e) = run_search tw t e
           in if a = [] then e\<lparr>not_class := set_add t (not_class e)\<rparr> else e\<lparr>apply_cache := gm_put t a (apply_cache e)\<rparr>)))"

text \<open>\<open>Uh\<close> and \<open>H_\<close>.\<close>

definition mark_invalid_candidate :: "('s, 'a, 'n) tailwind \<Rightarrow> candidate \<Rightarrow> ('s, 'a, 'n) tw_context \<Rightarrow> ('s, 'a, 'n) tw_context" where
  "mark_invalid_candidate tw s r =
     (if gm_get (class_cache r) s = None then r
      else r\<lparr>not_class := set_add s (not_class r), class_cache := gm_del s (class_cache r),
             apply_cache := gm_del s (apply_cache r), plugins := forget tw s (plugins r),
             candidate_rules := gm_del s (candidate_rules r), sheet_cache := None\<rparr>)"

definition mark_invalid_node :: "('s, 'a, 'n) tailwind \<Rightarrow> 'n node \<Rightarrow> ('s, 'a, 'n) tw_context \<Rightarrow> ('s, 'a, 'n) tw_context" where
  "mark_invalid_node tw e r =
     (case made_for tw (css e) of
        None \<Rightarrow> r
      | Some t \<Rightarrow>
          if t = Class [] then r
          else mark_invalid_candidate tw t
                 (r\<lparr>rule_cache := filter (\<lambda>(_, d). made_for tw (css d) \<noteq> Some t) (rule_cache r)\<rparr>))"

section \<open>The style sheet\<close>

text \<open>\<open>T2\<close>: a set of nodes for every layer, in the order of the offsets. There is no set for \<open>user\<close>.\<close>

fun add_to_layers :: "('a, 'n) rule list \<Rightarrow> (layer \<Rightarrow> 'n node list) \<Rightarrow> (layer \<Rightarrow> 'n node list) js" where
  "add_to_layers [] i = Value i"
| "add_to_layers ((n, s) # t) i =
     (if layer n = User then Throw ''TypeError'' else add_to_layers t (i(layer n := set_add s (i (layer n)))))"

definition build_sheet :: "offsets \<Rightarrow> ('a, 'n) rule list \<Rightarrow> (layer \<Rightarrow> 'n node list) js" where
  "build_sheet os r = add_to_layers (sort_rules os r) (\<lambda>_. [])"

text \<open>From the candidates to the style sheet in \<open>Pl\<close>.\<close>

definition candidate_compare :: "candidate \<Rightarrow> candidate \<Rightarrow> int" where
  "candidate_compare y w = (if y = w then 0 else if candidate_text y < candidate_text w then - 1 else 1)"

definition update_sheet :: "('s, 'a, 'n) tailwind \<Rightarrow> candidate list \<Rightarrow> ('s, 'a, 'n) tw_context \<Rightarrow> ((layer \<Rightarrow> 'n node list) \<times> ('s, 'a, 'n) tw_context) js" where
  "update_sheet tw i r =
     (let old = length (class_cache r); l = js_sort candidate_compare i; r = snd (generate_rules tw False l r)
      in case sheet_cache r of
           Some sh \<Rightarrow> if length (class_cache r) = old then Value (sh, r)
                     else js_bind (build_sheet (offs r) (rule_cache r)) (\<lambda>sh. Value (sh, r\<lparr>sheet_cache := Some sh\<rparr>))
         | None \<Rightarrow> js_bind (build_sheet (offs r) (rule_cache r)) (\<lambda>sh. Value (sh, r\<lparr>sheet_cache := Some sh\<rparr>)))"

text \<open>
  \<open>getClassOrder\<close> of the names \<open>d\<close>; \<open>c\<close> are the names of the dark mode, \<open>group\<close> and \<open>peer\<close>, with the
  prefix. The numbers go to the classes in the order of their first rules.
\<close>

fun number_classes :: "candidate option list \<Rightarrow> (candidate, int option) gomap \<Rightarrow> int \<Rightarrow> (candidate, int option) gomap" where
  "number_classes [] h v = h"
| "number_classes (w # b) h v =
     (case w of
        None \<Rightarrow> number_classes b h v
      | Some w \<Rightarrow>
         (case gm_get h w of
            Some (Some x) \<Rightarrow> number_classes b (gm_put w (Some x) h) v
          | _ \<Rightarrow> number_classes b (gm_put w (Some v) h) (v + 1)))"

definition index_in :: "'a \<Rightarrow> 'a list \<Rightarrow> int option" where
  "index_in y c = (if y \<in> set c then Some (int (length (takeWhile (\<lambda>x. x \<noteq> y) c))) else None)"

definition class_order :: "('s, 'a, 'n) tailwind \<Rightarrow> string list \<Rightarrow> string list \<Rightarrow> ('s, 'a, 'n) tw_context
    \<Rightarrow> (string \<times> int option) list \<times> ('s, 'a, 'n) tw_context" where
  "class_order tw c d e =
     (let p = js_sort candidate_compare (map Class d);
          h = fold (\<lambda>y. gm_put y None) p [];
          (b, e) = generate_rules tw True (fold set_add p []) e;
          h = number_classes (map (\<lambda>(_, y). made_for tw (css y)) (sort_rules (offs e) b)) h (int (length c))
      in (map (\<lambda>y. (y, case gm_get h (Class y) of Some (Some w) \<Rightarrow> Some w | _ \<Rightarrow> index_in y c)) d, e))"

section \<open>Once for every candidate\<close>

text \<open>A search leaves the caches alone.\<close>

definition searched :: "('s, 'a, 'n) tw_context \<Rightarrow> ('s, 'a, 'n) tw_context \<Rightarrow> bool" where
  "searched e e' \<longleftrightarrow> rule_cache e' = rule_cache e \<and> candidate_rules e' = candidate_rules e \<and> class_cache e' = class_cache e
     \<and> apply_cache e' = apply_cache e \<and> not_class e' = not_class e \<and> sheet_cache e' = sheet_cache e"

lemma run_search_searched: "run_search tw s e = (a, e') \<Longrightarrow> searched e e'"
  by (auto simp: run_search_def searched_def case_prod_unfold Let_def)

text \<open>What is decided about a candidate.\<close>

definition settled :: "('s, 'a, 'n) tw_context \<Rightarrow> candidate \<Rightarrow> ('a, 'n) rule list option" where
  "settled e s = (if s \<in> set (not_class e) then Some [] else gm_get (candidate_rules e) s)"

lemma gm_get_put_same: "gm_get (gm_put k v m) j = (if j = k then Some v else gm_get m j)"
  by (simp add: gm_get_def gm_put_def update_conv')

lemma generate_rule_cases:
  obtains (known) ps where "settled e s = Some ps" and "generate_rule tw t s e = (ps, e)"
  | (none) e' where "settled e s = None" and "searched e e'" and "run_search tw s e = ([], e')"
      and "generate_rule tw t s e = ([], e'\<lparr>not_class := set_add s (not_class e)\<rparr>)"
  | (some) a e' ps i where "settled e s = None" and "searched e e'" and "run_search tw s e = (a, e')" and "a \<noteq> []"
      and "make_rules tw t a (next_id e') = (ps, i)"
      and "generate_rule tw t s e = (ps, e'\<lparr>next_id := i, class_cache := gm_put s a (class_cache e),
          candidate_rules := gm_put s ps (candidate_rules e), rule_cache := rule_cache e @ ps\<rparr>)"
proof -
  obtain a e' where r: "run_search tw s e = (a, e')" by fastforce
  obtain ps i where m: "make_rules tw t a (next_id e') = (ps, i)" by fastforce
  show ?thesis
  proof (cases "settled e s")
    case (Some qs)
    then show ?thesis using known [of qs] by (auto simp: settled_def generate_rule_def split: if_splits)
  next
    case None
    then have "s \<notin> set (not_class e)" "gm_get (candidate_rules e) s = None" by (auto simp: settled_def split: if_splits)
    then have g: "generate_rule tw t s e = (if a = [] then ([], e'\<lparr>not_class := set_add s (not_class e')\<rparr>)
        else (ps, e'\<lparr>next_id := i, class_cache := gm_put s a (class_cache e'),
          candidate_rules := gm_put s ps (candidate_rules e'), rule_cache := rule_cache e' @ ps\<rparr>))"
      by (simp add: generate_rule_def r m)
    then show ?thesis
      using none [OF None run_search_searched [OF r]] some [OF None run_search_searched [OF r] r _ m] r
        run_search_searched [OF r] by (cases "a = []") (simp_all add: searched_def)
  qed
qed

lemma generate_rule_settled:
  assumes "generate_rule tw t s e = (ps, e')"
  shows "settled e' s = Some ps" and "settled e c = Some qs \<Longrightarrow> settled e' c = Some qs"
proof -
  show "settled e' s = Some ps"
    by (cases rule: generate_rule_cases [of e s tw t])
      (use assms in \<open>auto simp: settled_def searched_def gm_get_put_same split: if_splits\<close>)
  show "settled e' c = Some qs" if "settled e c = Some qs"
    by (cases rule: generate_rule_cases [of e s tw t])
      (use assms that in \<open>auto simp: settled_def searched_def gm_get_put_same split: if_splits\<close>)
qed

lemma generate_rules_settled:
  "generate_rules tw t r e = (ps, e') \<Longrightarrow> settled e c = Some qs \<Longrightarrow> settled e' c = Some qs"
proof (induction r arbitrary: e ps)
  case (Cons s r)
  obtain qs' e1 where g: "generate_rule tw t s e = (qs', e1)" by fastforce
  then obtain rs where "generate_rules tw t r e1 = (rs, e')" using Cons.prems(1) by (auto split: prod.splits)
  then show ?case using Cons.IH generate_rule_settled(2) [OF g Cons.prems(2)] by blast
qed simp

lemma generate_rules_result:
  "generate_rules tw t r e = (ps, e') \<Longrightarrow> ps = concat (map (\<lambda>s. the (settled e' s)) r) \<and> (\<forall>s\<in>set r. settled e' s \<noteq> None)"
proof (induction r arbitrary: e ps)
  case (Cons s r)
  obtain qs e1 where g: "generate_rule tw t s e = (qs, e1)" by fastforce
  obtain rs where r: "generate_rules tw t r e1 = (rs, e')" "ps = qs @ rs" using Cons.prems g by (auto split: prod.splits)
  have "settled e' s = Some qs" using generate_rules_settled [OF r(1)] generate_rule_settled(1) [OF g] by blast
  then show ?case using Cons.IH [OF r(1)] r(2) by simp
qed simp

lemma generate_rules_known: "\<forall>s\<in>set r. settled e s \<noteq> None \<Longrightarrow> generate_rules tw t r e = (concat (map (\<lambda>s. the (settled e s)) r), e)"
proof (induction r)
  case (Cons s r)
  then obtain ps where ps: "settled e s = Some ps" by auto
  then have "generate_rule tw t s e = (ps, e)" by (cases rule: generate_rule_cases [of e s tw t]) auto
  then show ?case using Cons ps by simp
qed simp

text \<open>C18. The rules of a candidate are searched once: whoever asks again, for some of the candidates, in any
  order and with or without copies, gets the rules of the first time, and nothing in the context changes.\<close>

theorem generated_once:
  assumes "generate_rules tw t r e = (ps, e')" and "set r' \<subseteq> set r"
  shows "\<exists>rules. ps = concat (map rules r) \<and> generate_rules tw t' r' e' = (concat (map rules r'), e')"
proof -
  have s: "ps = concat (map (\<lambda>s. the (settled e' s)) r)" "\<forall>s\<in>set r. settled e' s \<noteq> None"
    using generate_rules_result [OF assms(1)] by auto
  then have "generate_rules tw t' r' e' = (concat (map (\<lambda>s. the (settled e' s)) r'), e')"
    using assms(2) by (intro generate_rules_known) blast
  then show ?thesis using s(1) by blast
qed

section \<open>The style sheet and the caches\<close>

text \<open>What \<open>Yo\<close> guarantees of the nodes it returns: they are marked with the candidate (which is not the
  empty string), \<open>important\<close> keeps the mark, and no match belongs to the layer \<open>user\<close>.\<close>

definition marks :: "('s, 'a, 'n) tailwind \<Rightarrow> bool" where
  "marks tw \<longleftrightarrow> (\<forall>s w. \<forall>l\<in>set (fst (search tw s w)). made_for tw (css (found_node l)) = Some s \<and> layer (found_sort l) \<noteq> User)
     \<and> (\<forall>f n. important tw = Some f \<longrightarrow> made_for tw (f n) = made_for tw n)
     \<and> (\<forall>w. fst (search tw (Class []) w) = [])"

lemma make_rule_marked:
  assumes "marks tw" and "made_for tw (css (found_node l)) = Some s"
  shows "made_for tw (css (snd (fst (make_rule tw t l i)))) = Some s \<and> fst (fst (make_rule tw t l i)) = found_sort l"
  using assms by (auto simp: make_rule_def copy_node_def marks_def Let_def split: option.split)

lemma make_rules_marked:
  assumes "marks tw" and "\<forall>l\<in>set a. made_for tw (css (found_node l)) = Some s \<and> layer (found_sort l) \<noteq> User"
  shows "\<forall>(o', d)\<in>set (fst (make_rules tw t a i)). made_for tw (css d) = Some s \<and> layer o' \<noteq> User"
  using assms(2)
proof (induction a arbitrary: i)
  case (Cons l a)
  obtain p i1 where p: "make_rule tw t l i = (p, i1)" by fastforce
  obtain ps i2 where ps: "make_rules tw t a i1 = (ps, i2)" by fastforce
  have "\<forall>(o', d)\<in>set ps. made_for tw (css d) = Some s \<and> layer o' \<noteq> User"
    using Cons.IH [of i1] Cons.prems ps by simp
  then show ?case using make_rule_marked [OF assms(1), of l s t i] Cons.prems p ps by (cases p) auto
qed simp

text \<open>The caches agree with each other, and the kept style sheet is that of the rules.\<close>

definition caches_agree :: "('s, 'a, 'n) tailwind \<Rightarrow> ('s, 'a, 'n) tw_context \<Rightarrow> bool" where
  "caches_agree tw e \<longleftrightarrow> gm_ok (candidate_rules e) \<and> gm_ok (class_cache e)
     \<and> (\<forall>s. gm_get (candidate_rules e) s = None \<longleftrightarrow> gm_get (class_cache e) s = None)
     \<and> (\<forall>s ps. gm_get (candidate_rules e) s = Some ps \<longrightarrow> s \<notin> set (not_class e))
     \<and> (\<forall>s ps. gm_get (candidate_rules e) s = Some ps \<longrightarrow> (\<forall>p\<in>set ps. p \<in> set (rule_cache e) \<and> made_for tw (css (snd p)) = Some s))
     \<and> (\<forall>p\<in>set (rule_cache e). layer (fst p) \<noteq> User \<and>
          (\<exists>s ps. made_for tw (css (snd p)) = Some s \<and> gm_get (candidate_rules e) s = Some ps \<and> p \<in> set ps))
     \<and> gm_get (candidate_rules e) (Class []) = None"

lemma agree_known: "caches_agree tw e \<Longrightarrow> gm_get (candidate_rules e) s = None \<longleftrightarrow> gm_get (class_cache e) s = None"
  by (simp only: caches_agree_def)

lemma agree_rules:
  assumes "caches_agree tw e" and "gm_get (candidate_rules e) s = Some ps"
  shows "s \<notin> set (not_class e)" and "p \<in> set ps \<Longrightarrow> p \<in> set (rule_cache e) \<and> made_for tw (css (snd p)) = Some s"
  using assms unfolding caches_agree_def by blast+

lemma agree_cache:
  assumes "caches_agree tw e" and "p \<in> set (rule_cache e)"
  shows "layer (fst p) \<noteq> User \<and> (\<exists>s ps. made_for tw (css (snd p)) = Some s \<and> gm_get (candidate_rules e) s = Some ps \<and> p \<in> set ps)"
  using assms unfolding caches_agree_def by blast

definition sheet_of_rules :: "('s, 'a, 'n) tw_context \<Rightarrow> bool" where
  "sheet_of_rules e \<longleftrightarrow> (\<forall>sh. sheet_cache e = Some sh \<longrightarrow> (\<exists>os. build_sheet os (rule_cache e) = Value sh))"

lemma new_context_ok: "caches_agree tw (new_context p os bl) \<and> sheet_of_rules (new_context p os bl)"
  by (simp add: caches_agree_def sheet_of_rules_def new_context_def)

lemma searched_agree: "searched e e' \<Longrightarrow> caches_agree tw e' = caches_agree tw e \<and> sheet_of_rules e' = sheet_of_rules e"
  by (simp add: searched_def caches_agree_def sheet_of_rules_def)

lemma run_search_marked:
  assumes "marks tw" and "run_search tw s e = (a, e')"
  shows "(\<forall>l\<in>set a. made_for tw (css (found_node l)) = Some s \<and> layer (found_sort l) \<noteq> User) \<and> (a \<noteq> [] \<longrightarrow> s \<noteq> Class [])"
  using assms by (auto simp: marks_def run_search_def case_prod_unfold Let_def)

lemma generate_rule_agree:
  assumes "marks tw" and "caches_agree tw e" and "generate_rule tw t s e = (ps, e')"
  shows "caches_agree tw e'"
proof (cases rule: generate_rule_cases [of e s tw t])
  case (none e1)
  then have "e' = e1\<lparr>not_class := set_add s (not_class e)\<rparr>" using assms(3) by simp
  moreover have "gm_get (candidate_rules e) s = None" using none(1) by (simp add: settled_def split: if_splits)
  moreover have "c \<noteq> s" if "gm_get (candidate_rules e) c = Some qs" for c qs using that calculation(2) by auto
  ultimately show ?thesis using none(2) assms(2) unfolding caches_agree_def searched_def by simp
next
  case (some a e1 qs i)
  have e': "candidate_rules e' = gm_put s qs (candidate_rules e)" "class_cache e' = gm_put s a (class_cache e)"
      "rule_cache e' = rule_cache e @ qs" "not_class e' = not_class e"
    using some(2,6) assms(3) by (auto simp: searched_def)
  have new: "gm_get (candidate_rules e) s = None" "s \<notin> set (not_class e)" using some(1) by (auto simp: settled_def split: if_splits)
  have "\<forall>(o', d)\<in>set qs. made_for tw (css d) = Some s \<and> layer o' \<noteq> User" and "s \<noteq> Class []"
    using make_rules_marked [OF assms(1), of a s t "next_id e1"] run_search_marked [OF assms(1) some(3)] some(4,5) by auto
  then have qs: "\<forall>p\<in>set qs. made_for tw (css (snd p)) = Some s \<and> layer (fst p) \<noteq> User" "s \<noteq> Class []" by auto
  have rules: "gm_get (candidate_rules e') c = (if c = s then Some qs else gm_get (candidate_rules e) c)"
      "gm_get (class_cache e') c = (if c = s then Some a else gm_get (class_cache e) c)" for c
    by (simp_all add: e' gm_get_put_same)
  have "layer (fst p) \<noteq> User \<and> (\<exists>c ps. made_for tw (css (snd p)) = Some c \<and> gm_get (candidate_rules e') c = Some ps \<and> p \<in> set ps)"
    if p: "p \<in> set (rule_cache e')" for p
  proof (cases "p \<in> set qs")
    case True
    then show ?thesis using qs rules by auto
  next
    case False
    then obtain c ps where "layer (fst p) \<noteq> User" "made_for tw (css (snd p)) = Some c" "gm_get (candidate_rules e) c = Some ps" "p \<in> set ps"
      using agree_cache [OF assms(2), of p] p e'(3) by auto
    moreover from this have "c \<noteq> s" using new(1) by auto
    ultimately show ?thesis using rules by auto
  qed
  moreover have "p \<in> set (rule_cache e') \<and> made_for tw (css (snd p)) = Some c"
    if "gm_get (candidate_rules e') c = Some ps" "p \<in> set ps" for c ps p
    using that agree_rules(2) [OF assms(2), of c ps p] qs(1) by (auto simp: rules e'(3) split: if_splits)
  moreover have "c \<notin> set (not_class e')" if "gm_get (candidate_rules e') c = Some ps" for c ps
    using that agree_rules(1) [OF assms(2), of c ps] new(2) by (auto simp: rules e'(4) split: if_splits)
  moreover have "gm_ok (candidate_rules e')" "gm_ok (class_cache e')" "gm_get (candidate_rules e') (Class []) = None"
      "gm_get (candidate_rules e') c = None \<longleftrightarrow> gm_get (class_cache e') c = None" for c
    using assms(2) agree_known [OF assms(2), of c] qs(2) by (auto simp: rules e' caches_agree_def)
  ultimately show ?thesis unfolding caches_agree_def by blast
qed (use assms in simp)

lemma generate_rules_agree:
  "marks tw \<Longrightarrow> caches_agree tw e \<Longrightarrow> generate_rules tw t r e = (ps, e') \<Longrightarrow> caches_agree tw e'"
proof (induction r arbitrary: e ps)
  case (Cons s r)
  obtain qs e1 where g: "generate_rule tw t s e = (qs, e1)" by fastforce
  then obtain rs where "generate_rules tw t r e1 = (rs, e')" using Cons.prems(3) by (auto split: prod.splits)
  then show ?case using Cons.IH Cons.prems(1) generate_rule_agree [OF Cons.prems(1,2) g] by blast
qed simp

lemma generate_rules_sheet:
  assumes "generate_rules tw t r e = (ps, e')"
  shows "\<exists>new. rule_cache e' = rule_cache e @ new" and "sheet_cache e' = sheet_cache e"
    and "caches_agree tw e \<Longrightarrow> marks tw \<Longrightarrow> length (class_cache e') = length (class_cache e) \<Longrightarrow> rule_cache e' = rule_cache e"
proof -
  have one: "\<exists>new. rule_cache e' = rule_cache e @ new \<and> sheet_cache e' = sheet_cache e \<and>
      (caches_agree tw e \<longrightarrow> (if new = [] then length (class_cache e) \<le> length (class_cache e') else length (class_cache e) < length (class_cache e')))"
    if g: "generate_rule tw t s e = (ps, e')" for s e ps e'
  proof (cases rule: generate_rule_cases [of e s tw t])
    case (some a e1 qs i)
    have "gm_get (candidate_rules e) s = None" using some(1) by (simp add: settled_def split: if_splits)
    then have "gm_get (class_cache e) s = None" if "caches_agree tw e"
      using that by (simp add: agree_known)
    then have "length (gm_put s a (class_cache e)) = Suc (length (class_cache e))" if "caches_agree tw e"
      using that put_new [of s "class_cache e" a] by (auto simp: gm_get_def map_of_eq_None_iff)
    then show ?thesis using some(2,6) g by (auto simp: searched_def)
  qed (use g in \<open>auto simp: searched_def\<close>)
  have "\<exists>new. rule_cache e' = rule_cache e @ new \<and> sheet_cache e' = sheet_cache e \<and>
      (caches_agree tw e \<and> marks tw \<longrightarrow> (if new = [] then length (class_cache e) \<le> length (class_cache e') else length (class_cache e) < length (class_cache e')))"
    using assms
  proof (induction r arbitrary: e ps)
    case (Cons s r)
    obtain qs e1 where g: "generate_rule tw t s e = (qs, e1)" by fastforce
    then obtain rs where r: "generate_rules tw t r e1 = (rs, e')" using Cons.prems by (auto split: prod.splits)
    obtain n1 where n1: "rule_cache e1 = rule_cache e @ n1" "sheet_cache e1 = sheet_cache e"
        "caches_agree tw e \<longrightarrow> (if n1 = [] then length (class_cache e) \<le> length (class_cache e1) else length (class_cache e) < length (class_cache e1))"
      using one [OF g] by blast
    obtain n2 where n2: "rule_cache e' = rule_cache e1 @ n2" "sheet_cache e' = sheet_cache e1"
        "caches_agree tw e1 \<and> marks tw \<longrightarrow> (if n2 = [] then length (class_cache e1) \<le> length (class_cache e') else length (class_cache e1) < length (class_cache e'))"
      using Cons.IH [OF r] by blast
    have "caches_agree tw e \<and> marks tw \<longrightarrow> caches_agree tw e1" using generate_rule_agree [OF _ _ g] by blast
    then show ?case using n1 n2 by (intro exI [of _ "n1 @ n2"]) (auto split: if_splits)
  qed simp
  then obtain new where new: "rule_cache e' = rule_cache e @ new" "sheet_cache e' = sheet_cache e"
      "caches_agree tw e \<and> marks tw \<longrightarrow> (if new = [] then length (class_cache e) \<le> length (class_cache e') else length (class_cache e) < length (class_cache e'))"
    by blast
  then show "\<exists>new. rule_cache e' = rule_cache e @ new" "sheet_cache e' = sheet_cache e" by auto
  show "rule_cache e' = rule_cache e" if "caches_agree tw e" "marks tw" "length (class_cache e') = length (class_cache e)"
    using new that by (auto split: if_splits)
qed

lemma update_sheet_ok:
  assumes "marks tw" and "caches_agree tw e" and "sheet_of_rules e" and "update_sheet tw i e = Value (sh, e')"
  shows "caches_agree tw e' \<and> sheet_of_rules e' \<and> sheet_cache e' = Some sh \<and> (\<forall>s\<in>set i. settled e' s \<noteq> None)"
proof -
  obtain ps e1 where g: "generate_rules tw False (js_sort candidate_compare i) e = (ps, e1)" by fastforce
  have a: "caches_agree tw e1" using generate_rules_agree [OF assms(1,2) g] .
  have s: "\<forall>s\<in>set i. settled e1 s \<noteq> None" using generate_rules_result [OF g] by simp
  note sh = generate_rules_sheet [OF g]
  show ?thesis
  proof (cases "\<exists>sh0. sheet_cache e1 = Some sh0 \<and> length (class_cache e1) = length (class_cache e)")
    case True
    then obtain sh0 where "sheet_cache e1 = Some sh0" "length (class_cache e1) = length (class_cache e)" by blast
    then have "sh = sh0" "e' = e1" using assms(4) g by (auto simp: update_sheet_def Let_def)
    moreover have "sheet_of_rules e1"
      using assms(3) sh(2) sh(3) [OF assms(2,1)] \<open>length (class_cache e1) = length (class_cache e)\<close> by (simp add: sheet_of_rules_def)
    ultimately show ?thesis using a s \<open>sheet_cache e1 = Some sh0\<close> by simp
  next
    case False
    then have "js_bind (build_sheet (offs e1) (rule_cache e1)) (\<lambda>sh. Value (sh, e1\<lparr>sheet_cache := Some sh\<rparr>)) = Value (sh, e')"
      using assms(4) g by (auto simp: update_sheet_def Let_def split: option.splits if_splits)
    then have "build_sheet (offs e1) (rule_cache e1) = Value sh" "e' = e1\<lparr>sheet_cache := Some sh\<rparr>" by auto
    then show ?thesis using a s by (auto simp: caches_agree_def sheet_of_rules_def settled_def)
  qed
qed

text \<open>What the sets of \<open>T2\<close> hold.\<close>

lemma add_to_layers_sets:
  "add_to_layers t i = Value sh \<Longrightarrow> set (sh L) = set (i L) \<union> {d. \<exists>o'. (o', d) \<in> set t \<and> layer o' = L}"
  by (induction t i rule: add_to_layers.induct) (auto split: if_splits)

lemma add_to_layers_total: "\<forall>(o', d)\<in>set t. layer o' \<noteq> User \<Longrightarrow> \<exists>sh. add_to_layers t i = Value sh"
  by (induction t i rule: add_to_layers.induct) auto

lemma sort_rules_layers: "(\<exists>o'. (o', d) \<in> set (sort_rules os r) \<and> layer o' = L) \<longleftrightarrow> (\<exists>o'. (o', d) \<in> set r \<and> layer o' = L)"
proof -
  have "map (\<lambda>(o', d). (layer o', d)) (numbered_rules os r) = map (\<lambda>(o', d). (layer o', d)) r"
    by (simp add: numbered_rules_def sort_arbitrary_properties_def remap_arbitrary_variant_offsets_def Let_def case_prod_unfold)
  then have "set (map (\<lambda>(o', d). (layer o', d)) (sort_rules os r)) = set (map (\<lambda>(o', d). (layer o', d)) r)"
    by (simp add: sort_rules_def numbered_rules_def [symmetric]) (metis set_map)
  moreover have "(\<exists>o'. (o', d) \<in> set t \<and> layer o' = L) \<longleftrightarrow> (L, d) \<in> set (map (\<lambda>(o', d). (layer o', d)) t)" for t :: "('a offset \<times> 'b) list"
    by force
  ultimately show ?thesis by simp
qed

lemma build_sheet_sets: "build_sheet os r = Value sh \<Longrightarrow> d \<in> set (sh L) \<longleftrightarrow> (\<exists>o'. (o', d) \<in> set r \<and> layer o' = L)"
  by (simp add: build_sheet_def add_to_layers_sets sort_rules_layers)

lemma build_sheet_total: "\<forall>(o', d)\<in>set r. layer o' \<noteq> User \<Longrightarrow> \<exists>sh. build_sheet os r = Value sh"
  unfolding build_sheet_def by (rule add_to_layers_total) (use sort_rules_layers [of _ os r User] in fastforce)

text \<open>Taking a candidate out.\<close>

lemma mark_invalid_node_agree:
  assumes "caches_agree tw e"
  shows "caches_agree tw (mark_invalid_node tw d e) \<and> (sheet_of_rules e \<longrightarrow> sheet_of_rules (mark_invalid_node tw d e))"
proof (cases "made_for tw (css d)")
  case (Some t)
  have ok: "gm_ok (candidate_rules e)" "gm_ok (class_cache e)" using assms by (simp_all add: caches_agree_def)
  show ?thesis
  proof (cases "t = Class [] \<or> gm_get (class_cache e) t = None")
    case True
    moreover have "filter (\<lambda>(_, d). made_for tw (css d) \<noteq> Some t) (rule_cache e) = rule_cache e" if "t \<noteq> Class []"
    proof -
      have "gm_get (candidate_rules e) t = None" using True that assms by (simp add: agree_known)
      then have "made_for tw (css (snd p)) \<noteq> Some t" if "p \<in> set (rule_cache e)" for p
        using agree_cache [OF assms that] by auto
      then show ?thesis by (auto simp: filter_id_conv)
    qed
    ultimately have "mark_invalid_node tw d e = e" using Some by (auto simp: mark_invalid_node_def mark_invalid_candidate_def)
    then show ?thesis using assms by simp
  next
    case False
    then have "mark_invalid_node tw d e =
      e\<lparr>rule_cache := filter (\<lambda>(_, d). made_for tw (css d) \<noteq> Some t) (rule_cache e), not_class := set_add t (not_class e),
        class_cache := gm_del t (class_cache e), apply_cache := gm_del t (apply_cache e), plugins := forget tw t (plugins e),
        candidate_rules := gm_del t (candidate_rules e), sheet_cache := None\<rparr>"
      using Some by (auto simp: mark_invalid_node_def mark_invalid_candidate_def)
    then have e': "rule_cache (mark_invalid_node tw d e) = filter (\<lambda>(_, d). made_for tw (css d) \<noteq> Some t) (rule_cache e)"
        "not_class (mark_invalid_node tw d e) = set_add t (not_class e)" "class_cache (mark_invalid_node tw d e) = gm_del t (class_cache e)"
        "candidate_rules (mark_invalid_node tw d e) = gm_del t (candidate_rules e)" "sheet_cache (mark_invalid_node tw d e) = None"
      by simp_all
    have "gm_get (candidate_rules e) s = Some ps \<and> s \<noteq> t" if "gm_get (candidate_rules (mark_invalid_node tw d e)) s = Some ps" for s ps
      using that ok by (simp add: e' split: if_splits)
    moreover have "made_for tw (css (snd p)) \<noteq> Some t" if "gm_get (candidate_rules e) s = Some ps" "s \<noteq> t" "p \<in> set ps" for s ps p
      using agree_rules(2) [OF assms that(1,3)] that(2) by simp
    ultimately have rules: "s \<notin> set (not_class (mark_invalid_node tw d e)) \<and>
        (\<forall>p\<in>set ps. p \<in> set (rule_cache (mark_invalid_node tw d e)) \<and> made_for tw (css (snd p)) = Some s)"
      if "gm_get (candidate_rules (mark_invalid_node tw d e)) s = Some ps" for s ps
      using that agree_rules [OF assms, of s ps] unfolding e' by fastforce
    have cached: "layer (fst p) \<noteq> User \<and> (\<exists>s ps. made_for tw (css (snd p)) = Some s
        \<and> gm_get (candidate_rules (mark_invalid_node tw d e)) s = Some ps \<and> p \<in> set ps)"
      if "p \<in> set (rule_cache (mark_invalid_node tw d e))" for p
      using that agree_cache [OF assms, of p] ok unfolding e' by fastforce
    have "gm_ok (candidate_rules (mark_invalid_node tw d e))" "gm_ok (class_cache (mark_invalid_node tw d e))"
        "gm_get (candidate_rules (mark_invalid_node tw d e)) s = None \<longleftrightarrow> gm_get (class_cache (mark_invalid_node tw d e)) s = None" for s
      using ok agree_known [OF assms, of s] by (simp_all add: e')
    moreover have "gm_get (candidate_rules (mark_invalid_node tw d e)) (Class []) = None"
      using assms ok by (auto simp: e' caches_agree_def)
    ultimately show ?thesis unfolding caches_agree_def sheet_of_rules_def using rules cached e'(5) by auto
  qed
qed (use assms in \<open>simp add: mark_invalid_node_def\<close>)

lemma apply_candidate_keeps: "rule_cache (apply_candidate tw t e) = rule_cache e \<and> sheet_cache (apply_candidate tw t e) = sheet_cache e"
proof -
  obtain a e1 where r: "run_search tw t e = (a, e1)" by fastforce
  then show ?thesis
    using run_search_searched [OF r] by (auto simp: apply_candidate_def r searched_def split: option.split prod.split)
qed

lemma apply_candidate_agree:
  assumes "caches_agree tw e"
  shows "caches_agree tw (apply_candidate tw t e) \<and> (sheet_of_rules e \<longrightarrow> sheet_of_rules (apply_candidate tw t e))"
proof -
  obtain a e1 where r: "run_search tw t e = (a, e1)" by fastforce
  note s = run_search_searched [OF r]
  have 1: "caches_agree tw (e1\<lparr>not_class := set_add t (not_class e1)\<rparr>)" if "gm_get (class_cache e) t = None"
  proof -
    have "c \<noteq> t" if "gm_get (candidate_rules e) c = Some qs" for c qs
      using that \<open>gm_get (class_cache e) t = None\<close> agree_known [OF assms, of c] by auto
    then show ?thesis using s assms unfolding caches_agree_def searched_def by simp
  qed
  have 2: "caches_agree tw (e\<lparr>next_id := i, apply_cache := m\<rparr>) = caches_agree tw e" for i m
    by (simp add: caches_agree_def)
  have 3: "caches_agree tw (e1\<lparr>apply_cache := m\<rparr>) = caches_agree tw e" for m
    using s by (simp add: caches_agree_def searched_def)
  have "caches_agree tw (apply_candidate tw t e)"
  proof (cases "t \<in> set (not_class e) \<or> gm_get (apply_cache e) t \<noteq> None")
    case False
    then show ?thesis
      using 1 2 3 assms r s
      by (cases "gm_get (class_cache e) t")
        (auto simp: apply_candidate_def searched_def split: prod.split)
  qed (use assms in \<open>simp add: apply_candidate_def\<close>)
  then show ?thesis using apply_candidate_keeps [of tw t e] by (simp add: sheet_of_rules_def)
qed

section \<open>Every rule is shown\<close>

text \<open>A context between two style sheets: \<open>@apply\<close> and invalid nodes come in between, and what other parts
  do to the offsets.\<close>

inductive tw_reach :: "('s, 'a, 'n) tailwind \<Rightarrow> ('s, 'a, 'n) tw_context \<Rightarrow> bool" for tw where
  start: "tw_reach tw (new_context p os blocklist)"
| update: "tw_reach tw e \<Longrightarrow> update_sheet tw i e = Value (sh, e') \<Longrightarrow> tw_reach tw e'"
| apply_class: "tw_reach tw e \<Longrightarrow> tw_reach tw (apply_candidate tw t e)"
| invalid: "tw_reach tw e \<Longrightarrow> tw_reach tw (mark_invalid_node tw d e)"
| elsewhere: "tw_reach tw e \<Longrightarrow> tw_reach tw (e\<lparr>plugins := p, offs := os, next_id := n\<rparr>)"

lemma tw_reach_ok: "tw_reach tw e \<Longrightarrow> marks tw \<Longrightarrow> caches_agree tw e \<and> sheet_of_rules e"
proof (induction rule: tw_reach.induct)
  case (elsewhere e p os n)
  then show ?case by (simp add: caches_agree_def sheet_of_rules_def)
next
  case (update e i sh e')
  then show ?case using update_sheet_ok [OF update.prems _ _ update.hyps(2)] by simp
next
  case (apply_class e t)
  then show ?case using apply_candidate_agree by blast
next
  case (invalid e d)
  then show ?case using mark_invalid_node_agree by blast
qed (rule new_context_ok)

lemma update_sheet_total:
  assumes "marks tw" and "caches_agree tw e"
  shows "\<exists>sh e'. update_sheet tw i e = Value (sh, e')"
proof -
  obtain ps e1 where g: "generate_rules tw False (js_sort candidate_compare i) e = (ps, e1)" by fastforce
  have "\<forall>(o', d)\<in>set (rule_cache e1). layer o' \<noteq> User"
    using agree_cache [OF generate_rules_agree [OF assms g]] by fastforce
  then obtain sh where "build_sheet (offs e1) (rule_cache e1) = Value sh" using build_sheet_total by blast
  then show ?thesis using g by (auto simp: update_sheet_def Let_def split: option.split)
qed

text \<open>However the caches were filled, used and cleaned before, a new style sheet can be made; it has, layer
  by layer, exactly the rules in the cache, and every candidate that was asked for is either known to be
  no class or has all its rules in the sheet. (Skipping the building of the sheet when no class is new
  loses nothing.)\<close>

lemma sheet_rules_cached:
  assumes "marks tw" and "tw_reach tw e"
  shows "\<exists>sh e'. update_sheet tw i e = Value (sh, e')
    \<and> (\<forall>L d. d \<in> set (sh L) \<longleftrightarrow> (\<exists>o'. (o', d) \<in> set (rule_cache e') \<and> layer o' = L))
    \<and> (\<forall>c\<in>set i. c \<in> set (not_class e')
        \<or> (\<exists>ps. gm_get (candidate_rules e') c = Some ps \<and> (\<forall>(o', d)\<in>set ps. d \<in> set (sh (layer o')) \<and> made_for tw (css d) = Some c)))"
proof -
  have ok: "caches_agree tw e" "sheet_of_rules e" using tw_reach_ok [OF assms(2,1)] by auto
  obtain sh e' where u: "update_sheet tw i e = Value (sh, e')" using update_sheet_total [OF assms(1) ok(1)] by blast
  have e': "caches_agree tw e'" "sheet_of_rules e'" "sheet_cache e' = Some sh" "\<forall>s\<in>set i. settled e' s \<noteq> None"
    using update_sheet_ok [OF assms(1) ok u] by auto
  then obtain os where "build_sheet os (rule_cache e') = Value sh" by (auto simp: sheet_of_rules_def)
  note members = build_sheet_sets [OF this]
  have "c \<in> set (not_class e') \<or> (\<exists>ps. gm_get (candidate_rules e') c = Some ps \<and> (\<forall>(o', d)\<in>set ps. d \<in> set (sh (layer o')) \<and> made_for tw (css d) = Some c))"
    if c: "c \<in> set i" for c
  proof (cases "c \<in> set (not_class e')")
    case False
    then obtain ps where ps: "gm_get (candidate_rules e') c = Some ps" using e'(4) c by (auto simp: settled_def)
    then show ?thesis using agree_rules(2) [OF e'(1) ps] members by fastforce
  qed simp
  then show ?thesis using u members by blast
qed

section \<open>Invalid candidates\<close>

text \<open>A context after any use of it: style sheets, \<open>@apply\<close>, invalid nodes, \<open>getClassOrder\<close>, and what other
  parts do to the offsets.\<close>

inductive tw_later :: "('s, 'a, 'n) tailwind \<Rightarrow> ('s, 'a, 'n) tw_context \<Rightarrow> ('s, 'a, 'n) tw_context \<Rightarrow> bool" for tw e where
  now: "tw_later tw e e"
| update: "tw_later tw e e1 \<Longrightarrow> update_sheet tw i e1 = Value (sh, e2) \<Longrightarrow> tw_later tw e e2"
| apply_class: "tw_later tw e e1 \<Longrightarrow> tw_later tw e (apply_candidate tw t e1)"
| invalid: "tw_later tw e e1 \<Longrightarrow> tw_later tw e (mark_invalid_node tw d e1)"
| order: "tw_later tw e e1 \<Longrightarrow> tw_later tw e (snd (class_order tw c names e1))"
| elsewhere: "tw_later tw e e1 \<Longrightarrow> tw_later tw e (e1\<lparr>plugins := p, offs := os, next_id := n\<rparr>)"

text \<open>What is known to be no class stays so.\<close>

lemma generate_rules_not_class: "generate_rules tw t r e = (ps, e') \<Longrightarrow> set (not_class e) \<subseteq> set (not_class e')"
proof (induction r arbitrary: e ps)
  case (Cons s r)
  obtain qs e1 where g: "generate_rule tw t s e = (qs, e1)" by fastforce
  then obtain rs where "generate_rules tw t r e1 = (rs, e')" using Cons.prems by (auto split: prod.splits)
  moreover have "set (not_class e) \<subseteq> set (not_class e1)"
    by (cases rule: generate_rule_cases [of e s tw t]) (use g in \<open>auto simp: searched_def\<close>)
  ultimately show ?case using Cons.IH by blast
qed simp

lemma update_sheet_cases:
  assumes "update_sheet tw i e = Value (sh, e')"
  obtains e1 where "snd (generate_rules tw False (js_sort candidate_compare i) e) = e1"
      and "caches_agree tw e' = caches_agree tw e1" and "not_class e' = not_class e1" and "rule_cache e' = rule_cache e1"
      and "sheet_cache e' = Some sh" and "sheet_cache e1 = Some sh \<or> build_sheet (offs e1) (rule_cache e1) = Value sh"
proof -
  obtain ps e1 where g: "generate_rules tw False (js_sort candidate_compare i) e = (ps, e1)" by fastforce
  then have "(sheet_cache e1 = Some sh \<and> e' = e1) \<or> (build_sheet (offs e1) (rule_cache e1) = Value sh \<and> e' = e1\<lparr>sheet_cache := Some sh\<rparr>)"
    using assms generate_rules_sheet(2) [OF g] by (auto simp: update_sheet_def Let_def split: option.splits if_splits)
  then show ?thesis using that [of e1] g by (auto simp: caches_agree_def)
qed

text \<open>A candidate that is out: no class, and no node in the sheet that is kept.\<close>

definition is_out :: "('s, 'a, 'n) tailwind \<Rightarrow> candidate \<Rightarrow> ('s, 'a, 'n) tw_context \<Rightarrow> bool" where
  "is_out tw t e \<longleftrightarrow> t \<in> set (not_class e)
     \<and> (\<forall>sh L. sheet_cache e = Some sh \<longrightarrow> (\<forall>x\<in>set (sh L). made_for tw (css x) \<noteq> Some t))"

lemma rules_not_out:
  assumes "caches_agree tw e" and "t \<in> set (not_class e)" and "p \<in> set (rule_cache e)"
  shows "made_for tw (css (snd p)) \<noteq> Some t"
  using agree_cache [OF assms(1,3)] agree_rules(1) [OF assms(1)] assms(2) by fastforce

lemma generate_rules_out: "is_out tw t e \<Longrightarrow> is_out tw t (snd (generate_rules tw u r e))"
proof -
  obtain ps e' where g: "generate_rules tw u r e = (ps, e')" by fastforce
  show "is_out tw t e \<Longrightarrow> ?thesis" using generate_rules_not_class [OF g] generate_rules_sheet(2) [OF g] g by (auto simp: is_out_def)
qed

lemma update_sheet_out:
  assumes "marks tw" and "caches_agree tw e" and "is_out tw t e" and "update_sheet tw i e = Value (sh, e')"
  shows "caches_agree tw e' \<and> is_out tw t e' \<and> (\<forall>L. \<forall>x\<in>set (sh L). made_for tw (css x) \<noteq> Some t)"
proof -
  obtain e1 where e1: "snd (generate_rules tw False (js_sort candidate_compare i) e) = e1"
      "caches_agree tw e' = caches_agree tw e1" "not_class e' = not_class e1" "rule_cache e' = rule_cache e1"
      "sheet_cache e' = Some sh" "sheet_cache e1 = Some sh \<or> build_sheet (offs e1) (rule_cache e1) = Value sh"
    by (rule update_sheet_cases [OF assms(4)]) (rule that)
  have a: "caches_agree tw e1" using generate_rules_agree [OF assms(1,2)] e1(1) by (metis prod.collapse)
  have out: "is_out tw t e1" using generate_rules_out [OF assms(3)] e1(1) by blast
  have "made_for tw (css x) \<noteq> Some t" if "x \<in> set (sh L)" for L x
  proof (cases "sheet_cache e1 = Some sh")
    case True
    then show ?thesis using out that by (auto simp: is_out_def)
  next
    case False
    then have "\<exists>o'. (o', x) \<in> set (rule_cache e1)" using e1(6) build_sheet_sets [of "offs e1" "rule_cache e1" sh x L] that by blast
    then obtain o' where "(o', x) \<in> set (rule_cache e1)" ..
    then show ?thesis using rules_not_out [OF a, of t "(o', x)"] out by (simp add: is_out_def)
  qed
  then show ?thesis using a out e1(2,3,5) by (auto simp: is_out_def)
qed

lemma class_order_context: "\<exists>r. snd (class_order tw c names e) = snd (generate_rules tw True r e)"
  by (auto simp: class_order_def Let_def case_prod_unfold)

lemma apply_candidate_not_class: "set (not_class e) \<subseteq> set (not_class (apply_candidate tw t e))"
proof -
  obtain a e1 where r: "run_search tw t e = (a, e1)" by fastforce
  then show ?thesis
    using run_search_searched [OF r] by (auto simp: apply_candidate_def r searched_def split: option.split prod.split)
qed

lemma mark_invalid_node_out:
  "is_out tw t e \<Longrightarrow> is_out tw t (mark_invalid_node tw d e)"
  by (auto simp: is_out_def mark_invalid_node_def mark_invalid_candidate_def split: option.split)

lemma tw_later_agree:
  assumes "tw_later tw e0 e" and "marks tw" and "caches_agree tw e0"
  shows "caches_agree tw e \<and> (is_out tw t e0 \<longrightarrow> is_out tw t e)"
  using assms(1)
proof (induction rule: tw_later.induct)
  case (update e1 i sh e2)
  obtain e3 where "snd (generate_rules tw False (js_sort candidate_compare i) e1) = e3" "caches_agree tw e2 = caches_agree tw e3"
    by (rule update_sheet_cases [OF update.hyps(2)]) (rule that)
  then have "caches_agree tw e2" using generate_rules_agree [OF assms(2)] update.IH by (metis prod.collapse)
  then show ?case using update_sheet_out [OF assms(2) _ _ update.hyps(2)] update.IH by blast
next
  case (apply_class e1 s)
  then show ?case using apply_candidate_agree [of tw e1 s] apply_candidate_keeps [of tw s e1] apply_candidate_not_class [of e1 tw s]
    by (auto simp: is_out_def)
next
  case (invalid e1 d)
  then show ?case using mark_invalid_node_agree mark_invalid_node_out by blast
next
  case (order e1 c names)
  obtain r where "snd (class_order tw c names e1) = snd (generate_rules tw True r e1)" using class_order_context by blast
  then show ?case using order.IH generate_rules_out generate_rules_agree [OF assms(2)] by (metis prod.collapse)
next
  case (elsewhere e1 p os n)
  then show ?case by (simp add: caches_agree_def is_out_def)
qed (use assms(3) in simp)

text \<open>C19. A node that turned out to be invalid takes its candidate out for good: no style sheet that is made
  later has a node of that candidate, whatever is done with the context before and in between (style
  sheets, \<open>@apply\<close>, invalid nodes, \<open>getClassOrder\<close>). This is for a node whose candidate has its rules in the
  caches, and a search that marks every node with its candidate and puts none in the layer \<open>user\<close> (\<open>marks\<close>).\<close>

theorem invalid_stays_out:
  assumes "marks tw" and "tw_later tw (new_context p os blocklist) e" and "made_for tw (css d) = Some t"
    and "gm_get (class_cache e) t \<noteq> None" and "tw_later tw (mark_invalid_node tw d e) e1" and "update_sheet tw i e1 = Value (sh, e2)"
  shows "\<forall>L. \<forall>x\<in>set (sh L). made_for tw (css x) \<noteq> Some t"
proof -
  have ok: "caches_agree tw e" using tw_later_agree [OF assms(2,1)] new_context_ok [of tw p os blocklist] by blast
  have "t \<noteq> Class []" using assms(4) agree_known [OF ok, of t] ok by (auto simp: caches_agree_def)
  then have "is_out tw t (mark_invalid_node tw d e)"
    using assms(3,4) by (auto simp: is_out_def mark_invalid_node_def mark_invalid_candidate_def)
  moreover have "caches_agree tw (mark_invalid_node tw d e)" using mark_invalid_node_agree [OF ok] by blast
  ultimately have "caches_agree tw e1" "is_out tw t e1" using tw_later_agree [OF assms(5,1)] by blast+
  then show ?thesis using update_sheet_out [OF assms(1) _ _ assms(6)] by blast
qed

text \<open>What holds of every node that \<open>Yo\<close> returns, and is kept by \<open>important\<close>, holds of every rule.\<close>

definition all_found :: "('n \<Rightarrow> bool) \<Rightarrow> ('s, 'a, 'n) tailwind \<Rightarrow> bool" where
  "all_found P tw \<longleftrightarrow> (\<forall>s w. \<forall>l\<in>set (fst (search tw s w)). P (css (found_node l))) \<and> (\<forall>f n. important tw = Some f \<longrightarrow> P n \<longrightarrow> P (f n))"

lemma make_rules_found:
  "all_found P tw \<Longrightarrow> \<forall>l\<in>set a. P (css (found_node l)) \<Longrightarrow> \<forall>p\<in>set (fst (make_rules tw t a i)). P (css (snd p))"
proof (induction a arbitrary: i)
  case (Cons l a)
  obtain p i1 where p: "make_rule tw t l i = (p, i1)" by fastforce
  obtain ps i2 where ps: "make_rules tw t a i1 = (ps, i2)" by fastforce
  have "P (css (snd p))" using p Cons.prems by (auto simp: make_rule_def copy_node_def all_found_def Let_def split: option.splits if_splits)
  then show ?case using Cons.IH [of i1] Cons.prems p ps by simp
qed simp

lemma generate_rule_found:
  assumes "all_found P tw" and "\<forall>p\<in>set (rule_cache e). P (css (snd p))" and "generate_rule tw t s e = (ps, e')"
  shows "\<forall>p\<in>set (rule_cache e'). P (css (snd p))"
proof (cases rule: generate_rule_cases [of e s tw t])
  case (some a e1 qs i)
  have "\<forall>l\<in>set a. P (css (found_node l))"
    using assms(1) some(3) by (auto simp: all_found_def run_search_def case_prod_unfold Let_def)
  then have "\<forall>p\<in>set qs. P (css (snd p))" using make_rules_found [OF assms(1), of a t "next_id e1"] some(5) by simp
  then show ?thesis using some(6) assms(2,3) by auto
qed (use assms in \<open>auto simp: searched_def\<close>)

lemma generate_rules_found:
  "all_found P tw \<Longrightarrow> \<forall>p\<in>set (rule_cache e). P (css (snd p)) \<Longrightarrow> generate_rules tw t r e = (ps, e') \<Longrightarrow>
    \<forall>p\<in>set (rule_cache e'). P (css (snd p))"
proof (induction r arbitrary: e ps)
  case (Cons s r)
  obtain qs e1 where g: "generate_rule tw t s e = (qs, e1)" by fastforce
  then obtain rs where "generate_rules tw t r e1 = (rs, e')" using Cons.prems(3) by (auto split: prod.splits)
  then show ?case using Cons.IH [OF Cons.prems(1) generate_rule_found [OF Cons.prems(1,2) g]] by blast
qed simp

lemma update_sheet_rules:
  "update_sheet tw i e = Value (sh, e') \<Longrightarrow> rule_cache e' = rule_cache (snd (generate_rules tw False (js_sort candidate_compare i) e))"
  by (auto simp: update_sheet_def Let_def split: option.splits if_splits)

lemma tw_reach_found:
  "tw_reach tw e \<Longrightarrow> all_found P tw \<Longrightarrow> \<forall>p\<in>set (rule_cache e). P (css (snd p))"
proof (induction rule: tw_reach.induct)
  case (update e i sh e')
  obtain ps e1 where g: "generate_rules tw False (js_sort candidate_compare i) e = (ps, e1)" by fastforce
  then show ?case using generate_rules_found [OF update.prems _ g] update.IH [OF update.prems] update_sheet_rules [OF update.hyps(2)] by simp
next
  case (apply_class e t)
  then show ?case using apply_candidate_keeps [of tw t e] by simp
next
  case (invalid e d)
  have "set (rule_cache (mark_invalid_node tw d e)) \<subseteq> set (rule_cache e)"
    by (auto simp: mark_invalid_node_def mark_invalid_candidate_def split: option.split)
  then show ?case using invalid by blast
qed (simp_all add: new_context_def)

section \<open>A small configuration\<close>

text \<open>Every class of one letter is a utility; its node is the name of the class.\<close>

definition letters :: "(unit, unit, string) tailwind" where
  "letters = \<lparr>search = (\<lambda>s w. (case s of
       Class [c] \<Rightarrow> ([\<lparr>found_sort = fst (create_offset Utilities (offs w)), respect_important = True,
                          found_node = \<lparr>node_id = next_id w, css = [c]\<rparr>\<rparr>],
                     w\<lparr>offs := snd (create_offset Utilities (offs w) :: unit offset \<times> offsets), next_id := Suc (next_id w)\<rparr>)
     | _ \<Rightarrow> ([], w))),
     important = None, made_for = (\<lambda>n. Some (Class n)), forget = (\<lambda>_ p. p)\<rparr>"

definition letters_context :: "(unit, unit, string) tw_context" where
  "letters_context = new_context () new_offsets []"

lemma letters_marks: "marks letters"
proof -
  have "\<forall>l\<in>set (fst (search letters s w)). made_for letters (css (found_node l)) = Some s \<and> layer (found_sort l) \<noteq> User" for s w
    by (auto simp: letters_def create_offset_def split: candidate.split list.split)
  then show ?thesis by (auto simp: marks_def letters_def)
qed

lemma letters_reach: "tw_reach letters letters_context"
  unfolding letters_context_def by (rule tw_reach.start)

theorem generated_once_witness:
  "\<exists>rules. fst (generate_rules letters False [Class ''a'', Class ''xy'', Class ''b''] letters_context)
      = rules (Class ''a'') @ rules (Class ''xy'') @ rules (Class ''b'')
    \<and> generate_rules letters True [Class ''b'', Class ''xy'']
         (snd (generate_rules letters False [Class ''a'', Class ''xy'', Class ''b''] letters_context))
      = (rules (Class ''b'') @ rules (Class ''xy''),
         snd (generate_rules letters False [Class ''a'', Class ''xy'', Class ''b''] letters_context))"
  using generated_once [OF prod.collapse [symmetric], of "[Class ''b'', Class ''xy'']" "[Class ''a'', Class ''xy'', Class ''b'']"
      letters False letters_context True] by simp

theorem invalid_stays_out_witness:
  "case update_sheet letters [Class ''a''] letters_context of
     Value (_, e) \<Rightarrow> (case update_sheet letters [Class ''b''] (mark_invalid_node letters \<lparr>node_id = 0, css = ''a''\<rparr> e) of
       Value (_, e1) \<Rightarrow> (case update_sheet letters [Class ''a'', Class ''c''] (snd (class_order letters [] [''a''] e1)) of
         Value (sh, _) \<Rightarrow> (\<exists>x y. sh Utilities = [x, y] \<and> css x \<noteq> ''a'' \<and> css y \<noteq> ''a'') | Throw _ \<Rightarrow> False)
     | Throw _ \<Rightarrow> False)
   | Throw _ \<Rightarrow> False"
proof -
  have 1: "case update_sheet letters [Class ''a''] letters_context of
     Value (_, e) \<Rightarrow> gm_get (class_cache e) (Class ''a'') \<noteq> None \<and>
      (case update_sheet letters [Class ''b''] (mark_invalid_node letters \<lparr>node_id = 0, css = ''a''\<rparr> e) of
       Value (_, e1) \<Rightarrow> (case update_sheet letters [Class ''a'', Class ''c''] (snd (class_order letters [] [''a''] e1)) of
         Value (sh, _) \<Rightarrow> length (sh Utilities) = 2 | Throw _ \<Rightarrow> False)
     | Throw _ \<Rightarrow> False)
   | Throw _ \<Rightarrow> False"
    by code_simp
  obtain sh0 e where e: "update_sheet letters [Class ''a''] letters_context = Value (sh0, e)" using 1 by (auto split: js.splits)
  obtain sh1 e1 where e1: "update_sheet letters [Class ''b''] (mark_invalid_node letters \<lparr>node_id = 0, css = ''a''\<rparr> e) = Value (sh1, e1)"
    using 1 by (auto simp: e split: js.splits)
  obtain sh e2 where e2: "update_sheet letters [Class ''a'', Class ''c''] (snd (class_order letters [] [''a''] e1)) = Value (sh, e2)"
      "length (sh Utilities) = 2" "gm_get (class_cache e) (Class ''a'') \<noteq> None"
    using 1 by (auto simp: e e1 split: js.splits)
  have "tw_later letters letters_context e" using tw_later.update [OF tw_later.now e] .
  moreover have "tw_later letters (mark_invalid_node letters \<lparr>node_id = 0, css = ''a''\<rparr> e) (snd (class_order letters [] [''a''] e1))"
    by (rule tw_later.order [OF tw_later.update [OF tw_later.now e1]])
  ultimately have "\<forall>L. \<forall>x\<in>set (sh L). made_for letters (css x) \<noteq> Some (Class ''a'')"
    using invalid_stays_out [OF letters_marks _ _ e2(3) _ e2(1), of "()" new_offsets "[]" "\<lparr>node_id = 0, css = ''a''\<rparr>"]
    by (simp add: letters_context_def letters_def)
  then have "\<forall>x\<in>set (sh Utilities). css x \<noteq> ''a''" by (simp add: letters_def)
  moreover obtain x y where "sh Utilities = [x, y]" using e2(2) by (auto simp: length_Suc_conv numeral_2_eq_2)
  ultimately have "sh Utilities = [x, y] \<and> css x \<noteq> ''a'' \<and> css y \<noteq> ''a''" by simp
  then show ?thesis by (auto simp: e e1 e2(1))
qed

text \<open>
  A defect: \<open>getClassOrder\<close> generates rules without making a style sheet. The classes it was asked about
  are missing from the sheet until another new class appears.
\<close>

lemma class_order_hides_rules:
  "(case update_sheet letters [] letters_context of
      Value (_, e1) \<Rightarrow>
        (case update_sheet letters [Class ''a''] (snd (class_order letters [] [''a''] e1)) of
           Value (sh, e2) \<Rightarrow> sh Utilities = [] \<and> gm_get (candidate_rules e2) (Class ''a'') \<noteq> None
         | Throw _ \<Rightarrow> False)
    | Throw _ \<Rightarrow> False)"
  by code_simp

end
