(* ===== verification/Tailwind_Contexts.thy ===== *)
theory Tailwind_Contexts
  imports Js_Prelude Go_Map
begin

text \<open>
  Which compiler context a source uses, in \<open>webgui/tailwind.js\<close> (\<open>Vh\<close> with \<open>jh\<close>, \<open>cs\<close>, \<open>Ph\<close> and \<open>q_\<close>): a
  context is shared by the sources with the same configuration, made anew when a file it depends on has
  changed, and disposed of when no source is left. A context is an object, here a number; what \<open>il\<close>
  puts into it is the matter of \<open>Tailwind_Rules\<close>. \<open>il\<close> and \<open>decodeURIComponent\<close> may throw, so a call gives
  its result or what it throws, together with the state it leaves behind.
\<close>

section \<open>The maps\<close>

text \<open>
  \<open>hr\<close>, \<open>Pi\<close>, \<open>Dt\<close>, \<open>No\<close> and \<open>rl\<close>, and the counter \<open>Fv\<close> from which the bundle's \<open>statSync\<close> takes the time of a
  file. \<open>config_of\<close> records the configuration that a context was made for, and \<open>disposed\<close> the contexts whose
  \<open>disposables\<close> were called.
\<close>

type_synonym file_times = "(string, nat) gomap"

record contexts =
  context_map :: "(string, nat) gomap"
  config_map :: "(string, nat) gomap"
  source_map :: "(nat, string list) gomap"
  hash_map :: "(string, string) gomap"
  times_map :: "(nat, file_times) gomap"
  file_clock :: nat
  next_context :: nat
  config_of :: "nat \<Rightarrow> string"
  disposed :: "nat list"

definition no_contexts :: contexts where
  "no_contexts = \<lparr>context_map = [], config_map = [], source_map = [], hash_map = [], times_map = [], file_clock = 0,
     next_context = 0, config_of = (\<lambda>_. []), disposed = []\<rparr>"

section \<open>Changes\<close>

text \<open>
  When \<open>decodeURIComponent\<close> does not throw: every \<open>%\<close> begins two hexadecimal digits, and the bytes
  they stand for are the UTF-8 form of characters. \<open>tail_ranges\<close> gives the ranges of the bytes that follow a
  first byte from 128 on.
\<close>

definition hex_digit_value :: "char \<Rightarrow> nat option" where
  "hex_digit_value c =
     (let n = (of_char c :: nat)
      in if 48 \<le> n \<and> n \<le> 57 then Some (n - 48) else if 65 \<le> n \<and> n \<le> 70 then Some (n - 55)
         else if 97 \<le> n \<and> n \<le> 102 then Some (n - 87) else None)"

fun percent_byte :: "string \<Rightarrow> (nat \<times> string) option" where
  "percent_byte (p # x # y # s) =
     (case (hex_digit_value x, hex_digit_value y) of
        (Some h, Some l) \<Rightarrow> if p = CHR ''%'' then Some (16 * h + l, s) else None
      | _ \<Rightarrow> None)"
| "percent_byte _ = None"

definition tail_ranges :: "nat \<Rightarrow> (nat \<times> nat) list option" where
  "tail_ranges b =
     (if 194 \<le> b \<and> b \<le> 223 then Some [(128, 191)]
      else if b = 224 then Some [(160, 191), (128, 191)]
      else if b = 237 then Some [(128, 159), (128, 191)]
      else if 225 \<le> b \<and> b \<le> 239 then Some [(128, 191), (128, 191)]
      else if b = 240 then Some [(144, 191), (128, 191), (128, 191)]
      else if 241 \<le> b \<and> b \<le> 243 then Some [(128, 191), (128, 191), (128, 191)]
      else if b = 244 then Some [(128, 143), (128, 191), (128, 191)]
      else None)"

fun tail_bytes :: "(nat \<times> nat) list \<Rightarrow> string \<Rightarrow> string option" where
  "tail_bytes [] s = Some s"
| "tail_bytes ((l, u) # rs) s =
     (case percent_byte s of
        None \<Rightarrow> None
      | Some (b, s') \<Rightarrow> if l \<le> b \<and> b \<le> u then tail_bytes rs s' else None)"

lemma percent_byte_shorter: "percent_byte s = Some (b, s') \<Longrightarrow> length s' < length s"
  by (induction s rule: percent_byte.induct) (auto split: option.splits if_splits)

lemma tail_bytes_shorter: "tail_bytes rs s = Some s' \<Longrightarrow> length s' \<le> length s"
proof (induction rs s rule: tail_bytes.induct)
  case (2 l u rs s)
  then show ?case using percent_byte_shorter [of s] by (fastforce split: option.splits if_splits prod.splits)
qed simp

function decodes :: "string \<Rightarrow> bool" where
  "decodes [] = True"
| "decodes (c # s) =
     (if c \<noteq> CHR ''%'' then decodes s
      else (case percent_byte (c # s) of
         None \<Rightarrow> False
       | Some (b, s') \<Rightarrow>
           if b < 128 then decodes s'
           else (case tail_ranges b of
              None \<Rightarrow> False
            | Some rs \<Rightarrow> (case tail_bytes rs s' of None \<Rightarrow> False | Some s'' \<Rightarrow> decodes s''))))"
  by pat_completeness auto

termination
proof (relation "measure length", goal_cases)
  case (3 c s x b s')
  then show ?case using percent_byte_shorter [of "c # s" b s'] by simp
next
  case (4 c s x b s' rs s'')
  then show ?case using percent_byte_shorter [of "c # s" b s'] tail_bytes_shorter [of rs s' s''] by simp
qed simp_all

text \<open>
  \<open>jh\<close>: whether a file is newer than noted, and the times of the files. \<open>url.parse\<close> of the bundle gives the
  name itself as \<open>href\<close> and no hash or search, and its \<open>statSync\<close> gives every call the next number.
\<close>

fun file_scan :: "file_times \<Rightarrow> string list \<Rightarrow> bool \<Rightarrow> file_times \<Rightarrow> nat \<Rightarrow> (bool \<times> file_times) js \<times> nat" where
  "file_scan e [] t i fv = (Value (t, i), fv)"
| "file_scan e (n # ns) t i fv =
     (if n = [] then file_scan e ns t i fv
      else if \<not> decodes n then (Throw ''URIError'', fv)
      else if fv = 0 then file_scan e ns t i (Suc fv)
      else file_scan e ns (t \<or> (case gm_get e n of None \<Rightarrow> True | Some k \<Rightarrow> fv > k)) (gm_put n fv i) (Suc fv))"

definition file_modified_map :: "string list \<Rightarrow> file_times \<Rightarrow> contexts \<Rightarrow> (bool \<times> file_times) js \<times> contexts" where
  "file_modified_map r e s = (case file_scan e r False [] (file_clock s) of (x, fv) \<Rightarrow> (x, s\<lparr>file_clock := fv\<rparr>))"

text \<open>\<open>cs\<close>.\<close>

definition times_of :: "nat \<Rightarrow> contexts \<Rightarrow> file_times \<times> contexts" where
  "times_of r s =
     (case gm_get (times_map s) r of
        Some m \<Rightarrow> (m, s)
      | None \<Rightarrow> ([], s\<lparr>times_map := gm_put r [] (times_map s)\<rparr>))"

text \<open>\<open>q_\<close>: the bundle has an empty module for \<open>crypto\<close>, so \<open>createHash\<close> throws and the hash is empty; and
  \<open>Ph\<close>.\<close>

definition content_hash :: "string \<Rightarrow> string" where
  "content_hash r = []"

definition content_changed :: "string \<Rightarrow> string \<Rightarrow> contexts \<Rightarrow> bool \<times> contexts" where
  "content_changed r t s =
     (if \<not> str_contains t ''@tailwind'' then (False, s)
      else (gm_get (hash_map s) r \<noteq> Some (content_hash t), s\<lparr>hash_map := gm_put r (content_hash t) (hash_map s)\<rparr>))"

section \<open>The context of a source\<close>

text \<open>The existing context: that of the source if there is a configuration file, or that of the configuration.\<close>

definition existing_context :: "bool \<Rightarrow> string \<Rightarrow> string \<Rightarrow> contexts \<Rightarrow> (nat option \<times> contexts) js" where
  "existing_context o' a n s =
     (if o' \<and> gm_get (context_map s) a \<noteq> None then Value (gm_get (context_map s) a, s)
      else (case gm_get (config_map s) n of
         None \<Rightarrow> Value (None, s)
       | Some p \<Rightarrow>
          (case gm_get (source_map s) p of
             None \<Rightarrow> Throw ''TypeError''
           | Some as \<Rightarrow>
               Value (Some p, s\<lparr>source_map := gm_put p (set_add a as) (source_map s), context_map := gm_put a p (context_map s)\<rparr>))))"

text \<open>The existing context is kept if no file is newer and the text (\<open>c\<close>) has not changed.\<close>

definition kept_context :: "bool \<Rightarrow> nat option \<Rightarrow> string list \<Rightarrow> contexts \<Rightarrow> (nat \<times> file_times) option js \<times> contexts" where
  "kept_context c l d s =
     (case l of
        None \<Rightarrow> (Value None, s)
      | Some l \<Rightarrow>
         (let (e, s) = times_of l s
          in case file_modified_map d e s of
               (Throw x, s) \<Rightarrow> (Throw x, s)
             | (Value (p, h), s) \<Rightarrow> (Value (if \<not> p \<and> \<not> c then Some (l, h) else None), s)))"

text \<open>The source leaves its context, which is disposed of when it was the last one.\<close>

definition leave_context :: "string \<Rightarrow> contexts \<Rightarrow> contexts" where
  "leave_context a s =
     (case gm_get (context_map s) a of
        None \<Rightarrow> s
      | Some p \<Rightarrow>
         (case gm_get (source_map s) p of
            None \<Rightarrow> s
          | Some as \<Rightarrow>
              (let as = filter (\<lambda>b. b \<noteq> a) as
               in if as = [] then
                    s\<lparr>source_map := gm_del p (source_map s), config_map := filter (\<lambda>(h, b). b \<noteq> p) (config_map s),
                       disposed := p # disposed s\<rparr>
                  else s\<lparr>source_map := gm_put p as (source_map s)\<rparr>)))"

text \<open>The new context \<open>f\<close>, if \<open>il\<close> did not throw (\<open>built\<close>): the times of its files, and its place in the maps.\<close>

definition create_context :: "string \<Rightarrow> contexts \<Rightarrow> nat \<times> contexts" where
  "create_context n s =
     (let f = next_context s in (f, s\<lparr>next_context := Suc f, config_of := (config_of s)(f := n)\<rparr>))"

definition enter_context :: "string \<Rightarrow> string \<Rightarrow> nat \<Rightarrow> contexts \<Rightarrow> contexts" where
  "enter_context a n f s =
     s\<lparr>config_map := gm_put n f (config_map s), context_map := gm_put a f (context_map s),
       source_map := gm_put f (set_add a (case gm_get (source_map s) f of None \<Rightarrow> [] | Some as \<Rightarrow> as)) (source_map s)\<rparr>"

definition renew_context ::
  "unit js \<Rightarrow> string \<Rightarrow> string \<Rightarrow> string list \<Rightarrow> contexts \<Rightarrow> (nat \<times> bool \<times> file_times) js \<times> contexts" where
  "renew_context built a n d s =
     (let s = leave_context a s
      in case built of
           Throw x \<Rightarrow> (Throw x, s)
         | Value _ \<Rightarrow>
            (let (f, s) = create_context n s; (e, s) = times_of f s
             in case file_modified_map d e s of
                  (Throw x, s) \<Rightarrow> (Throw x, s)
                | (Value (p, h), s) \<Rightarrow> (Value (f, True, h), enter_context a n f s)))"

text \<open>
  \<open>Vh\<close>: of the source \<open>a\<close> with the text \<open>t\<close>, the configuration with the hash \<open>n\<close> (from a file if \<open>o'\<close>), and
  the files \<open>d\<close> it depends on; \<open>built\<close> is how \<open>il\<close> would end. The result is the context, whether it is new, and
  the times of the files.
\<close>

definition get_context ::
  "unit js \<Rightarrow> bool \<Rightarrow> string \<Rightarrow> string \<Rightarrow> string \<Rightarrow> string list \<Rightarrow> contexts \<Rightarrow> (nat \<times> bool \<times> file_times) js \<times> contexts" where
  "get_context built o' a t n d s =
     (case existing_context o' a n s of
        Throw x \<Rightarrow> (Throw x, s)
      | Value (l, s) \<Rightarrow>
         (let (c, s) = content_changed a t s
          in case kept_context c l d s of
               (Throw x, s) \<Rightarrow> (Throw x, s)
             | (Value (Some (l, h)), s) \<Rightarrow> (Value (l, False, h), s)
             | (Value None, s) \<Rightarrow> renew_context built a n d s))"

text \<open>What the caller \<open>El\<close> does with the times: they are noted at the context.\<close>

definition note_times :: "nat \<Rightarrow> file_times \<Rightarrow> contexts \<Rightarrow> contexts" where
  "note_times f d s =
     (let (p, s) = times_of f s in s\<lparr>times_map := gm_put f (fold (\<lambda>(b, v). gm_put b v) d p) (times_map s)\<rparr>)"

section \<open>The invariant\<close>

text \<open>
  Every source stands among the sources of its context, but for those in \<open>F\<close>, whose last call threw; every
  context of a configuration has sources and was made for it, contexts with sources were not disposed
  of, and numbers are not used twice.
\<close>

definition contexts_ok :: "string set \<Rightarrow> contexts \<Rightarrow> bool" where
  "contexts_ok F s \<longleftrightarrow> gm_ok (context_map s) \<and> gm_ok (config_map s) \<and> gm_ok (source_map s)
     \<and> (\<forall>a c. gm_get (context_map s) a = Some c \<longrightarrow> a \<notin> F \<longrightarrow> (\<exists>as. gm_get (source_map s) c = Some as \<and> a \<in> set as))
     \<and> (\<forall>n c. gm_get (config_map s) n = Some c \<longrightarrow> gm_get (source_map s) c \<noteq> None \<and> config_of s c = n)
     \<and> (\<forall>c as. gm_get (source_map s) c = Some as \<longrightarrow> c < next_context s \<and> c \<notin> set (disposed s))
     \<and> (\<forall>c\<in>set (disposed s). c < next_context s)"

lemma gm_get_filter_value:
  "gm_ok m \<Longrightarrow> gm_get (filter (\<lambda>(h, b). b \<noteq> p) m) n = (case gm_get m n of None \<Rightarrow> None | Some c \<Rightarrow> if c = p then None else Some c)"
  by (induction m) (auto simp: gm_get_def gm_ok_def map_of_eq_None_iff image_iff split: option.split)

lemma gm_ok_filter: "gm_ok m \<Longrightarrow> gm_ok (filter P m)"
  by (simp add: gm_ok_def distinct_map_filter)

lemma contexts_okD:
  assumes "contexts_ok F s"
  shows "gm_ok (context_map s)" and "gm_ok (config_map s)" and "gm_ok (source_map s)"
    and "gm_get (context_map s) a = Some c \<Longrightarrow> a \<notin> F \<Longrightarrow> \<exists>as. gm_get (source_map s) c = Some as \<and> a \<in> set as"
    and "gm_get (config_map s) n = Some c \<Longrightarrow> gm_get (source_map s) c \<noteq> None \<and> config_of s c = n"
    and "gm_get (source_map s) c = Some as \<Longrightarrow> c < next_context s \<and> c \<notin> set (disposed s)"
    and "c \<in> set (disposed s) \<Longrightarrow> c < next_context s"
  using assms unfolding contexts_ok_def by blast+

lemma contexts_okI:
  assumes "gm_ok (context_map s)" and "gm_ok (config_map s)" and "gm_ok (source_map s)"
    and "\<And>a c. gm_get (context_map s) a = Some c \<Longrightarrow> a \<notin> F \<Longrightarrow> \<exists>as. gm_get (source_map s) c = Some as \<and> a \<in> set as"
    and "\<And>n c. gm_get (config_map s) n = Some c \<Longrightarrow> gm_get (source_map s) c \<noteq> None \<and> config_of s c = n"
    and "\<And>c as. gm_get (source_map s) c = Some as \<Longrightarrow> c < next_context s \<and> c \<notin> set (disposed s)"
    and "\<And>c. c \<in> set (disposed s) \<Longrightarrow> c < next_context s"
  shows "contexts_ok F s"
  using assms unfolding contexts_ok_def by blast

lemma contexts_ok_mono: "contexts_ok F s \<Longrightarrow> F \<subseteq> G \<Longrightarrow> contexts_ok G s"
  unfolding contexts_ok_def by blast

text \<open>Only the other maps change.\<close>

definition same_contexts :: "contexts \<Rightarrow> contexts \<Rightarrow> bool" where
  "same_contexts s s' \<longleftrightarrow> context_map s' = context_map s \<and> config_map s' = config_map s \<and> source_map s' = source_map s
     \<and> next_context s' = next_context s \<and> config_of s' = config_of s \<and> disposed s' = disposed s"

lemma same_contexts_ok: "same_contexts s s' \<Longrightarrow> contexts_ok F s' = contexts_ok F s"
  by (simp add: same_contexts_def contexts_ok_def)

lemma times_of_same: "times_of r s = (m, s') \<Longrightarrow> same_contexts s s'"
  by (auto simp: times_of_def same_contexts_def split: option.splits)

lemma content_changed_same: "content_changed r t s = (b, s') \<Longrightarrow> same_contexts s s'"
  by (auto simp: content_changed_def same_contexts_def split: if_splits)

lemma file_modified_map_same: "file_modified_map r e s = (x, s') \<Longrightarrow> same_contexts s s'"
  by (auto simp: file_modified_map_def same_contexts_def split: prod.splits)

lemma file_scan_throw: "file_scan e ns t i fv = (Throw x, fv') \<Longrightarrow> x = ''URIError'' \<and> (\<exists>m\<in>set ns. \<not> decodes m)"
proof (induction ns arbitrary: t i fv)
  case (Cons n ns)
  show ?case
  proof (cases "n \<noteq> [] \<and> \<not> decodes n")
    case True
    then show ?thesis using Cons.prems by auto
  next
    case False
    then have "\<exists>t' i' fv2. file_scan e ns t' i' fv2 = (Throw x, fv')"
      using Cons.prems by (cases "n = []"; cases "fv = 0") auto
    then show ?thesis using Cons.IH by fastforce
  qed
qed simp

lemma file_modified_map_throw: "file_modified_map r e s = (Throw x, s') \<Longrightarrow> x = ''URIError'' \<and> (\<exists>m\<in>set r. \<not> decodes m)"
  by (auto simp: file_modified_map_def dest: file_scan_throw split: prod.splits)

lemma kept_context_same:
  assumes "kept_context c l d s = (x, s')"
  shows "same_contexts s s'" and "x = Value (Some (m, h)) \<Longrightarrow> l = Some m"
    and "x = Throw e \<Longrightarrow> e = ''URIError'' \<and> (\<exists>m\<in>set d. \<not> decodes m)"
proof -
  have "same_contexts s s' \<and> (\<forall>m h. x = Value (Some (m, h)) \<longrightarrow> l = Some m)
      \<and> (\<forall>e. x = Throw e \<longrightarrow> e = ''URIError'' \<and> (\<exists>m\<in>set d. \<not> decodes m))"
  proof (cases l)
    case (Some k)
    obtain e1 s1 where t: "times_of k s = (e1, s1)" by force
    obtain y s2 where f: "file_modified_map d e1 s1 = (y, s2)" by force
    have "same_contexts s s2" using times_of_same [OF t] file_modified_map_same [OF f] by (simp add: same_contexts_def)
    then show ?thesis using assms Some t f file_modified_map_throw [of d e1 s1] by (auto simp: kept_context_def split: js.splits if_splits)
  qed (use assms in \<open>auto simp: kept_context_def same_contexts_def\<close>)
  then show "same_contexts s s'" and "x = Value (Some (m, h)) \<Longrightarrow> l = Some m"
    and "x = Throw e \<Longrightarrow> e = ''URIError'' \<and> (\<exists>m\<in>set d. \<not> decodes m)" by blast+
qed

lemma existing_context_ok:
  assumes "contexts_ok F s"
  obtains l s' where "existing_context o' a n s = Value (l, s')" and "contexts_ok (if o' \<or> l = None then F else F - {a}) s'"
    and "\<And>c. l = Some c \<Longrightarrow> gm_get (context_map s') a = Some c \<and> (o' \<or> config_of s' c = n)"
    and "\<And>b. b \<noteq> a \<Longrightarrow> gm_get (context_map s') b = gm_get (context_map s) b"
proof (cases "o' \<and> gm_get (context_map s) a \<noteq> None")
  case True
  then have "existing_context o' a n s = Value (gm_get (context_map s) a, s)" by (simp add: existing_context_def)
  then show ?thesis using that [of "gm_get (context_map s) a" s] assms True by auto
next
  case False
  show ?thesis
  proof (cases "gm_get (config_map s) n")
    case None
    then have "existing_context o' a n s = Value (None, s)" using False by (auto simp: existing_context_def)
    then show ?thesis using that [of None s] assms by auto
  next
    case (Some p)
    note ok = contexts_okD [OF assms]
    obtain as where as: "gm_get (source_map s) p = Some as" "config_of s p = n" using ok(5) [OF Some] by blast
    define s' where "s' = s\<lparr>source_map := gm_put p (set_add a as) (source_map s), context_map := gm_put a p (context_map s)\<rparr>"
    have e: "existing_context o' a n s = Value (Some p, s')" using False Some as by (auto simp: existing_context_def s'_def)
    have maps: "gm_get (source_map s') c = (if c = p then Some (set_add a as) else gm_get (source_map s) c)"
        "gm_get (context_map s') b = (if b = a then Some p else gm_get (context_map s) b)" for c b
      using ok(1,3) by (simp_all add: s'_def)
    have "contexts_ok (F - {a}) s'"
    proof (rule contexts_okI)
      fix b c assume "gm_get (context_map s') b = Some c" "b \<notin> F - {a}"
      then show "\<exists>bs. gm_get (source_map s') c = Some bs \<and> b \<in> set bs"
        using ok(4) [of b c] as by (auto simp: maps split: if_splits)
    next
      fix m c assume "gm_get (config_map s') m = Some c"
      then show "gm_get (source_map s') c \<noteq> None \<and> config_of s' c = m"
        using ok(5) [of m c] unfolding maps by (auto simp: s'_def)
    next
      fix c bs assume "gm_get (source_map s') c = Some bs"
      then show "c < next_context s' \<and> c \<notin> set (disposed s')"
        using ok(6) [of c] as(1) unfolding maps by (auto simp: s'_def split: if_splits)
    qed (use ok(1,2,3,7) in \<open>simp_all add: s'_def\<close>)
    then have "contexts_ok (if o' \<or> Some p = None then F else F - {a}) s'" by (auto elim: contexts_ok_mono)
    then show ?thesis by (rule that [OF e]) (use as in \<open>auto simp: maps\<close>, simp add: s'_def)
  qed
qed

lemma leave_context_fields:
  "context_map (leave_context a s) = context_map s" "next_context (leave_context a s) = next_context s"
  "config_of (leave_context a s) = config_of s"
  by (auto simp: leave_context_def Let_def split: option.split)

lemma leave_context_ok:
  assumes "contexts_ok F s"
  shows "contexts_ok (insert a F) (leave_context a s)"
proof (rule contexts_okI)
  note ok = contexts_okD [OF assms]
  show "gm_ok (context_map (leave_context a s))" using ok(1) by (simp add: leave_context_fields)
  show "gm_ok (config_map (leave_context a s))" "gm_ok (source_map (leave_context a s))" using ok(2,3)
    by (auto simp: leave_context_def Let_def gm_ok_filter split: option.split)
  fix m c
  show "gm_get (source_map (leave_context a s)) c \<noteq> None \<and> config_of (leave_context a s) c = m"
    if "gm_get (config_map (leave_context a s)) m = Some c"
    using that ok(5) [of m c] ok(2,3) unfolding leave_context_fields
    by (auto simp: leave_context_def Let_def gm_get_filter_value split: option.splits if_splits)
  fix b
  show "\<exists>bs. gm_get (source_map (leave_context a s)) c = Some bs \<and> b \<in> set bs"
    if "gm_get (context_map (leave_context a s)) b = Some c" "b \<notin> insert a F"
    using that ok(4) [of b c] ok(3) unfolding leave_context_fields
    by (auto simp: leave_context_def Let_def filter_empty_conv split: option.split)
  fix as
  show "c < next_context (leave_context a s) \<and> c \<notin> set (disposed (leave_context a s))"
    if "gm_get (source_map (leave_context a s)) c = Some as"
    using that ok(6) [of c] ok(3) unfolding leave_context_fields by (auto simp: leave_context_def Let_def split: option.splits if_splits)
  show "c < next_context (leave_context a s)" if "c \<in> set (disposed (leave_context a s))"
    using that ok(6,7) unfolding leave_context_fields by (auto simp: leave_context_def Let_def split: option.splits if_splits)
qed

text \<open>A context that has been created and not been entered yet.\<close>

definition unused_context :: "nat \<Rightarrow> contexts \<Rightarrow> bool" where
  "unused_context f s \<longleftrightarrow> f < next_context s \<and> f \<notin> set (disposed s) \<and> gm_get (source_map s) f = None"

lemma create_context_ok:
  assumes "contexts_ok F s" and "create_context n s = (f, s')"
  shows "contexts_ok F s'" and "unused_context f s'" and "config_of s' f = n" and "context_map s' = context_map s"
proof -
  note ok = contexts_okD [OF assms(1)]
  have s': "f = next_context s" "s' = s\<lparr>next_context := Suc f, config_of := (config_of s)(f := n)\<rparr>"
    using assms(2) by (auto simp: create_context_def Let_def)
  have live: "c < f" if "gm_get (source_map s) c \<noteq> None" for c using that ok(6) [of c] s'(1) by auto
  have "gm_get (config_map s) m = Some c \<Longrightarrow> c \<noteq> f" for m c using ok(5) [of m c] live [of c] by auto
  then show "contexts_ok F s'" using ok(1-3,7) ok(4-6) unfolding s' by (intro contexts_okI) (auto intro: less_SucI)
  show "unused_context f s'" using live [of f] ok(7) [of f] unfolding s' by (cases "gm_get (source_map s) (next_context s)") (auto simp: unused_context_def)
  show "config_of s' f = n" and "context_map s' = context_map s" by (simp_all add: s')
qed

lemma unused_context_same: "same_contexts s s' \<Longrightarrow> unused_context f s' = unused_context f s"
  by (simp add: same_contexts_def unused_context_def)

lemma enter_context_ok:
  assumes "contexts_ok F s" and "unused_context f s" and "config_of s f = n"
  shows "contexts_ok (F - {a}) (enter_context a n f s)" and "gm_get (context_map (enter_context a n f s)) a = Some f"
    and "config_of (enter_context a n f s) f = n"
    and "b \<noteq> a \<Longrightarrow> gm_get (context_map (enter_context a n f s)) b = gm_get (context_map s) b"
proof -
  note ok = contexts_okD [OF assms(1)]
  have un: "gm_get (source_map s) f = None" "f < next_context s" "f \<notin> set (disposed s)" using assms(2) by (auto simp: unused_context_def)
  have maps: "gm_get (source_map (enter_context a n f s)) c = (if c = f then Some [a] else gm_get (source_map s) c)"
      "gm_get (context_map (enter_context a n f s)) b = (if b = a then Some f else gm_get (context_map s) b)"
      "gm_get (config_map (enter_context a n f s)) m = (if m = n then Some f else gm_get (config_map s) m)" for c b m
    using ok(1-3) un(1) by (simp_all add: enter_context_def set_add_def)
  show "gm_get (context_map (enter_context a n f s)) a = Some f" and "config_of (enter_context a n f s) f = n"
    and "b \<noteq> a \<Longrightarrow> gm_get (context_map (enter_context a n f s)) b = gm_get (context_map s) b"
    using assms(3) by (simp_all add: maps) (simp add: enter_context_def)
  have same: "next_context (enter_context a n f s) = next_context s" "config_of (enter_context a n f s) = config_of s"
      "disposed (enter_context a n f s) = disposed s" by (simp_all add: enter_context_def)
  show "contexts_ok (F - {a}) (enter_context a n f s)"
  proof (rule contexts_okI)
    fix b c assume "gm_get (context_map (enter_context a n f s)) b = Some c" "b \<notin> F - {a}"
    then show "\<exists>bs. gm_get (source_map (enter_context a n f s)) c = Some bs \<and> b \<in> set bs"
      using ok(4) [of b c] un(1) unfolding maps by (auto split: if_splits)
  next
    fix m c assume "gm_get (config_map (enter_context a n f s)) m = Some c"
    then show "gm_get (source_map (enter_context a n f s)) c \<noteq> None \<and> config_of (enter_context a n f s) c = m"
      using ok(5) [of m c] assms(3) un(1) unfolding maps same by (auto split: if_splits)
  next
    fix c bs assume "gm_get (source_map (enter_context a n f s)) c = Some bs"
    then show "c < next_context (enter_context a n f s) \<and> c \<notin> set (disposed (enter_context a n f s))"
      using ok(6) [of c] un unfolding maps same by (auto split: if_splits)
  qed (use ok(1,2,3,7) in \<open>simp_all add: enter_context_def\<close>)
qed

section \<open>No context in use is lost\<close>

text \<open>The sources whose registration may be out of date after a call for the source \<open>a\<close> with the result \<open>r\<close>.\<close>

definition stranded :: "bool \<Rightarrow> string \<Rightarrow> (nat \<times> bool \<times> file_times) js \<Rightarrow> string set \<Rightarrow> string set" where
  "stranded o' a r F =
     (case r of Throw _ \<Rightarrow> insert a F | Value (c, fresh, h) \<Rightarrow> if fresh \<or> \<not> o' then F - {a} else F)"

inductive contexts_reach :: "contexts \<Rightarrow> string set \<Rightarrow> bool" where
  start: "contexts_reach no_contexts {}"
| get: "contexts_reach s F \<Longrightarrow> get_context built o' a t n d s = (r, s') \<Longrightarrow> contexts_reach s' (stranded o' a r F)"
| noted: "contexts_reach s F \<Longrightarrow> contexts_reach (note_times f d s) F"
| other_files: "contexts_reach s F \<Longrightarrow> contexts_reach (s\<lparr>file_clock := file_clock s + k\<rparr>) F"

lemma renew_context_step:
  assumes "contexts_ok F s" and "renew_context built a n d s = (r, s')"
  shows "contexts_ok (stranded o' a r F) s' \<and> (\<forall>b. b \<noteq> a \<longrightarrow> gm_get (context_map s') b = gm_get (context_map s) b)
    \<and> (case r of
         Value (c, fresh, h) \<Rightarrow> fresh \<and> gm_get (context_map s') a = Some c \<and> config_of s' c = n
       | Throw e \<Rightarrow> built = Throw e \<or> e = ''URIError'' \<and> (\<exists>m\<in>set d. \<not> decodes m))"
proof -
  have left: "contexts_ok (insert a F) (leave_context a s)" by (rule leave_context_ok [OF assms(1)])
  show ?thesis
  proof (cases built)
    case (Throw x)
    then have "r = Throw x" "s' = leave_context a s" using assms(2) by (simp_all add: renew_context_def)
    then show ?thesis using left Throw by (simp add: stranded_def leave_context_fields)
  next
    case (Value u)
    obtain f s1 where f: "create_context n (leave_context a s) = (f, s1)" by force
    obtain e s2 where t: "times_of f s1 = (e, s2)" by force
    obtain y s3 where m: "file_modified_map d e s2 = (y, s3)" by force
    note new = create_context_ok [OF left f]
    have same: "same_contexts s1 s3" using times_of_same [OF t] file_modified_map_same [OF m] by (simp add: same_contexts_def)
    then have s3: "contexts_ok (insert a F) s3" "unused_context f s3" using new(1,2) same_contexts_ok unused_context_same by blast+
    have s3': "config_of s3 f = n" "context_map s3 = context_map s" using same new(3,4) by (simp_all add: same_contexts_def leave_context_fields)
    show ?thesis
    proof (cases y)
      case (Throw x)
      then have "r = Throw x" "s' = s3" using assms(2) Value f t m by (simp_all add: renew_context_def)
      then show ?thesis using s3(1) s3'(2) file_modified_map_throw [of d e s2 x] m Throw by (simp add: stranded_def)
    next
      case (Value ph)
      then have "r = Value (f, True, snd ph)" "s' = enter_context a n f s3"
        using assms(2) \<open>built = Value u\<close> f t m by (simp_all add: renew_context_def split: prod.splits)
      then show ?thesis using enter_context_ok [OF s3 s3'(1), where a = a] s3'(2) by (auto simp: stranded_def)
    qed
  qed
qed

lemma get_context_step:
  assumes "contexts_ok F s" and "get_context built o' a t n d s = (r, s')"
  shows "contexts_ok (stranded o' a r F) s' \<and> (\<forall>b. b \<noteq> a \<longrightarrow> gm_get (context_map s') b = gm_get (context_map s) b)
    \<and> (case r of
         Value (c, fresh, h) \<Rightarrow> gm_get (context_map s') a = Some c \<and> (fresh \<or> \<not> o' \<longrightarrow> config_of s' c = n)
       | Throw e \<Rightarrow> built = Throw e \<or> e = ''URIError'' \<and> (\<exists>m\<in>set d. \<not> decodes m))"
proof -
  obtain l s1 where e: "existing_context o' a n s = Value (l, s1)" "contexts_ok (if o' \<or> l = None then F else F - {a}) s1"
      and l: "\<And>c. l = Some c \<Longrightarrow> gm_get (context_map s1) a = Some c \<and> (o' \<or> config_of s1 c = n)"
      and b: "\<And>b. b \<noteq> a \<Longrightarrow> gm_get (context_map s1) b = gm_get (context_map s) b"
    by (rule existing_context_ok [OF assms(1), of o' a n]) (rule that)
  obtain c s2 where c: "content_changed a t s1 = (c, s2)" by force
  obtain x s3 where k: "kept_context c l d s2 = (x, s3)" by force
  have same: "same_contexts s1 s3" using content_changed_same [OF c] kept_context_same(1) [OF k] by (simp add: same_contexts_def)
  then have ok: "contexts_ok (if o' \<or> l = None then F else F - {a}) s3" and s3: "context_map s3 = context_map s1" "config_of s3 = config_of s1"
    using e(2) same_contexts_ok [OF same] same by (simp_all add: same_contexts_def)
  have F: "contexts_ok F s3" by (rule contexts_ok_mono [OF ok]) auto
  consider (threw) z where "x = Throw z" | (kept) m h where "x = Value (Some (m, h))" | (renewed) "x = Value None"
    by (metis js.exhaust not_None_eq prod.exhaust)
  then show ?thesis
  proof cases
    case threw
    then have "r = Throw z" "s' = s3" using assms(2) e(1) c k by (simp_all add: get_context_def)
    moreover have "contexts_ok (insert a F) s3" by (rule contexts_ok_mono [OF F]) auto
    ultimately show ?thesis using kept_context_same(3) [OF k threw] s3 b by (simp add: stranded_def)
  next
    case kept
    then have "r = Value (m, False, h)" "s' = s3" using assms(2) e(1) c k by (simp_all add: get_context_def)
    moreover have "l = Some m" by (rule kept_context_same(2) [OF k kept])
    ultimately show ?thesis using ok l s3 b by (auto simp: stranded_def)
  next
    case renewed
    then have "renew_context built a n d s3 = (r, s')" using assms(2) e(1) c k by (simp add: get_context_def)
    from renew_context_step [OF F this, of o'] show ?thesis using s3 b by (auto split: js.splits)
  qed
qed

lemma note_times_ok: "contexts_ok F (note_times f d s) = contexts_ok F s"
  by (auto simp: note_times_def contexts_ok_def times_of_def split: option.split prod.split)

lemma contexts_reach_ok: "contexts_reach s F \<Longrightarrow> contexts_ok F s"
proof (induction rule: contexts_reach.induct)
  case (get s F built o' a t n d r s')
  then show ?case using get_context_step [OF get.IH] by blast
qed (simp_all add: note_times_ok, simp_all add: contexts_ok_def no_contexts_def)

text \<open>C21. Finding the context of a source throws only what building the context (\<open>il\<close>) throws, or \<open>URIError\<close> because the
  name of a file it depends on cannot be decoded. Otherwise the context it gives is the one the source is
  registered with from then on; if it is new, it was made for the configuration asked for, and so it is
  if the configuration does not come from a file. Every other source keeps the context it had. And
  whatever happened before, calls that threw included, no source is registered with a context that has
  been disposed of, except that one whose call threw may be, until it is given a new context or the
  configuration does not come from a file.\<close>

theorem context_in_use_kept:
  assumes "contexts_reach s F" and "get_context built o' a t n d s = (r, s')"
  shows "(case r of
         Value (c, fresh, h) \<Rightarrow> gm_get (context_map s') a = Some c \<and> (fresh \<or> \<not> o' \<longrightarrow> config_of s' c = n)
       | Throw e \<Rightarrow> built = Throw e \<or> e = ''URIError'' \<and> (\<exists>m\<in>set d. \<not> decodes m))
    \<and> (\<forall>b. b \<noteq> a \<longrightarrow> gm_get (context_map s') b = gm_get (context_map s) b)
    \<and> (\<forall>b c. gm_get (context_map s') b = Some c \<and> b \<notin> stranded o' a r F \<longrightarrow> c \<notin> set (disposed s'))"
proof -
  note step = get_context_step [OF contexts_reach_ok [OF assms(1)] assms(2)]
  have "e \<notin> set (disposed s')" if "gm_get (context_map s') b = Some e" "b \<notin> stranded o' a r F" for b e
    using contexts_okD(4) [of "stranded o' a r F" s'] contexts_okD(6) [of "stranded o' a r F" s'] step that by blast
  then show ?thesis using step by blast
qed

lemmas contexts_eval =
  get_context_def existing_context_def content_changed_def kept_context_def renew_context_def times_of_def file_modified_map_def
  create_context_def enter_context_def leave_context_def no_contexts_def set_add_def gm_put_def gm_get_def gm_del_def
  str_contains_def Let_def

theorem context_in_use_kept_witness:
  "\<exists>s1 s2. get_context (Value ()) False ''a.css'' [] ''1'' [] no_contexts = (Value (0, True, []), s1)
     \<and> get_context (Value ()) False ''a.css'' [] ''2'' [] s1 = (Value (1, True, []), s2) \<and> config_of s2 1 = ''2'' \<and> 1 \<notin> set (disposed s2)"
proof -
  define s1 where "s1 = snd (get_context (Value ()) False ''a.css'' [] ''1'' [] no_contexts)"
  define s2 where "s2 = snd (get_context (Value ()) False ''a.css'' [] ''2'' [] s1)"
  have 1: "get_context (Value ()) False ''a.css'' [] ''1'' [] no_contexts = (Value (0, True, []), s1)"
    by (simp add: s1_def contexts_eval)
  have 2: "get_context (Value ()) False ''a.css'' [] ''2'' [] s1 = (Value (1, True, []), s2)"
    by (simp add: s2_def) (simp add: s1_def contexts_eval)
  have "contexts_reach s1 {}" using contexts_reach.get [OF contexts_reach.start 1] by (simp add: stranded_def)
  from context_in_use_kept [OF this 2] have "config_of s2 1 = ''2'' \<and> 1 \<notin> set (disposed s2)" by (auto simp: stranded_def)
  then show ?thesis using 1 2 by blast
qed

text \<open>
  Defects. A source that goes back to a configuration another source still uses is not taken from the
  sources of the context it leaves: that context has no source any more and is never disposed of.
\<close>

lemma abandoned_context_kept:
  "case get_context (Value ()) False ''a.css'' [] ''1'' [] no_contexts of (_, s1) \<Rightarrow>
    (case get_context (Value ()) False ''b.css'' [] ''1'' [] s1 of (_, s2) \<Rightarrow>
    (case get_context (Value ()) False ''a.css'' [] ''2'' [] s2 of (_, s3) \<Rightarrow>
    (case get_context (Value ()) False ''a.css'' [] ''1'' [] s3 of (_, s4) \<Rightarrow>
      map snd (context_map s4) = [0, 0] \<and> gm_get (source_map s4) 1 = Some [''a.css''] \<and> disposed s4 = [])))"
  by (simp add: contexts_eval)

text \<open>
  And a context is disposed of before its successor is built. If that fails, the source stays registered
  with the disposed context, which a later call with a configuration from a file is given.
\<close>

lemma disposed_context_given:
  "case get_context (Value ()) True ''a.css'' [] ''1'' [] no_contexts of (_, s1) \<Rightarrow>
    (case get_context (Throw ''TypeError'') True ''a.css'' ''@tailwind base'' ''1'' [] s1 of (r2, s2) \<Rightarrow>
    (case get_context (Value ()) True ''a.css'' ''@tailwind base'' ''1'' [] s2 of (r3, s3) \<Rightarrow>
      r2 = Throw ''TypeError'' \<and> r3 = Value (0, False, []) \<and> disposed s3 = [0]))"
  by (simp add: contexts_eval)

lemma malformed_name_not_decoded: "decodes ''a%20b.css'' \<and> decodes ''%C3%A4'' \<and> \<not> decodes ''100%.css'' \<and> \<not> decodes ''%E4.css''"
  by (simp add: hex_digit_value_def tail_ranges_def)

end
