(* ===== verification/Tailwind_Expand.thy ===== *)
theory Tailwind_Expand
  imports Tailwind_Rules
begin

text \<open>
  From a style sheet with \<open>@tailwind\<close> directives to one with rules, in \<open>webgui/tailwind.js\<close>: \<open>Ol\<close> brings
  the directives into one form and reports layers without a directive; \<open>Pl\<close> collects the candidates of
  the content, has their rules made and puts the layers in the places of the directives (\<open>Qt\<close> copies
  the rules). A sheet is a forest of items. The blanks that PostCSS gives a node when it is inserted are
  not modelled.
\<close>

section \<open>Items\<close>

text \<open>What Tailwind notes in \<open>raws\<close> of a node.\<close>

record item_raws =
  raw_layer :: "layer option"
  raw_parent :: "layer option"
  raw_candidate :: "candidate option"
  raw_preserve :: bool

text \<open>A node: its identity, name and parameters if it is an at-rule, the notes, its source, the rest of
  its data, and its nodes.\<close>

datatype 'd item =
  Item (iid: nat) (at: "(string \<times> string) option") (raws: item_raws) (source: "nat option") (data: 'd) (kids: "'d item list")

text \<open>\<open>walk\<close>, in the order of the text.\<close>

fun walks :: "'d item list \<Rightarrow> 'd item list" where
  "walks [] = []"
| "walks (Item i a r s d ks # rest) = Item i a r s d ks # walks ks @ walks rest"

fun edit_items :: "('d item \<Rightarrow> 'd item) \<Rightarrow> 'd item list \<Rightarrow> 'd item list" where
  "edit_items f [] = []"
| "edit_items f (Item i a r s d ks # rest) =
     (case f (Item i a r s d ks) of Item i a r s d _ \<Rightarrow> Item i a r s d (edit_items f ks)) # edit_items f rest"


section \<open>The directives\<close>

text \<open>\<open>Ol\<close>: what it makes of an at-rule, and what it collects.\<close>

definition quoted_import :: "string \<Rightarrow> string \<Rightarrow> bool" where
  "quoted_import p n \<longleftrightarrow> p = CHR 0x22 # ''tailwindcss/'' @ n @ [CHR 0x22] \<or> p = CHR 0x27 # ''tailwindcss/'' @ n @ [CHR 0x27]"

definition normal_at :: "string \<times> string \<Rightarrow> string \<times> string" where
  "normal_at = (\<lambda>(name, p).
     let (name, p) =
           (if name = ''import'' then
              if quoted_import p ''base'' then (''tailwind'', ''base'')
              else if quoted_import p ''components'' then (''tailwind'', ''components'')
              else if quoted_import p ''utilities'' then (''tailwind'', ''utilities'')
              else if quoted_import p ''screens'' \<or> quoted_import p ''variants'' then (''tailwind'', ''variants'')
              else (name, p)
            else (name, p))
     in if name = ''tailwind'' \<and> p = ''screens'' then (name, ''variants'') else (name, p))"

definition normal_item :: "'d item \<Rightarrow> 'd item" where
  "normal_item x = (case x of Item i a r s d ks \<Rightarrow> Item i (map_option normal_at a) r s d ks)"

definition directives :: "'d item list \<Rightarrow> string list" where
  "directives ks = fold set_add [p. Some (name, p) \<leftarrow> map at (walks ks), name = ''tailwind''] []"

definition apply_rules :: "'d item list \<Rightarrow> 'd item list" where
  "apply_rules ks = filter (\<lambda>x. \<exists>p. at x = Some (''apply'', p)) (walks ks)"

definition layer_rules :: "'d item list \<Rightarrow> (string \<times> string) list" where
  "layer_rules ks = [(name, p). Some (name, p) \<leftarrow> map at (walks ks), name \<in> {''layer'', ''responsive'', ''variants''}]"

text \<open>The test of one at-rule, with the message of the error.\<close>

definition layer_error :: "string list \<Rightarrow> string \<times> string \<Rightarrow> string option" where
  "layer_error e = (\<lambda>(name, p).
     if name = ''layer'' \<and> p \<in> {''base'', ''components'', ''utilities''} then
       (if p \<notin> set e then Some (''`@layer '' @ p @ ''` is used but no matching `@tailwind '' @ p @ ''` directive is present.'') else None)
     else if name = ''responsive'' then
       (if ''utilities'' \<notin> set e then Some ''`@responsive` is used but `@tailwind utilities` is missing.'' else None)
     else if name = ''variants'' \<and> ''utilities'' \<notin> set e then Some ''`@variants` is used but `@tailwind utilities` is missing.''
     else None)"

definition normalize_directives :: "'d item list \<Rightarrow> ('d item list \<times> string list) js" where
  "normalize_directives r =
     (let r = edit_items normal_item r; e = directives r
      in if \<not> {''base'', ''components'', ''utilities''} \<subseteq> set e then
           (case List.map_filter (layer_error e) (layer_rules r) of err # _ \<Rightarrow> Throw err | [] \<Rightarrow> Value (r, e))
         else Value (r, e))"

section \<open>Copies\<close>

text \<open>\<open>Qt\<close>: new objects, with the layer noted and the source of the directive.\<close>

fun renumber :: "'d item list \<Rightarrow> nat \<Rightarrow> 'd item list \<times> nat" where
  "renumber [] n = ([], n)"
| "renumber (Item i a r s d ks # rest) n =
     (let (ks, m) = renumber ks (Suc n); (rest, m) = renumber rest m in (Item n a r s d ks # rest, m))"

fun set_source :: "nat option \<Rightarrow> 'd item list \<Rightarrow> 'd item list" where
  "set_source e [] = []"
| "set_source e (Item i a r s d ks # rest) =
     (if raw_preserve r \<and> s \<noteq> None then Item i a r s d ks else Item i a r e d (set_source e ks)) # set_source e rest"

definition note_layer :: "layer \<Rightarrow> 'd item \<Rightarrow> 'd item" where
  "note_layer t x = (case x of Item i a r s d ks \<Rightarrow> Item i a (r\<lparr>raw_layer := Some t\<rparr>) s d ks)"

definition clone_nodes :: "'d item list \<Rightarrow> nat option \<Rightarrow> layer \<Rightarrow> nat \<Rightarrow> 'd item list" where
  "clone_nodes r e t n =
     (let c = map (note_layer t) (fst (renumber r n)) in if e = None then c else set_source e c)"


section \<open>The expansion\<close>














section \<open>Which sheets are accepted\<close>

lemma at_normal_items: "map at (walks (edit_items normal_item ks)) = map (map_option normal_at) (map at (walks ks))"
  by (induction ks rule: walks.induct) (simp_all add: normal_item_def)

lemma set_fold_add [simp]: "set (fold set_add xs ys) = set ys \<union> set xs"
  by (induction xs arbitrary: ys) auto

lemma directives_iff: "p \<in> set (directives ks) \<longleftrightarrow> Some (''tailwind'', p) \<in> at ` set (walks ks)"
  by (force simp: directives_def image_iff)

lemma layer_rules_iff:
  "(name, p) \<in> set (layer_rules ks) \<longleftrightarrow> name \<in> {''layer'', ''responsive'', ''variants''} \<and> Some (name, p) \<in> at ` set (walks ks)"
  by (force simp: layer_rules_def image_iff)

lemma normalize_Value_iff:
  "(\<exists>v. normalize_directives r = Value v) \<longleftrightarrow>
     (\<forall>a\<in>set (layer_rules (edit_items normal_item r)). layer_error (directives (edit_items normal_item r)) a = None)"
proof -
  let ?r = "edit_items normal_item r"
  let ?e = "directives ?r"
  have full: "layer_error ?e a = None" if "{''base'', ''components'', ''utilities''} \<subseteq> set ?e" for a
    using that by (cases a) (auto simp: layer_error_def)
  have nil: "List.map_filter f xs = [] \<longleftrightarrow> (\<forall>x\<in>set xs. f x = None)" for f and xs :: "(string \<times> string) list"
    by (induction xs) (auto simp: map_filter_simps split: option.split)
  show ?thesis
  proof (cases "{''base'', ''components'', ''utilities''} \<subseteq> set ?e")
    case True
    then show ?thesis using full by (simp add: normalize_directives_def Let_def)
  next
    case False
    then have n: "normalize_directives r = (case List.map_filter (layer_error ?e) (layer_rules ?r) of err # _ \<Rightarrow> Throw err | [] \<Rightarrow> Value (?r, ?e))"
      by (simp only: normalize_directives_def Let_def if_True not_False_eq_True)
    show ?thesis unfolding n nil [symmetric] by (simp split: list.split)
  qed
qed

text \<open>A sheet has the directive for a part if it says so or imports the part.\<close>

definition has_directive :: "'d item list \<Rightarrow> string \<Rightarrow> bool" where
  "has_directive r p \<longleftrightarrow> (\<exists>x\<in>set (walks r). at x = Some (''tailwind'', p) \<or> (\<exists>q. at x = Some (''import'', q) \<and> quoted_import q p))"

lemma quoted_import_unique: "quoted_import q a \<Longrightarrow> quoted_import q b \<Longrightarrow> a = b"
  by (auto simp: quoted_import_def)

lemma normal_at_import:
  assumes "p \<in> {''base'', ''components'', ''utilities''}"
  shows "normal_at (''import'', q) = (''tailwind'', p) \<longleftrightarrow> quoted_import q p"
proof -
  have d: "quoted_import q a \<Longrightarrow> a \<noteq> b \<Longrightarrow> \<not> quoted_import q b" for a b using quoted_import_unique by blast
  consider "p = ''base''" | "p = ''components''" | "p = ''utilities''" using assms by blast
  then show ?thesis
  proof cases
    case 1
    then show ?thesis by (simp add: normal_at_def)
  next
    case 2
    then show ?thesis using d [of "''components''" "''base''"] by (simp add: normal_at_def)
  next
    case 3
    then show ?thesis using d [of "''utilities''" "''base''"] d [of "''utilities''" "''components''"] by (simp add: normal_at_def)
  qed
qed

lemma normal_at_tailwind:
  assumes "p \<in> {''base'', ''components'', ''utilities''}"
  shows "normal_at (name, q) = (''tailwind'', p) \<longleftrightarrow> name = ''tailwind'' \<and> q = p \<or> name = ''import'' \<and> quoted_import q p"
proof (cases "name = ''import''")
  case True
  then show ?thesis using normal_at_import [OF assms, of q] by simp
next
  case False
  then show ?thesis using assms by (auto simp: normal_at_def)
qed

lemma at_normal_set: "at ` set (walks (edit_items normal_item r)) = (\<lambda>x. map_option normal_at (at x)) ` set (walks r)"
  using arg_cong [OF at_normal_items, of set r] by (simp add: image_image)

lemma Some_in_map_option: "Some y \<in> (\<lambda>x. map_option f (g x)) ` A \<longleftrightarrow> (\<exists>x\<in>A. \<exists>z. g x = Some z \<and> f z = y)"
  by (auto simp: image_iff eq_commute [of "Some y"])

lemma normal_at_other: "name \<notin> {''tailwind'', ''import''} \<Longrightarrow> normal_at (n, q) = (name, p) \<longleftrightarrow> n = name \<and> q = p"
  by (auto simp: normal_at_def)

lemma directives_normal:
  assumes "p \<in> {''base'', ''components'', ''utilities''}"
  shows "p \<in> set (directives (edit_items normal_item r)) \<longleftrightarrow> has_directive r p"
proof -
  have "p \<in> set (directives (edit_items normal_item r)) \<longleftrightarrow> Some (''tailwind'', p) \<in> (\<lambda>x. map_option normal_at (at x)) ` set (walks r)"
    unfolding directives_iff at_normal_set by (rule refl)
  also have "\<dots> \<longleftrightarrow> (\<exists>x\<in>set (walks r). \<exists>name q. at x = Some (name, q) \<and> normal_at (name, q) = (''tailwind'', p))"
    unfolding Some_in_map_option split_paired_Ex ..
  also have "\<dots> \<longleftrightarrow> has_directive r p"
    unfolding has_directive_def normal_at_tailwind [OF assms] by auto
  finally show ?thesis .
qed

lemma layer_rules_normal:
  "(name, p) \<in> set (layer_rules (edit_items normal_item r)) \<longleftrightarrow>
     name \<in> {''layer'', ''responsive'', ''variants''} \<and> (\<exists>x\<in>set (walks r). at x = Some (name, p))"
proof -
  have "(name, p) \<in> set (layer_rules (edit_items normal_item r)) \<longleftrightarrow>
      name \<in> {''layer'', ''responsive'', ''variants''} \<and> Some (name, p) \<in> (\<lambda>x. map_option normal_at (at x)) ` set (walks r)"
    unfolding layer_rules_iff at_normal_set by (rule refl)
  also have "\<dots> \<longleftrightarrow> name \<in> {''layer'', ''responsive'', ''variants''} \<and> (\<exists>x\<in>set (walks r). \<exists>n q. at x = Some (n, q) \<and> normal_at (n, q) = (name, p))"
    unfolding Some_in_map_option split_paired_Ex ..
  finally show ?thesis using normal_at_other [of name] by auto
qed

text \<open>The parts that an at-rule asks for.\<close>

definition required_parts :: "string \<times> string \<Rightarrow> string set" where
  "required_parts = (\<lambda>(name, p).
     if name = ''layer'' then {p} \<inter> {''base'', ''components'', ''utilities''}
     else if name = ''responsive'' \<or> name = ''variants'' then {''utilities''} else {})"

lemma layer_error_None: "layer_error e a = None \<longleftrightarrow> required_parts a \<subseteq> set e"
  by (cases a) (simp add: layer_error_def required_parts_def)

text \<open>C20. The sheet is accepted exactly when every \<open>@layer\<close> of base, components or utilities has its directive,
  and \<open>@responsive\<close> and \<open>@variants\<close> have \<open>@tailwind utilities\<close>, where importing the part of
  Tailwind counts as its directive.\<close>

theorem layers_have_directives:
  "(\<exists>v. normalize_directives r = Value v) \<longleftrightarrow>
     {p. \<exists>x a. x \<in> set (walks r) \<and> at x = Some a \<and> p \<in> required_parts a} \<subseteq> {p. has_directive r p}"
proof -
  let ?e = "directives (edit_items normal_item r)"
  have parts: "p \<in> {''base'', ''components'', ''utilities''}" if "p \<in> required_parts (name, q)" for p name q
    using that by (auto simp: required_parts_def split: if_splits)
  have "q \<in> set ?e \<longleftrightarrow> q \<in> {p. has_directive r p}" if "q \<in> required_parts a" for q a
    using that parts directives_normal [of q r] by (cases a) auto
  then have dirs: "required_parts a \<subseteq> set ?e \<longleftrightarrow> required_parts a \<subseteq> {p. has_directive r p}" for a by (metis subset_iff)
  have "(\<exists>v. normalize_directives r = Value v) \<longleftrightarrow> (\<forall>name q. (name, q) \<in> set (layer_rules (edit_items normal_item r))
      \<longrightarrow> required_parts (name, q) \<subseteq> set ?e)"
    unfolding normalize_Value_iff layer_error_None by auto
  also have "\<dots> \<longleftrightarrow> (\<forall>name q. (\<exists>x\<in>set (walks r). at x = Some (name, q)) \<longrightarrow> required_parts (name, q) \<subseteq> set ?e)"
  proof -
    have "((name, q) \<in> set (layer_rules (edit_items normal_item r)) \<longrightarrow> required_parts (name, q) \<subseteq> set ?e)
        \<longleftrightarrow> ((\<exists>x\<in>set (walks r). at x = Some (name, q)) \<longrightarrow> required_parts (name, q) \<subseteq> set ?e)" for name q
    proof (cases "name \<in> {''layer'', ''responsive'', ''variants''}")
      case False
      then have "required_parts (name, q) = {}" by (simp add: required_parts_def)
      then show ?thesis by (simp only: empty_subsetI simp_thms)
    qed (simp only: layer_rules_normal simp_thms)
    then show ?thesis by (simp only:)
  qed
  also have "\<dots> \<longleftrightarrow> (\<forall>name q. (\<exists>x\<in>set (walks r). at x = Some (name, q)) \<longrightarrow> required_parts (name, q) \<subseteq> {p. has_directive r p})"
    by (simp only: dirs)
  also have "\<dots> \<longleftrightarrow> {p. \<exists>x a. x \<in> set (walks r) \<and> at x = Some a \<and> p \<in> required_parts a} \<subseteq> {p. has_directive r p}"
    unfolding split_paired_Ex by blast
  finally show ?thesis .
qed

section \<open>No rule is lost\<close>

text \<open>A node without what the copies change.\<close>

fun bare :: "'d item list \<Rightarrow> 'd item list" where
  "bare [] = []"
| "bare (Item i a r s d ks # rest) = Item 0 a (r\<lparr>raw_layer := None\<rparr>) None d (bare ks) # bare rest"

lemma bare_renumber: "bare (fst (renumber ks n)) = bare ks"
  by (induction ks n rule: renumber.induct) (auto split: prod.splits)

lemma bare_set_source: "bare (set_source e ks) = bare ks"
  by (induction e ks rule: set_source.induct) auto

lemma bare_note_layer: "bare (map (note_layer t) ks) = bare ks"
  by (induction ks rule: bare.induct) (simp_all add: note_layer_def)

lemma bare_clone [simp]: "bare (clone_nodes ks e t n) = bare ks"
  by (simp add: clone_nodes_def Let_def bare_renumber bare_set_source bare_note_layer)

lemma bare_in: "x \<in> set ks \<Longrightarrow> hd (bare [x]) \<in> set (bare ks)"
  by (induction ks rule: bare.induct) auto

lemma in_bare: "y \<in> set (bare ks) \<Longrightarrow> \<exists>x\<in>set ks. hd (bare [x]) = y"
  by (induction ks rule: bare.induct) auto

lemma at_bare: "map at (walks (bare ks)) = map at (walks ks)"
  by (induction ks rule: walks.induct) simp_all

lemma at_clone: "map at (walks (clone_nodes ks e t n)) = map at (walks ks)"
  by (metis at_bare bare_clone)














































section \<open>From the content to the sheet\<close>















end
