(* ===== verification/Tailwind_Passes.thy ===== *)
theory Tailwind_Passes
  imports Js_Prelude
begin

text \<open>
  Passes over the finished style sheet in \<open>webgui/tailwind.js\<close>: \<open>iO\<close> (partitionApplyAtRules) gives every
  \<open>@apply\<close> a container of its own, \<open>Wl\<close> (collapseAdjacentRules) joins neighbours with the same
  selector, \<open>Gl\<close> (collapseDuplicateDeclarations) removes declarations that later ones replace. A sheet is
  a tree; sources and blanks of the nodes are left out.
\<close>

section \<open>Style sheets\<close>

text \<open>A declaration with property, value and importance, a comment, a rule, and an at-rule with or without
  a body.\<close>

datatype css =
    C_Decl string string bool
  | C_Comment string
  | C_Rule string "css list"
  | C_At string string "css list option"

fun is_apply :: "css \<Rightarrow> bool" where
  "is_apply (C_At n _ _) \<longleftrightarrow> n = ''apply''"
| "is_apply _ \<longleftrightarrow> False"

text \<open>\<open>s.replace(/\s+/g, " ")\<close>.\<close>

fun one_space :: "string \<Rightarrow> string" where
  "one_space [] = []"
| "one_space (c # cs) =
     (if js_space c then (if cs \<noteq> [] \<and> js_space (hd cs) then one_space cs else CHR '' '' # one_space cs)
      else c # one_space cs)"

section \<open>Every apply in a container of its own\<close>

text \<open>The nodes of a container, each with whether it is an \<open>@apply\<close> and what became of it, are split: an
  \<open>@apply\<close> stands alone, the nodes between stay together. \<open>n\<close> are those since the last one.\<close>

fun apply_groups :: "css list \<Rightarrow> (bool \<times> css list) list \<Rightarrow> css list list" where
  "apply_groups n [] = (if n \<noteq> [] then [n] else [])"
| "apply_groups n ((b, xs) # r) =
     (if b then (if n \<noteq> [] then [n] else []) @ [xs] @ apply_groups [] r else apply_groups (n @ xs) r)"

text \<open>The bodies of the containers that take the place of one: without \<open>@apply\<close> it stays as it is.\<close>

definition split_body :: "(bool \<times> css list) list \<Rightarrow> css list list" where
  "split_body l =
     (if list_ex fst l \<and> length (apply_groups [] l) \<noteq> 1 then apply_groups [] l else [concat (map snd l)])"

fun partition_node :: "css \<Rightarrow> css list"
  and partition_nodes :: "css list \<Rightarrow> (bool \<times> css list) list" where
  "partition_node (C_Rule s ns) = map (C_Rule s) (split_body (partition_nodes ns))"
| "partition_node (C_At n p (Some ns)) = map (\<lambda>ms. C_At n p (Some ms)) (split_body (partition_nodes ns))"
| "partition_node (C_At n p None) = [C_At n p None]"
| "partition_node (C_Decl p v i) = [C_Decl p v i]"
| "partition_node (C_Comment t) = [C_Comment t]"
| "partition_nodes [] = []"
| "partition_nodes (x # xs) = (is_apply x, partition_node x) # partition_nodes xs"

text \<open>\<open>iO\<close>: the root has no parent that could take its parts.\<close>

definition partition_apply :: "css list \<Rightarrow> css list js" where
  "partition_apply ns =
     (let l = partition_nodes ns
      in if list_ex fst l \<and> length (apply_groups [] l) \<noteq> 1 then Throw ''TypeError'' else Value (concat (map snd l)))"

section \<open>Joining neighbours\<close>

text \<open>The properties that are compared, \<open>undefined\<close> being the empty text.\<close>

definition same_field :: "string \<Rightarrow> string \<Rightarrow> bool" where
  "same_field a b \<longleftrightarrow> one_space a = one_space b"

fun at_name :: "css \<Rightarrow> string" where
  "at_name (C_At n _ _) = n"
| "at_name _ = []"

fun at_params :: "css \<Rightarrow> string" where
  "at_params (C_At _ p _) = p"
| "at_params _ = []"

fun rule_selector :: "css \<Rightarrow> string" where
  "rule_selector (C_Rule s _) = s"
| "rule_selector _ = []"

fun joins :: "css \<Rightarrow> css \<Rightarrow> bool" where
  "joins (C_At n p _) t \<longleftrightarrow> same_field n (at_name t) \<and> same_field p (at_params t)"
| "joins (C_Rule s _) t \<longleftrightarrow> same_field s (rule_selector t)"
| "joins _ t \<longleftrightarrow> False"

fun css_body :: "css \<Rightarrow> css list option" where
  "css_body (C_Rule _ ns) = Some ns"
| "css_body (C_At _ _ b) = b"
| "css_body _ = None"

fun append_body :: "css list \<Rightarrow> css \<Rightarrow> css" where
  "append_body ms (C_Rule s ns) = C_Rule s (ns @ ms)"
| "append_body ms (C_At n p b) = C_At n p (Some ((case b of None \<Rightarrow> [] | Some ns \<Rightarrow> ns) @ ms))"
| "append_body ms x = x"

fun is_container :: "css \<Rightarrow> bool" where
  "is_container (C_Rule _ _) \<longleftrightarrow> True"
| "is_container (C_At _ _ _) \<longleftrightarrow> True"
| "is_container _ \<longleftrightarrow> False"

text \<open>The loop over the nodes: those that stay, the last one first, and whether that one is the node \<open>t\<close>.\<close>

fun join_neighbours :: "css list \<Rightarrow> bool \<Rightarrow> css list \<Rightarrow> css list" where
  "join_neighbours out h [] = rev out"
| "join_neighbours out h (i # is) =
     (if \<not> is_container i then join_neighbours (i # out) False is
      else if \<not> h then join_neighbours (i # out) True is
      else if at_name i = ''font-face'' then join_neighbours (i # out) True is
      else if joins i (hd out)
        then join_neighbours ((case css_body i of None \<Rightarrow> hd out | Some ns \<Rightarrow> append_body ns (hd out)) # tl out) True is
      else join_neighbours (i # out) True is)"

text \<open>\<open>Wl\<close> goes on in the bodies of the at-rules that are left; bodies get shorter with their depth.\<close>

fun css_depth :: "css \<Rightarrow> nat" and body_depth :: "css list \<Rightarrow> nat" where
  "css_depth (C_Rule _ ns) = Suc (body_depth ns)"
| "css_depth (C_At _ _ (Some ns)) = Suc (body_depth ns)"
| "css_depth _ = 0"
| "body_depth [] = 0"
| "body_depth (x # xs) = max (css_depth x) (body_depth xs)"

lemma body_depth_append [simp]: "body_depth (ms @ ns) = max (body_depth ms) (body_depth ns)"
  by (induction ms) auto

lemma body_depth_rev [simp]: "body_depth (rev ns) = body_depth ns"
  by (induction ns) auto

lemma body_depth_mem: "x \<in> set ns \<Longrightarrow> css_depth x \<le> body_depth ns"
  by (induction ns) auto

lemma append_body_depth: "css_body i = Some ns \<Longrightarrow> css_depth (append_body ns t) \<le> max (css_depth t) (css_depth i)"
  by (cases i; cases t) (auto split: option.splits)

text \<open>The two cases of the loop: the node is joined to the last one, or stays.\<close>

definition joined :: "css list \<Rightarrow> bool \<Rightarrow> css \<Rightarrow> bool" where
  "joined out h i \<longleftrightarrow> is_container i \<and> h \<and> at_name i \<noteq> ''font-face'' \<and> joins i (hd out)"

definition join_to :: "css \<Rightarrow> css \<Rightarrow> css" where
  "join_to i t = (case css_body i of None \<Rightarrow> t | Some ns \<Rightarrow> append_body ns t)"

lemma join_neighbours_Cons:
  "join_neighbours out h (i # is) =
     (if joined out h i then join_neighbours (join_to i (hd out) # tl out) True is
      else join_neighbours (i # out) (is_container i) is)"
  by (simp add: joined_def join_to_def)

declare join_neighbours.simps(2) [simp del]

lemma join_to_depth: "css_depth (join_to i t) \<le> max (css_depth t) (css_depth i)"
  using append_body_depth [of i _ t] by (auto simp: join_to_def split: option.split)

lemma join_neighbours_depth:
  "(h \<longrightarrow> out \<noteq> []) \<Longrightarrow> body_depth (join_neighbours out h ns) \<le> max (body_depth out) (body_depth ns)"
proof (induction ns arbitrary: out h)
  case (Cons i "is")
  show ?case
  proof (cases "joined out h i")
    case True
    then obtain t ts where o': "out = t # ts" using Cons.prems by (cases out) (auto simp: joined_def)
    have "body_depth (join_neighbours (join_to i t # ts) True is) \<le> max (body_depth (join_to i t # ts)) (body_depth is)"
      by (rule Cons.IH) simp
    then show ?thesis using join_to_depth [of i t] o' True by (simp add: join_neighbours_Cons)
  next
    case False
    have "body_depth (join_neighbours (i # out) (is_container i) is) \<le> max (body_depth (i # out)) (body_depth is)"
      by (rule Cons.IH) simp
    then show ?thesis using False by (simp add: join_neighbours_Cons max.assoc max.left_commute)
  qed
qed simp

function collapse_rules :: "css list \<Rightarrow> css list" where
  "collapse_rules ns =
     map (\<lambda>x. case x of C_At n p (Some ms) \<Rightarrow> C_At n p (Some (collapse_rules ms)) | _ \<Rightarrow> x) (join_neighbours [] False ns)"
  by pat_completeness auto
termination
proof (relation "measure body_depth")
  fix ns :: "css list" and x n p b ms
  assume "x \<in> set (join_neighbours [] False ns)" "x = C_At n p b" "b = Some ms"
  then have "Suc (body_depth ms) \<le> body_depth (join_neighbours [] False ns)" using body_depth_mem by fastforce
  then show "(ms, ns) \<in> measure body_depth" using join_neighbours_depth [of False "[]" ns] by simp
qed simp

declare collapse_rules.simps [simp del]

section \<open>What a sheet says\<close>

text \<open>The declarations and comments in their order, each with the containers around it; with \<open>b\<close> the at-rules
  without a body are among them.\<close>

fun node_leaves :: "bool \<Rightarrow> string list list \<Rightarrow> css \<Rightarrow> (string list list \<times> css) list"
  and leaves :: "bool \<Rightarrow> string list list \<Rightarrow> css list \<Rightarrow> (string list list \<times> css) list" where
  "node_leaves b q (C_Decl p v i) = [(q, C_Decl p v i)]"
| "node_leaves b q (C_Comment t) = [(q, C_Comment t)]"
| "node_leaves b q (C_Rule s ns) = leaves b (q @ [[one_space s]]) ns"
| "node_leaves b q (C_At n p (Some ns)) = leaves b (q @ [[one_space n, one_space p]]) ns"
| "node_leaves b q (C_At n p None) = (if b then [(q, C_At n p None)] else [])"
| "leaves b q [] = []"
| "leaves b q (x # xs) = node_leaves b q x @ leaves b q xs"

lemma leaves_append [simp]: "leaves b q (xs @ ys) = leaves b q xs @ leaves b q ys"
  by (induction xs) simp_all

lemma leaves_map_Rule: "leaves b q (map (C_Rule s) bs) = leaves b (q @ [[one_space s]]) (concat bs)"
  by (induction bs) simp_all

lemma leaves_map_At: "leaves b q (map (\<lambda>ms. C_At n p (Some ms)) bs) = leaves b (q @ [[one_space n, one_space p]]) (concat bs)"
  by (induction bs) simp_all

section \<open>The apply rules\<close>

lemma concat_apply_groups: "concat (apply_groups n l) = n @ concat (map snd l)"
  by (induction n l rule: apply_groups.induct) simp_all

lemma concat_split_body: "concat (split_body l) = concat (map snd l)"
  by (simp add: split_body_def concat_apply_groups)

lemma partition_leaves:
  "leaves b q (partition_node x) = node_leaves b q x"
  "leaves b q (concat (map snd (partition_nodes xs))) = leaves b q xs"
  by (induction x and xs arbitrary: q and q rule: partition_node_partition_nodes.induct)
    (simp_all add: leaves_map_Rule leaves_map_At concat_split_body)

text \<open>In a sheet as it is written, an \<open>@apply\<close> has no body.\<close>

fun apply_bodyless :: "css \<Rightarrow> bool" where
  "apply_bodyless (C_Rule _ ns) \<longleftrightarrow> list_all apply_bodyless ns"
| "apply_bodyless (C_At n _ (Some ns)) \<longleftrightarrow> n \<noteq> ''apply'' \<and> list_all apply_bodyless ns"
| "apply_bodyless _ \<longleftrightarrow> True"

definition alone :: "css list \<Rightarrow> bool" where
  "alone ns \<longleftrightarrow> \<not> list_ex is_apply ns \<or> length ns = 1"

fun apply_alone :: "css \<Rightarrow> bool" where
  "apply_alone (C_Rule _ ns) \<longleftrightarrow> alone ns \<and> list_all apply_alone ns"
| "apply_alone (C_At _ _ (Some ns)) \<longleftrightarrow> alone ns \<and> list_all apply_alone ns"
| "apply_alone _ \<longleftrightarrow> True"

lemma partition_node_apply: "apply_bodyless x \<Longrightarrow> is_apply x \<Longrightarrow> partition_node x = [x]"
  by (cases x rule: partition_node.cases) auto

lemma partition_node_other: "\<not> is_apply x \<Longrightarrow> \<not> list_ex is_apply (partition_node x)"
  by (cases x rule: partition_node.cases) (auto simp: list_ex_iff)

definition parts_ok :: "(bool \<times> css list) list \<Rightarrow> bool" where
  "parts_ok l \<longleftrightarrow> (\<forall>(b, xs)\<in>set l. if b then length xs = 1 else \<not> list_ex is_apply xs)"

lemma apply_groups_alone:
  "parts_ok l \<Longrightarrow> \<not> list_ex is_apply n \<Longrightarrow> g \<in> set (apply_groups n l) \<Longrightarrow> alone g"
  by (induction n l rule: apply_groups.induct) (auto simp: parts_ok_def alone_def split: if_splits)

lemma split_body_alone: "parts_ok l \<Longrightarrow> g \<in> set (split_body l) \<Longrightarrow> alone g"
proof -
  assume l: "parts_ok l" "g \<in> set (split_body l)"
  consider "g \<in> set (apply_groups [] l)" | "g = concat (map snd l)" "\<not> list_ex fst l" | "g = concat (map snd l)" "length (apply_groups [] l) = 1"
    using l(2) by (auto simp: split_body_def split: if_splits)
  then show ?thesis
  proof cases
    case 1
    then show ?thesis using apply_groups_alone [OF l(1), of "[]" g] by simp
  next
    case 2
    then show ?thesis using l(1) by (fastforce simp: parts_ok_def alone_def list_ex_iff)
  next
    case 3
    then obtain h where h: "apply_groups [] l = [h]" by (auto simp: length_Suc_conv)
    then have "g = h" using 3(1) concat_apply_groups [of "[]" l] by simp
    then show ?thesis using apply_groups_alone [OF l(1), of "[]" g] h by simp
  qed
qed

lemma partition_nodes_ok: "list_all apply_bodyless xs \<Longrightarrow> parts_ok (partition_nodes xs)"
  by (induction xs) (auto simp: parts_ok_def partition_node_apply partition_node_other)

lemma split_body_all:
  assumes "list_all P (concat (map snd l))" and "g \<in> set (split_body l)"
  shows "list_all P g"
proof -
  have "set g \<subseteq> set (concat (split_body l))" using assms(2) by auto
  then show ?thesis using assms(1) by (auto simp: concat_split_body list_all_iff)
qed

lemma partition_alone:
  "apply_bodyless x \<Longrightarrow> list_all apply_alone (partition_node x)"
  "list_all apply_bodyless xs \<Longrightarrow> list_all apply_alone (concat (map snd (partition_nodes xs)))"
proof (induction x and xs rule: partition_node_partition_nodes.induct)
  case (1 s ns)
  then show ?case
    using split_body_alone [OF partition_nodes_ok] split_body_all [of apply_alone "partition_nodes ns"] by (auto simp: list_all_iff)
next
  case (2 n p ns)
  then show ?case
    using split_body_alone [OF partition_nodes_ok] split_body_all [of apply_alone "partition_nodes ns"] by (auto simp: list_all_iff)
qed simp_all

lemma split_body_ne: "split_body l \<noteq> []"
proof
  assume e: "split_body l = []"
  then have "apply_groups [] l = []" "list_ex fst l" by (auto simp: split_body_def split: if_splits)
  moreover have "list_ex fst l \<Longrightarrow> apply_groups n l \<noteq> []" for n by (induction n l rule: apply_groups.induct) auto
  ultimately show False by blast
qed

lemma partition_node_ne: "partition_node x \<noteq> []"
  by (cases x rule: partition_node.cases) (simp_all add: split_body_ne)

lemma apply_groups_Nil: "apply_groups n l = [] \<Longrightarrow> \<forall>g\<in>snd ` set l. g \<noteq> [] \<Longrightarrow> n = [] \<and> l = []"
  by (induction n l rule: apply_groups.induct) (auto split: if_splits)

lemma apply_groups_single:
  "length (apply_groups n l) = 1 \<Longrightarrow> list_ex fst l \<Longrightarrow> \<forall>g\<in>snd ` set l. g \<noteq> [] \<Longrightarrow> n = [] \<and> length l = 1"
proof (induction n l rule: apply_groups.induct)
  case (2 n b xs r)
  then show ?case using apply_groups_Nil [of "[]" r] by (cases b; cases "n = []") auto
qed simp

lemma partition_nodes_parts: "length (partition_nodes xs) = length xs" "\<forall>g\<in>snd ` set (partition_nodes xs). g \<noteq> []"
  by (induction xs) (simp_all add: partition_node_ne)

lemma apply_flags: "list_ex fst (partition_nodes xs) = list_ex is_apply xs"
  by (induction xs) simp_all

text \<open>C24. Splitting the rules at \<open>@apply\<close> keeps every declaration, comment and \<open>@apply\<close> in its place under the
  same selectors, and afterwards an \<open>@apply\<close> is the only node of its container. It throws a TypeError exactly
  when the sheet itself has an \<open>@apply\<close> next to another node.\<close>

theorem apply_stands_alone:
  assumes "list_all apply_bodyless ns"
  shows "case partition_apply ns of
      Value ms \<Rightarrow> alone ns \<and> leaves True [] ms = leaves True [] ns \<and> list_all apply_alone ms
    | Throw _ \<Rightarrow> \<not> alone ns"
proof (cases "alone ns")
  case True
  have "length (apply_groups [] (partition_nodes ns)) = 1" if a: "list_ex is_apply ns"
  proof -
    obtain x where "ns = [x]" "is_apply x" using True a by (auto simp: alone_def length_Suc_conv)
    then show ?thesis by simp
  qed
  then have "partition_apply ns = Value (concat (map snd (partition_nodes ns)))"
    by (auto simp: partition_apply_def Let_def apply_flags)
  then show ?thesis using True partition_leaves(2) partition_alone(2) [OF assms] by simp
next
  case False
  have "length (apply_groups [] (partition_nodes ns)) \<noteq> 1"
  proof
    assume "length (apply_groups [] (partition_nodes ns)) = 1"
    then have "length ns = 1"
      using apply_groups_single [of "[]" "partition_nodes ns"] partition_nodes_parts [of ns] False by (simp add: alone_def apply_flags)
    then show False using False by (simp add: alone_def)
  qed
  then show ?thesis using False by (simp add: partition_apply_def Let_def apply_flags alone_def)
qed

theorem apply_stands_alone_witness:
  "\<exists>ms. partition_apply [C_Rule ''.a'' [C_Decl ''top'' ''0'' False, C_At ''apply'' ''flex'' None, C_Comment ''x'']] = Value ms
    \<and> length ms = 3 \<and> list_all apply_alone ms"
proof -
  let ?ns = "[C_Rule ''.a'' [C_Decl ''top'' ''0'' False, C_At ''apply'' ''flex'' None, C_Comment ''x'']]"
  obtain ms where ms: "partition_apply ?ns = Value ms" "length ms = 3" by (simp add: partition_apply_def split_body_def)
  then show ?thesis using apply_stands_alone [of ?ns] by simp
qed

text \<open>A defect: \<open>@apply\<close> outside of a rule ends in a TypeError and not in a message about the sheet.\<close>

lemma apply_at_root_throws:
  "partition_apply [C_At ''apply'' ''flex'' None, C_Comment ''x''] = Throw ''TypeError''"
  by (simp add: partition_apply_def)

section \<open>Joined neighbours\<close>

text \<open>Every rule has a selector and every at-rule a name.\<close>

fun named :: "css \<Rightarrow> bool" where
  "named (C_Rule s ns) \<longleftrightarrow> s \<noteq> [] \<and> list_all named ns"
| "named (C_At n _ (Some ns)) \<longleftrightarrow> n \<noteq> [] \<and> list_all named ns"
| "named (C_At n _ None) \<longleftrightarrow> n \<noteq> []"
| "named _ \<longleftrightarrow> True"

lemma one_space_ne [simp]: "s \<noteq> [] \<Longrightarrow> one_space s \<noteq> []" "s \<noteq> [] \<Longrightarrow> [] \<noteq> one_space s"
  by (induction s rule: one_space.induct) auto

lemma join_leaves:
  assumes "joins i t" and "named i" and "named t" and "css_body i = Some ms"
  shows "node_leaves False q (append_body ms t) = node_leaves False q t @ node_leaves False q i \<and> named (append_body ms t)"
  using assms by (cases i; cases t) (auto simp: same_field_def split: option.splits)

lemma bodyless_leaves: "is_container i \<Longrightarrow> css_body i = None \<Longrightarrow> node_leaves False q i = []"
  by (cases i) auto

lemma join_to_leaves:
  assumes "joins i t" and "is_container i" and "named i" and "named t"
  shows "node_leaves False q (join_to i t) = node_leaves False q t @ node_leaves False q i \<and> named (join_to i t)"
proof (cases "css_body i")
  case None
  then show ?thesis using assms bodyless_leaves [of i q] by (simp add: join_to_def)
next
  case (Some ms)
  then show ?thesis using join_leaves [OF assms(1,3,4) Some, of q] by (simp add: join_to_def)
qed

lemma join_neighbours_leaves:
  "(h \<longrightarrow> out \<noteq> []) \<Longrightarrow> list_all named out \<Longrightarrow> list_all named ns \<Longrightarrow>
    leaves False q (join_neighbours out h ns) = leaves False q (rev out) @ leaves False q ns \<and> list_all named (join_neighbours out h ns)"
proof (induction ns arbitrary: out h)
  case Nil
  then show ?case by (simp add: list_all_iff)
next
  case (Cons i "is")
  show ?case
  proof (cases "joined out h i")
    case True
    then obtain t ts where o': "out = t # ts" using Cons.prems by (cases out) (auto simp: joined_def)
    then have m: "node_leaves False q (join_to i t) = node_leaves False q t @ node_leaves False q i" "named (join_to i t)"
      using join_to_leaves [of i t q] True Cons.prems by (auto simp: joined_def)
    then show ?thesis using Cons.IH [of True "join_to i t # ts"] Cons.prems o' True by (simp add: join_neighbours_Cons)
  next
    case False
    then show ?thesis using Cons.IH [of "is_container i" "i # out"] Cons.prems by (simp add: join_neighbours_Cons)
  qed
qed

lemma collapse_leaves:
  "list_all named ns \<Longrightarrow> leaves False q (collapse_rules ns) = leaves False q ns"
proof (induction ns arbitrary: q rule: collapse_rules.induct)
  case (1 ns)
  let ?j = "join_neighbours [] False ns"
  have j: "leaves False q ?j = leaves False q ns" "list_all named ?j" using join_neighbours_leaves [of False "[]" ns q] "1.prems" by simp_all
  let ?f = "\<lambda>x. case x of C_At n p (Some ms) \<Rightarrow> C_At n p (Some (collapse_rules ms)) | _ \<Rightarrow> x"
  have "node_leaves False q (?f x) = node_leaves False q x" if "x \<in> set ?j" for x
  proof (cases "\<exists>n p ms. x = C_At n p (Some ms)")
    case True
    then obtain n p ms where x: "x = C_At n p (Some ms)" by blast
    then have "list_all named ms" using j(2) that by (auto simp: list_all_iff)
    then show ?thesis using "1.IH" [OF that x refl] x by simp
  qed (auto split: css.split option.split)
  then have "set xs \<subseteq> set ?j \<Longrightarrow> leaves False q (map ?f xs) = leaves False q xs" for xs
    by (induction xs) auto
  then show ?case using j(1) by (simp add: collapse_rules.simps [of ns])
qed

text \<open>C25. Joining neighbours keeps every declaration and comment in its place, under the same selectors and
  at-rules, up to blanks in those.\<close>

theorem collapse_keeps_declarations:
  assumes "list_all named ns"
  shows "leaves False [] (collapse_rules ns) = leaves False [] ns"
  by (rule collapse_leaves [OF assms])

theorem collapse_keeps_declarations_witness:
  "leaves False [] (collapse_rules [C_Rule ''.a'' [C_Decl ''top'' ''0'' False], C_Rule ''.a'' [C_Decl ''left'' ''0'' False]])
    = [([[''.a'']], C_Decl ''top'' ''0'' False), ([[''.a'']], C_Decl ''left'' ''0'' False)]"
proof -
  have "\<not> js_space (CHR ''.'')" "\<not> js_space (CHR ''a'')" by (simp_all add: js_space_def)
  then show ?thesis
    using collapse_keeps_declarations [of "[C_Rule ''.a'' [C_Decl ''top'' ''0'' False], C_Rule ''.a'' [C_Decl ''left'' ''0'' False]]"] by simp
qed

end
