(* ===== verification/Tailwind_Dedupe.thy ===== *)
theory Tailwind_Dedupe
  imports Tailwind_Passes Go_Map "HOL-Library.Sublist"
begin

text \<open>
  Removing the declarations of a rule that later ones replace, in \<open>webgui/tailwind.js\<close>: \<open>Gl\<close>
  (collapseDuplicateDeclarations) with the unit of a value, \<open>rO\<close>. Nodes are told apart by their index in
  the rule, which stands for their identity; a \<open>Set\<close> is the list of its elements in their order.
\<close>

section \<open>Units\<close>

text \<open>The parts of the regular expression \<open>/^-?\d*.?\d+([\w%]+)?$/g\<close>: what may be left after each, in the order in
  which the matching tries it.\<close>

fun many :: "(char \<Rightarrow> bool) \<Rightarrow> string \<Rightarrow> string list" where
  "many P [] = [[]]"
| "many P (c # cs) = (if P c then many P cs else []) @ [c # cs]"

fun many1 :: "(char \<Rightarrow> bool) \<Rightarrow> string \<Rightarrow> string list" where
  "many1 P [] = []"
| "many1 P (c # cs) = (if P c then many P cs else [])"

fun optional :: "(char \<Rightarrow> bool) \<Rightarrow> string \<Rightarrow> string list" where
  "optional P [] = [[]]"
| "optional P (c # cs) = (if P c then [cs] else []) @ [c # cs]"

definition digit :: "char \<Rightarrow> bool" where
  "digit c \<longleftrightarrow> CHR ''0'' \<le> c \<and> c \<le> CHR ''9''"

definition unit_char :: "char \<Rightarrow> bool" where
  "unit_char c \<longleftrightarrow> word_char c \<or> c = CHR ''%''"

definition unit_group :: "string \<Rightarrow> string option list" where
  "unit_group r = (if r = [] then [None] else if list_all unit_char r then [Some r] else [])"

text \<open>\<open>rO\<close>: no number, or a number with a unit or without (the symbol \<open>tO\<close>).\<close>

definition number_unit :: "string \<Rightarrow> string option option" where
  "number_unit r =
     (case concat (map unit_group (concat (map (many1 digit) (concat (map (optional (\<lambda>c. c \<noteq> newline \<and> c \<noteq> CHR 0x0D))
        (concat (map (many digit) (optional (\<lambda>c. c = CHR ''-'') r)))))))) of
        [] \<Rightarrow> None | u # _ \<Rightarrow> Some u)"

section \<open>Duplicates\<close>

definition put_under :: "'k \<Rightarrow> 'a \<Rightarrow> ('k, 'a list) gomap \<Rightarrow> ('k, 'a list) gomap" where
  "put_under k x m = gm_put k (set_add x (case gm_get m k of None \<Rightarrow> [] | Some xs \<Rightarrow> xs)) m"

text \<open>\<open>t\<close>, the last declaration of a property with its value; \<open>i\<close>, those with the value of the next one; \<open>n\<close>, those of
  properties with several values.\<close>

record dedupe =
  last_of :: "(string, nat \<times> string) gomap"
  repeated :: "nat list"
  conflicts :: "(string, nat list) gomap"

definition decl_step :: "nat \<times> string \<times> string \<Rightarrow> dedupe \<Rightarrow> dedupe" where
  "decl_step = (\<lambda>(k, p, v) s.
     case gm_get (last_of s) p of
       None \<Rightarrow> s\<lparr>last_of := gm_put p (k, v) (last_of s)\<rparr>
     | Some (j, w) \<Rightarrow>
         if w = v then s\<lparr>repeated := set_add j (repeated s), last_of := gm_put p (k, v) (last_of s)\<rparr>
         else s\<lparr>conflicts := put_under p k (put_under p j (conflicts s)), last_of := gm_put p (k, v) (last_of s)\<rparr>)"

text \<open>The conflicting declarations of one property, grouped by the unit of their values: all but the last of a group go.\<close>

definition unit_step :: "(nat \<Rightarrow> string) \<Rightarrow> nat \<Rightarrow> (string option, nat list) gomap \<Rightarrow> (string option, nat list) gomap" where
  "unit_step value_of k a = (case number_unit (value_of k) of None \<Rightarrow> a | Some u \<Rightarrow> put_under u k a)"

definition replaced_in :: "(nat \<Rightarrow> string) \<Rightarrow> nat list \<Rightarrow> nat list" where
  "replaced_in value_of ks = concat (map (butlast \<circ> snd) (fold (unit_step value_of) ks []))"

text \<open>The declarations that stand directly in the rule.\<close>

fun decl_of :: "css \<Rightarrow> (string \<times> string) option" where
  "decl_of (C_Decl p v _) = Some (p, v)"
| "decl_of _ = None"

definition own_decls :: "css list \<Rightarrow> (nat \<times> string \<times> string) list" where
  "own_decls ns = [(k, p, v). (k, x) \<leftarrow> zip [0..<length ns] ns, Some (p, v) \<leftarrow> [decl_of x]]"

definition removed_decls :: "css list \<Rightarrow> nat list" where
  "removed_decls ns =
     (let s = fold decl_step (own_decls ns) \<lparr>last_of = [], repeated = [], conflicts = []\<rparr>;
          value_of = (\<lambda>k. case decl_of (ns ! k) of Some (_, v) \<Rightarrow> v | None \<Rightarrow> [])
      in repeated s @ concat (map (replaced_in value_of \<circ> snd) (conflicts s)))"

definition survivors :: "nat list \<Rightarrow> 'a list \<Rightarrow> 'a list" where
  "survivors R ns = map snd (filter (\<lambda>(k, x). k \<notin> set R) (zip [0..<length ns] ns))"

definition dedupe_body :: "css list \<Rightarrow> css list" where
  "dedupe_body ns = survivors (removed_decls ns) ns"

text \<open>\<open>Gl\<close>: every rule, at any depth.\<close>

fun dedupe_node :: "css \<Rightarrow> css" where
  "dedupe_node (C_Rule s ns) = C_Rule s (dedupe_body (map dedupe_node ns))"
| "dedupe_node (C_At n p b) = C_At n p (map_option (map dedupe_node) b)"
| "dedupe_node x = x"

section \<open>What goes has a successor\<close>

text \<open>A later declaration of the same property.\<close>

definition has_later :: "(nat \<times> string \<times> string) list \<Rightarrow> nat \<Rightarrow> bool" where
  "has_later ds j \<longleftrightarrow> (\<exists>p v k w. (j, p, v) \<in> set ds \<and> (k, p, w) \<in> set ds \<and> j < k)"

lemma put_under_laws:
  assumes "gm_ok m"
  shows "gm_ok (put_under k x m)"
    and "gm_get (put_under k x m) k' = (if k' = k then Some (set_add x (case gm_get m k of None \<Rightarrow> [] | Some xs \<Rightarrow> xs)) else gm_get m k')"
  using assms by (simp_all add: put_under_def)

lemma set_add_sorted:
  "sorted_wrt (<) xs \<Longrightarrow> \<forall>y\<in>set xs. y \<le> x \<Longrightarrow> sorted_wrt (<) (set_add (x :: nat) xs) \<and> (\<forall>y\<in>set (set_add x xs). y \<le> x)"
  by (auto simp: set_add_def sorted_wrt_append) (metis le_neq_implies_less)

definition dedupe_ok :: "(nat \<times> string \<times> string) list \<Rightarrow> dedupe \<Rightarrow> bool" where
  "dedupe_ok ds s \<longleftrightarrow> gm_ok (last_of s) \<and> gm_ok (conflicts s)
     \<and> (\<forall>p j w. gm_get (last_of s) p = Some (j, w) \<longrightarrow> (j, p, w) \<in> set ds)
     \<and> (\<forall>j\<in>set (repeated s). has_later ds j)
     \<and> (\<forall>p ks. gm_get (conflicts s) p = Some ks \<longrightarrow> sorted_wrt (<) ks \<and> (\<forall>k\<in>set ks. \<exists>v. (k, p, v) \<in> set ds)
          \<and> (\<exists>j w. gm_get (last_of s) p = Some (j, w) \<and> (\<forall>k\<in>set ks. k \<le> j)))"

lemma has_later_mono: "has_later ds j \<Longrightarrow> has_later (ds @ es) j"
  by (auto simp: has_later_def)

lemma decl_step_ok:
  assumes ok: "dedupe_ok ds s" and new: "\<forall>(j, _)\<in>set ds. j < k"
  shows "dedupe_ok (ds @ [(k, p, v)]) (decl_step (k, p, v) s)"
proof (cases "gm_get (last_of s) p")
  case None
  then have "gm_get (conflicts s) p = None" using ok by (cases "gm_get (conflicts s) p") (fastforce simp: dedupe_ok_def)+
  then show ?thesis using ok None has_later_mono by (fastforce simp: dedupe_ok_def decl_step_def)
next
  case (Some jw)
  obtain j w where j: "gm_get (last_of s) p = Some (j, w)" using Some by (cases jw) auto
  then have jd: "(j, p, w) \<in> set ds" "j < k" using ok new by (auto simp: dedupe_ok_def)
  show ?thesis
  proof (cases "w = v")
    case True
    have "has_later (ds @ [(k, p, v)]) j" using jd True by (auto simp: has_later_def)
    then show ?thesis
      using ok j True jd(2) has_later_mono by (fastforce simp: dedupe_ok_def decl_step_def intro: less_imp_le order_trans)
  next
    case False
    define ks where "ks = (case gm_get (conflicts s) p of None \<Rightarrow> [] | Some xs \<Rightarrow> xs)"
    have ks: "sorted_wrt (<) ks" "\<forall>i\<in>set ks. i \<le> j" "\<forall>i\<in>set ks. \<exists>v. (i, p, v) \<in> set ds"
      using ok j by (cases "gm_get (conflicts s) p"; force simp: dedupe_ok_def ks_def)+
    define ls where "ls = set_add k (set_add j ks)"
    have "sorted_wrt (<) (set_add j ks)" "\<forall>i\<in>set (set_add j ks). i \<le> j" using set_add_sorted [OF ks(1,2)] by simp_all
    then have ls: "sorted_wrt (<) ls" "\<forall>i\<in>set ls. i \<le> k" "\<forall>i\<in>set ls. \<exists>v. (i, p, v) \<in> set (ds @ [(k, p, v)])"
      using set_add_sorted [of "set_add j ks" k] jd ks(3) by (force simp: ls_def)+
    have c: "gm_ok (conflicts s)" using ok by (simp add: dedupe_ok_def)
    have g: "gm_get (put_under p k (put_under p j (conflicts s))) q = (if q = p then Some ls else gm_get (conflicts s) q)" for q
      by (simp add: put_under_laws c ls_def ks_def)
    show ?thesis
      using ok j False ls has_later_mono by (fastforce simp: dedupe_ok_def decl_step_def g put_under_laws)
  qed
qed

lemma decl_steps_ok:
  "sorted_wrt (<) (map fst ds) \<Longrightarrow> dedupe_ok ds (fold decl_step ds \<lparr>last_of = [], repeated = [], conflicts = []\<rparr>)"
proof (induction ds rule: rev_induct)
  case (snoc x ds)
  obtain k p v where x: "x = (k, p, v)" by (cases x)
  have "\<forall>(j, _)\<in>set ds. j < k" using snoc.prems by (auto simp: sorted_wrt_append x)
  then show ?case using decl_step_ok [of ds _ k p v] snoc by (simp add: x sorted_wrt_append)
qed (simp add: dedupe_ok_def)

text \<open>The groups of one property.\<close>

definition groups_ok :: "nat list \<Rightarrow> (string option, nat list) gomap \<Rightarrow> bool" where
  "groups_ok ks a \<longleftrightarrow> gm_ok a \<and> (\<forall>u g. gm_get a u = Some g \<longrightarrow> sorted_wrt (<) g \<and> set g \<subseteq> set ks)"

lemma unit_step_ok:
  assumes "groups_ok ks a" and "\<forall>j\<in>set ks. j < k"
  shows "groups_ok (ks @ [k]) (unit_step f k a)"
proof (cases "number_unit (f k)")
  case (Some u)
  define g where "g = (case gm_get a u of None \<Rightarrow> [] | Some xs \<Rightarrow> xs)"
  have g: "sorted_wrt (<) g" "set g \<subseteq> set ks"
    using assms(1) by (cases "gm_get a u"; force simp: groups_ok_def g_def)+
  then have "sorted_wrt (<) (set_add k g)" using assms(2) set_add_sorted [of g k] by (auto intro: less_imp_le)
  then show ?thesis using assms(1) g(2) Some by (auto simp: groups_ok_def unit_step_def put_under_laws simp flip: g_def)
qed (use assms(1) in \<open>auto simp: groups_ok_def unit_step_def\<close>)

lemma unit_steps_ok: "sorted_wrt (<) ks \<Longrightarrow> groups_ok ks (fold (unit_step f) ks [])"
proof (induction ks rule: rev_induct)
  case (snoc k ks)
  then show ?case using unit_step_ok [of ks _ k f] by (simp add: sorted_wrt_append)
qed (simp add: groups_ok_def)

lemma replaced_in_later:
  assumes "sorted_wrt (<) ks" and "j \<in> set (replaced_in f ks)"
  shows "j \<in> set ks \<and> (\<exists>k\<in>set ks. j < k)"
proof -
  obtain u g where g: "(u, g) \<in> set (fold (unit_step f) ks [])" "j \<in> set (butlast g)" using assms(2) by (auto simp: replaced_in_def)
  then have s: "sorted_wrt (<) g" "set g \<subseteq> set ks"
    using unit_steps_ok [OF assms(1), of f] gm_get_in by (fastforce simp: groups_ok_def)+
  have "g \<noteq> []" using g(2) by auto
  then have e: "g = butlast g @ [last g]" by simp
  then have "j < last g" using s(1) g(2) by (metis in_set_conv_decomp list.set_intros(1) sorted_wrt_append)
  then show ?thesis using s(2) g(2) \<open>g \<noteq> []\<close> by (meson in_set_butlastD last_in_set subsetD)
qed

section \<open>The last declaration stays\<close>

lemma own_decls_in: "(k, p, v) \<in> set (own_decls ns) \<longleftrightarrow> k < length ns \<and> decl_of (ns ! k) = Some (p, v)"
  by (force simp: own_decls_def set_zip split: option.splits)

lemma own_decls_sorted: "sorted_wrt (<) (map fst (own_decls ns))"
proof -
  have "map fst (concat (map (\<lambda>(k, x). case decl_of x of None \<Rightarrow> [] | Some (p, v) \<Rightarrow> [(k, p, v)]) l))
      = map fst (filter (\<lambda>(k, x). decl_of x \<noteq> None) l)" for l :: "(nat \<times> css) list"
    by (induction l) (auto split: option.splits)
  moreover have "own_decls ns = concat (map (\<lambda>(k, x). case decl_of x of None \<Rightarrow> [] | Some (p, v) \<Rightarrow> [(k, p, v)]) (zip [0..<length ns] ns))"
    unfolding own_decls_def by (intro arg_cong [where f = concat] map_cong refl) (auto split: option.splits)
  moreover have "sorted_wrt (\<lambda>x y. fst x < fst y) (zip [0..<length ns] ns)"
    by (simp flip: sorted_wrt_map)
  then have "sorted_wrt (<) (map fst (filter Q (zip [0..<length ns] ns)))" for Q
    by (simp add: sorted_wrt_map sorted_wrt_filter)
  ultimately show ?thesis by simp
qed

lemma removed_later:
  assumes "j \<in> set (removed_decls ns)"
  shows "has_later (own_decls ns) j"
proof -
  define s where "s = fold decl_step (own_decls ns) \<lparr>last_of = [], repeated = [], conflicts = []\<rparr>"
  define f where "f = (\<lambda>k. case decl_of (ns ! k) of Some (_, v) \<Rightarrow> v | None \<Rightarrow> [])"
  have ok: "dedupe_ok (own_decls ns) s" unfolding s_def by (rule decl_steps_ok [OF own_decls_sorted])
  have "j \<in> set (repeated s) \<or> (\<exists>p ks. (p, ks) \<in> set (conflicts s) \<and> j \<in> set (replaced_in f ks))"
    using assms by (auto simp: removed_decls_def Let_def simp flip: s_def f_def)
  then show ?thesis
  proof
    assume "\<exists>p ks. (p, ks) \<in> set (conflicts s) \<and> j \<in> set (replaced_in f ks)"
    then obtain p ks where p: "gm_get (conflicts s) p = Some ks" "j \<in> set (replaced_in f ks)"
      using ok by (auto simp: dedupe_ok_def gm_get_in)
    then have ks: "sorted_wrt (<) ks" "\<forall>k\<in>set ks. \<exists>v. (k, p, v) \<in> set (own_decls ns)" using ok by (auto simp: dedupe_ok_def)
    then show ?thesis using replaced_in_later [OF ks(1) p(2)] unfolding has_later_def by blast
  qed (use ok in \<open>auto simp: dedupe_ok_def\<close>)
qed

lemma survivors_snoc: "survivors R (ns @ [x]) = survivors R ns @ (if length ns \<in> set R then [] else [x])"
  by (simp add: survivors_def zip_append2)

text \<open>The last node with a property of nodes, if nodes with it go only before others of them.\<close>

lemma survivors_last:
  "\<forall>k<length ns. k \<in> set R \<and> Q (ns ! k) \<longrightarrow> (\<exists>l>k. l < length ns \<and> Q (ns ! l)) \<Longrightarrow>
    filter Q (survivors R ns) = [] \<and> filter Q ns = [] \<or>
    filter Q (survivors R ns) \<noteq> [] \<and> filter Q ns \<noteq> [] \<and> last (filter Q (survivors R ns)) = last (filter Q ns)"
proof (induction ns rule: rev_induct)
  case (snoc x ns)
  show ?case
  proof (cases "Q x")
    case True
    then have "length ns \<notin> set R" using snoc.prems by (auto dest: spec [of _ "length ns"])
    then show ?thesis using True by (simp add: survivors_snoc)
  next
    case False
    have "\<exists>l>k. l < length ns \<and> Q (ns ! l)" if k: "k < length ns" "k \<in> set R" "Q (ns ! k)" for k
    proof -
      have "k < length (ns @ [x]) \<and> k \<in> set R \<and> Q ((ns @ [x]) ! k)" using k by (simp add: nth_append)
      then obtain l where l: "l > k" "l < length (ns @ [x])" "Q ((ns @ [x]) ! l)" using snoc.prems by blast
      then show ?thesis using False by (cases "l = length ns") (auto simp: nth_append)
    qed
    then show ?thesis using snoc.IH False by (simp add: survivors_snoc)
  qed
qed (simp add: survivors_def)

lemma survivors_filter: "(\<And>k. k < length ns \<Longrightarrow> k \<in> set R \<Longrightarrow> \<not> Q (ns ! k)) \<Longrightarrow> filter Q (survivors R ns) = filter Q ns"
proof (induction ns rule: rev_induct)
  case (snoc x ns)
  have "filter Q (survivors R ns) = filter Q ns" using snoc by (metis length_append_singleton less_SucI nth_append)
  then show ?case using snoc.prems [of "length ns"] by (auto simp: survivors_snoc)
qed (simp add: survivors_def)

lemma survivors_subseq: "subseq (survivors R ns) ns"
proof (induction ns rule: rev_induct)
  case (snoc x ns)
  then show ?case by (auto simp: survivors_snoc intro: list_emb_append_mono list_emb_prefix)
qed (simp add: survivors_def)

text \<open>The declarations of a property.\<close>

definition decls_of :: "string \<Rightarrow> css list \<Rightarrow> css list" where
  "decls_of p = filter (\<lambda>x. map_option fst (decl_of x) = Some p)"

definition last_decl :: "string \<Rightarrow> css list \<Rightarrow> css option" where
  "last_decl p ns = (if decls_of p ns = [] then None else Some (last (decls_of p ns)))"

text \<open>C26. Of every property of a rule the last declaration stays, everything that is not a declaration stays, and
  what stays keeps its order.\<close>

theorem last_declaration_kept:
  "last_decl p (dedupe_body ns) = last_decl p ns
    \<and> filter (\<lambda>x. decl_of x = None) (dedupe_body ns) = filter (\<lambda>x. decl_of x = None) ns \<and> subseq (dedupe_body ns) ns"
proof -
  let ?R = "removed_decls ns" and ?Q = "\<lambda>x. map_option fst (decl_of x) = Some p"
  have "\<exists>l>k. l < length ns \<and> ?Q (ns ! l)" if "k \<in> set ?R" "?Q (ns ! k)" for k
    using removed_later [OF that(1)] that(2) unfolding has_later_def own_decls_in by fastforce
  then have "last_decl p (dedupe_body ns) = last_decl p ns"
    using survivors_last [of ns ?R ?Q] by (auto simp: last_decl_def decls_of_def dedupe_body_def)
  moreover have "\<not> decl_of (ns ! k) = None" if "k \<in> set ?R" for k
    using removed_later [OF that] unfolding has_later_def own_decls_in by auto
  then have "filter (\<lambda>x. decl_of x = None) (dedupe_body ns) = filter (\<lambda>x. decl_of x = None) ns"
    using survivors_filter [of ns ?R "\<lambda>x. decl_of x = None"] by (simp add: dedupe_body_def)
  ultimately show ?thesis using survivors_subseq [of ?R ns] by (simp add: dedupe_body_def)
qed

text \<open>A defect: importance is not looked at, so an important declaration gives way to a later one that is not, which it would override.\<close>

lemma important_declaration_lost:
  "dedupe_body [C_Decl ''top'' ''1px'' True, C_Decl ''top'' ''2px'' False] = [C_Decl ''top'' ''2px'' False]"
  by (simp add: dedupe_body_def removed_decls_def own_decls_def survivors_def decl_step_def Let_def gm_put_def gm_get_def replaced_in_def unit_step_def
      put_under_def set_add_def number_unit_def digit_def unit_group_def unit_char_def word_char_def newline_def upt_rec)

end
