(* ===== verification/Did_You_Mean.thy ===== *)
theory Did_You_Mean
  imports Complex_Main Js_Prelude
begin

text \<open>
  The suggestion in an error of \<open>theme()\<close>, in \<open>webgui/tailwind.js\<close>: the module \<open>Wg\<close> (didYouMean) picks the
  key that is nearest to a name. Its function \<open>t\<close> fills the table of the edit distance row by row, only
  in a band around the diagonal, and gives up when a row exceeds the limit. The limit is a fraction of
  the length of the name, so distances are rational numbers; the settings keep their default values.
\<close>

section \<open>The distance of two words\<close>

text \<open>
  One row of the table: the cells from \<open>f\<close> on, for the character \<open>x\<close>. \<open>us\<close> is the row before from \<open>f - 1\<close> on,
  \<open>q\<close> the cell to the left; cells outside of \<open>p\<close> to \<open>h\<close> count as more than the limit \<open>s\<close>.
\<close>

fun fill_row :: "rat \<Rightarrow> rat \<Rightarrow> rat \<Rightarrow> char \<Rightarrow> nat \<Rightarrow> string \<Rightarrow> rat list \<Rightarrow> rat \<Rightarrow> rat list" where
  "fill_row s p h x f [] us q = []"
| "fill_row s p h x f (y # ys) us q =
     (let v = (if of_nat f < p \<or> of_nat f > h then s + 1
               else if x = y then hd us
               else min (hd us + 1) (min (q + 1) (hd (tl us) + 1)))
      in v # fill_row s p h x (Suc f) ys (tl us) v)"

text \<open>The row \<open>c\<close>, of the character \<open>x\<close>; \<open>k\<close> is the length of the second word.\<close>

definition next_row :: "rat \<Rightarrow> string \<Rightarrow> nat \<Rightarrow> char \<Rightarrow> nat \<Rightarrow> rat list \<Rightarrow> rat list" where
  "next_row s i k x c us =
     (let p = (if of_nat c > s then of_nat c - s else 1);
          h = (if of_nat (k + 1) > s + of_nat c then s + of_nat c else of_nat (k + 1))
      in of_nat c # fill_row s p h x 1 i us (of_nat c))"

definition row_least :: "rat list \<Rightarrow> rat" where
  "row_least vs = fold (\<lambda>v d. if v < d then v else d) vs 4294967295"

fun table_rows :: "rat \<Rightarrow> string \<Rightarrow> nat \<Rightarrow> string \<Rightarrow> nat \<Rightarrow> rat list \<Rightarrow> rat" where
  "table_rows s i k [] c us = last us"
| "table_rows s i k (x # xs) c us =
     (let r = next_row s i k x c us
      in if row_least (tl r) > s then s + 1 else table_rows s i k xs (Suc c) r)"

text \<open>The function \<open>t(i, n, s)\<close>.\<close>

definition word_distance :: "string \<Rightarrow> string \<Rightarrow> rat \<Rightarrow> rat" where
  "word_distance i n s =
     (if i = [] then min (s + 1) (of_nat (length n))
      else if n = [] then min (s + 1) (of_nat (length i))
      else if \<bar>of_nat (length i) - of_nat (length n)\<bar> > s then s + 1
      else table_rows s i (length n) n 1 (map of_nat [0..<length i + 1]))"

section \<open>The suggestion\<close>

text \<open>\<open>toLowerCase\<close> of the characters below 256.\<close>

definition latin_lower :: "char \<Rightarrow> char" where
  "latin_lower c =
     (let n = (of_char c :: nat)
      in if 65 \<le> n \<and> n \<le> 90 \<or> 192 \<le> n \<and> n \<le> 222 \<and> n \<noteq> 215 then char_of (n + 32) else c)"

fun pick_closest :: "string \<Rightarrow> string list \<Rightarrow> rat \<Rightarrow> string option \<Rightarrow> string option" where
  "pick_closest i [] l c = c"
| "pick_closest i (f # fs) l c =
     (if f = [] then pick_closest i fs l c
      else (let p = word_distance i (map latin_lower f) l
            in if p < l then pick_closest i fs p (Some f) else pick_closest i fs l c))"

text \<open>The function \<open>r(i, n)\<close> with \<open>threshold\<close> 0.4 and \<open>thresholdAbsolute\<close> 20.\<close>

definition first_limit :: "string \<Rightarrow> rat" where
  "first_limit i = min (2 / 5 * of_nat (length i)) 20"

definition did_you_mean :: "string \<Rightarrow> string list \<Rightarrow> string option" where
  "did_you_mean i ns = (if i = [] then None else pick_closest (map latin_lower i) ns (first_limit i) None)"

section \<open>Edits\<close>

text \<open>What the distance means: so many insertions, deletions and replacements turn one word into the other.\<close>

inductive edits :: "nat \<Rightarrow> 'a list \<Rightarrow> 'a list \<Rightarrow> bool" where
  none: "edits 0 [] []"
| keep: "edits k xs ys \<Longrightarrow> edits k (x # xs) (x # ys)"
| replace: "edits k xs ys \<Longrightarrow> edits (Suc k) (x # xs) (y # ys)"
| insert: "edits k xs ys \<Longrightarrow> edits (Suc k) xs (y # ys)"
| delete: "edits k xs ys \<Longrightarrow> edits (Suc k) (x # xs) ys"

lemma edits_append: "edits k xs ys \<Longrightarrow> edits l us vs \<Longrightarrow> edits (k + l) (xs @ us) (ys @ vs)"
  by (induction rule: edits.induct) (auto intro: edits.intros)

lemma edits_rev: "edits k xs ys \<Longrightarrow> edits k (rev xs) (rev ys)"
proof (induction rule: edits.induct)
  case (keep k xs ys x)
  then show ?case using edits_append [OF keep.IH, of 0 "[x]" "[x]"] by (simp add: edits.intros)
next
  case (replace k xs ys x y)
  then show ?case using edits_append [OF replace.IH, of 1 "[x]" "[y]"] by (simp add: edits.intros)
next
  case (insert k xs ys y)
  then show ?case using edits_append [OF insert.IH, of 1 "[]" "[y]"] by (simp add: edits.intros)
next
  case (delete k xs ys x)
  then show ?case using edits_append [OF delete.IH, of 1 "[x]" "[]"] by (simp add: edits.intros)
qed (simp add: edits.none)

lemma edits_rev_iff: "edits k (rev xs) (rev ys) = edits k xs ys"
  using edits_rev [of k xs ys] edits_rev [of k "rev xs" "rev ys"] by auto

text \<open>The recursion behind the table.\<close>

fun least_edits :: "'a list \<Rightarrow> 'a list \<Rightarrow> nat" where
  "least_edits [] ys = length ys"
| "least_edits (x # xs) [] = Suc (length xs)"
| "least_edits (x # xs) (y # ys) =
     (if x = y then least_edits xs ys
      else Suc (min (least_edits xs ys) (min (least_edits (x # xs) ys) (least_edits xs (y # ys)))))"

lemma least_edits_Nil [simp]: "least_edits xs [] = length xs"
  by (cases xs) simp_all

lemma least_edits_sym: "least_edits xs ys = least_edits ys xs"
  by (induction xs ys rule: least_edits.induct) (auto simp: min.commute min.left_commute)

lemma least_edits_near:
  "least_edits xs ys \<le> Suc (least_edits (x # xs) ys) \<and> least_edits xs (y # ys) \<le> Suc (least_edits xs ys)"
proof (induction "length xs + length ys" arbitrary: xs ys x y rule: less_induct)
  case less
  have a: "least_edits xs ys \<le> Suc (least_edits (x # xs) ys)"
  proof (cases ys)
    case (Cons v vs)
    then show ?thesis using less [of xs vs x v] by (auto simp: min_def)
  qed simp
  have b: "least_edits xs (y # ys) \<le> Suc (least_edits xs ys)"
  proof (cases xs)
    case (Cons u us)
    then show ?thesis using less [of us ys u y] by (auto simp: min_def)
  qed simp
  show ?case using a b ..
qed

lemma edits_least: "edits (least_edits xs ys) xs ys"
proof (induction xs ys rule: least_edits.induct)
  case (1 ys)
  show ?case by (induction ys) (auto intro: edits.intros)
next
  case (2 x xs)
  show ?case by (induction xs arbitrary: x) (auto intro: edits.intros)
next
  case (3 x xs y ys)
  then show ?case by (auto simp: min_def intro: edits.intros)
qed

lemma least_edits_le: "edits k xs ys \<Longrightarrow> least_edits xs ys \<le> k"
proof (induction rule: edits.induct)
  case (replace k xs ys x y)
  then show ?case by (auto simp: min_def)
next
  case (insert k xs ys y)
  then show ?case using least_edits_near [of xs ys] by (meson Suc_le_mono le_trans)
next
  case (delete k xs ys x)
  then show ?case using least_edits_near [of ys xs] by (metis Suc_le_mono le_trans least_edits_sym)
qed simp_all

lemma least_edits_rev: "least_edits (rev xs) (rev ys) = least_edits xs ys"
  by (meson antisym edits_least edits_rev_iff least_edits_le)

lemma edits_length: "edits k xs ys \<Longrightarrow> length xs \<le> length ys + k \<and> length ys \<le> length xs + k"
  by (induction rule: edits.induct) auto

lemma least_edits_length: "length xs \<le> length ys + least_edits xs ys" "length ys \<le> length xs + least_edits xs ys"
  using edits_length [OF edits_least] by auto

lemma least_edits_single: "xs \<noteq> [] \<Longrightarrow> least_edits xs [y] \<le> length xs"
proof (induction xs)
  case (Cons x xs)
  then show ?case by (auto simp: min_def)
qed simp

section \<open>The table\<close>

text \<open>A number that stands for a distance: exact if it or the distance is within the limit.\<close>

definition agrees :: "rat \<Rightarrow> rat \<Rightarrow> nat \<Rightarrow> bool" where
  "agrees s v k \<longleftrightarrow> (v \<le> s \<or> of_nat k \<le> s \<longrightarrow> v = of_nat k)"

lemma agrees_exact [simp]: "agrees s (of_nat k) k"
  by (simp add: agrees_def)

lemma agrees_beyond: "s < v \<Longrightarrow> s < of_nat k \<Longrightarrow> agrees s v k"
  by (simp add: agrees_def)

lemma agrees_le: "agrees s v k \<Longrightarrow> v \<le> s \<longleftrightarrow> of_nat k \<le> s"
  by (auto simp: agrees_def)

lemma agrees_Suc: "agrees s v k \<Longrightarrow> agrees s (v + 1) (Suc k)"
  unfolding agrees_def by (intro impI) (elim disjE, simp_all)

lemma agrees_min:
  assumes "agrees s v k" and "agrees s w l"
  shows "agrees s (min v w) (min k l)"
proof -
  consider "v \<le> s" "w \<le> s" | "v \<le> s" "s < w" | "s < v" "w \<le> s" | "s < v" "s < w" by linarith
  then show ?thesis
  proof cases
    case 1
    then show ?thesis using assms by (simp add: agrees_def of_nat_min)
  next
    case 2
    then have "v = of_nat k" "s < of_nat l" using assms agrees_le [OF assms(2)] by (simp_all add: agrees_def)
    then show ?thesis using 2 by (simp add: agrees_def)
  next
    case 3
    then have "w = of_nat l" "s < of_nat k" using assms agrees_le [OF assms(1)] by (simp_all add: agrees_def)
    then show ?thesis using 3 by (simp add: agrees_def)
  next
    case 4
    then have "s < of_nat k" "s < of_nat l" using agrees_le [OF assms(1)] agrees_le [OF assms(2)] by simp_all
    then show ?thesis using 4 by (simp add: agrees_def of_nat_min min_le_iff_disj)
  qed
qed

text \<open>The distance of the first \<open>c\<close> characters of \<open>n\<close> and the first \<open>f\<close> of \<open>i\<close>.\<close>

definition prefix_edits :: "string \<Rightarrow> string \<Rightarrow> nat \<Rightarrow> nat \<Rightarrow> nat" where
  "prefix_edits n i c f = least_edits (rev (take c n)) (rev (take f i))"

lemma prefix_edits_Suc:
  "c < length n \<Longrightarrow> f < length i \<Longrightarrow> prefix_edits n i (Suc c) (Suc f) =
     (if n ! c = i ! f then prefix_edits n i c f
      else Suc (min (prefix_edits n i c f) (min (prefix_edits n i (Suc c) f) (prefix_edits n i c (Suc f)))))"
  by (simp add: prefix_edits_def take_Suc_conv_app_nth)

lemma prefix_edits_0 [simp]:
  "c \<le> length n \<Longrightarrow> prefix_edits n i c 0 = c" "f \<le> length i \<Longrightarrow> prefix_edits n i 0 f = f"
  by (simp_all add: prefix_edits_def)

lemma prefix_edits_full: "prefix_edits n i (length n) (length i) = least_edits i n"
  by (simp add: prefix_edits_def least_edits_rev least_edits_sym)

lemma prefix_edits_band:
  assumes "c \<le> length n" and "f \<le> length i" and "of_nat f + s < of_nat c \<or> of_nat c + s < (of_nat f :: rat)"
  shows "s < of_nat (prefix_edits n i c f)"
proof -
  have "c \<le> f + prefix_edits n i c f" "f \<le> c + prefix_edits n i c f"
    using least_edits_length(1) [of "rev (take c n)" "rev (take f i)"] least_edits_length(2) [of "rev (take f i)" "rev (take c n)"] assms(1,2) by (simp_all add: prefix_edits_def)
  then have "of_nat c \<le> (of_nat (f + prefix_edits n i c f) :: rat)" "of_nat f \<le> (of_nat (c + prefix_edits n i c f) :: rat)"
    by (simp_all only: of_nat_le_iff)
  then show ?thesis using assms(3) by auto
qed

text \<open>One cell.\<close>

lemma cell_agrees:
  assumes "c < length n" and "f < length i" and "0 \<le> s"
    and "agrees s u (prefix_edits n i c f)" and "agrees s q (prefix_edits n i (Suc c) f)"
    and "agrees s w (prefix_edits n i c (Suc f))"
    and "out \<longleftrightarrow> of_nat (Suc f) + s < of_nat (Suc c) \<or> of_nat (Suc c) + s < (of_nat (Suc f) :: rat)"
  shows "agrees s (if out then s + 1 else if n ! c = i ! f then u else min (u + 1) (min (q + 1) (w + 1)))
    (prefix_edits n i (Suc c) (Suc f))"
proof (cases out)
  case True
  then have "s < of_nat (prefix_edits n i (Suc c) (Suc f))" using assms(1,2,7) prefix_edits_band [of "Suc c" n "Suc f" i s] by simp
  then show ?thesis using True agrees_beyond [of s "s + 1"] by simp
next
  case False
  have "agrees s (min (u + 1) (min (q + 1) (w + 1)))
      (min (Suc (prefix_edits n i c f)) (min (Suc (prefix_edits n i (Suc c) f)) (Suc (prefix_edits n i c (Suc f)))))"
    by (intro agrees_min agrees_Suc assms(4-6))
  then show ?thesis using False assms(1,2,4) by (simp add: prefix_edits_Suc min_Suc_Suc)
qed

text \<open>A row of the table, as far as its column is at most one behind the end of \<open>n\<close>.\<close>

definition row_ok :: "rat \<Rightarrow> string \<Rightarrow> string \<Rightarrow> nat \<Rightarrow> rat list \<Rightarrow> bool" where
  "row_ok s n i c us \<longleftrightarrow> length us = length i + 1
     \<and> (\<forall>f\<le>length i. f \<le> length n + 1 \<longrightarrow> agrees s (us ! f) (prefix_edits n i c f))"

lemma length_fill_row [simp]: "length (fill_row s p h x f ys us q) = length ys"
  by (induction s p h x f ys us q rule: fill_row.induct) (simp_all add: Let_def)

lemma fill_row_agrees:
  assumes "c < length n" and "0 \<le> s" and "row_ok s n i c us"
    and p: "p = (if of_nat (Suc c) > s then of_nat (Suc c) - s else 1)"
    and h: "h = (if of_nat (length n + 1) > s + of_nat (Suc c) then s + of_nat (Suc c) else of_nat (length n + 1))"
  shows "f \<le> length i \<Longrightarrow> (f \<le> length n + 1 \<longrightarrow> agrees s q (prefix_edits n i (Suc c) f)) \<Longrightarrow> j < length i - f \<Longrightarrow> Suc f + j \<le> length n + 1
    \<Longrightarrow> agrees s (fill_row s p h (n ! c) (Suc f) (drop f i) (drop f us) q ! j) (prefix_edits n i (Suc c) (Suc f + j))"
proof (induction "length i - f" arbitrary: f q j)
  case (Suc k)
  then have f: "f < length i" "k = length i - Suc f" "Suc f \<le> length n + 1" by auto
  have l: "length us = length i + 1" using assms(3) by (simp add: row_ok_def)
  have u: "agrees s (us ! f) (prefix_edits n i c f)" "agrees s (us ! Suc f) (prefix_edits n i c (Suc f))"
    using assms(3) f by (simp_all add: row_ok_def)
  let ?out = "of_nat (Suc f) < p \<or> of_nat (Suc f) > h"
  define v where "v = (if ?out then s + 1 else if n ! c = i ! f then us ! f else min (us ! f + 1) (min (q + 1) (us ! Suc f + 1)))"
  have "of_nat (Suc f) \<le> (of_nat (length n + 1) :: rat)" using f(3) by (simp only: of_nat_le_iff)
  then have "?out \<longleftrightarrow> of_nat (Suc f) + s < of_nat (Suc c) \<or> of_nat (Suc c) + s < (of_nat (Suc f) :: rat)"
    using assms(2) unfolding p h by auto
  then have v: "agrees s v (prefix_edits n i (Suc c) (Suc f))"
    unfolding v_def using cell_agrees [OF assms(1) f(1) assms(2) u(1) _ u(2)] Suc.prems f(3) by simp
  have d: "drop f i = i ! f # drop (Suc f) i" "drop f us = us ! f # drop (Suc f) us" "hd (drop (Suc f) us) = us ! Suc f"
    using f(1) l by (simp_all add: Cons_nth_drop_Suc hd_drop_conv_nth)
  have e: "fill_row s p h (n ! c) (Suc f) (drop f i) (drop f us) q
      = v # fill_row s p h (n ! c) (Suc (Suc f)) (drop (Suc f) i) (drop (Suc f) us) v"
    by (simp only: d(1,2) fill_row.simps list.sel Let_def d(3) v_def)
  show ?case
  proof (cases j)
    case 0
    then show ?thesis using e v by simp
  next
    case (Suc j')
    then show ?thesis using Suc.hyps(1) [OF f(2), of v j'] Suc.prems v f(1) by (simp add: e)
  qed
qed simp

lemma next_row_ok:
  assumes "c < length n" and "0 \<le> s" and "row_ok s n i c us"
  shows "row_ok s n i (Suc c) (next_row s i (length n) (n ! c) (Suc c) us)"
proof -
  have "agrees s (next_row s i (length n) (n ! c) (Suc c) us ! f) (prefix_edits n i (Suc c) f)"
    if "f \<le> length i" "f \<le> length n + 1" for f
  proof (cases f)
    case 0
    then show ?thesis using assms(1) by (simp add: next_row_def Let_def del: of_nat_Suc)
  next
    case (Suc j)
    then show ?thesis
      using fill_row_agrees [OF assms refl refl, of 0 "of_nat (Suc c)" j] that assms(1)
      by (simp add: next_row_def Let_def del: of_nat_Suc of_nat_add)
  qed
  then show ?thesis by (simp add: row_ok_def next_row_def Let_def)
qed

lemma row_least_gt: "s < row_least vs \<Longrightarrow> v \<in> set vs \<Longrightarrow> s < v"
proof -
  have "fold (\<lambda>v d. if v < d then v else d) vs b \<le> b \<and> (\<forall>v\<in>set vs. fold (\<lambda>v d. if v < d then v else d) vs b \<le> v)" for b :: rat
    by (induction vs arbitrary: b) (simp, simp, meson less_imp_le not_less order_trans)
  then show "s < row_least vs \<Longrightarrow> v \<in> set vs \<Longrightarrow> s < v" unfolding row_least_def by (meson less_le_trans)
qed

text \<open>When a row lies beyond the limit, so do the rows after it.\<close>

lemma row_beyond:
  fixes s :: rat
  assumes "c < length n" and "\<forall>f\<le>length i. s < of_nat (prefix_edits n i c f)"
  shows "f \<le> length i \<Longrightarrow> s < of_nat (prefix_edits n i (Suc c) f)"
proof (induction f)
  case 0
  then have "s < of_nat c" using assms(1) assms(2) [rule_format, of 0] by simp
  then show ?case using assms(1) by simp
next
  case (Suc f)
  then have "s < of_nat (prefix_edits n i c f)" "s < of_nat (prefix_edits n i c (Suc f))" "s < of_nat (prefix_edits n i (Suc c) f)"
    using assms(2) by simp_all
  then show ?case using Suc.prems assms(1) by (auto simp: prefix_edits_Suc of_nat_min min_def)
qed

lemma rows_beyond:
  "c \<le> length n \<Longrightarrow> \<forall>f\<le>length i. s < of_nat (prefix_edits n i c f) \<Longrightarrow> s < (of_nat (least_edits i n) :: rat)"
proof (induction "length n - c" arbitrary: c)
  case 0
  then have "c = length n" by simp
  then show ?case using 0(3) prefix_edits_full [of n i] by auto
next
  case (Suc k)
  then have "k = length n - Suc c" "Suc c \<le> length n" by simp_all
  moreover have "\<forall>f\<le>length i. s < of_nat (prefix_edits n i (Suc c) f)" using row_beyond [OF _ Suc.prems(2)] Suc.hyps(2) by simp
  ultimately show ?case using Suc.hyps(1) by blast
qed

lemma first_column_beyond:
  fixes s :: rat
  assumes "c < length n" and "i \<noteq> []" and "s < of_nat (prefix_edits n i (Suc c) 1)"
  shows "s < of_nat (prefix_edits n i (Suc c) 0)"
proof -
  have "n \<noteq> []" using assms(1) by auto
  moreover obtain y where "take 1 i = [y]" using assms(2) by (cases i) simp_all
  ultimately have "prefix_edits n i (Suc c) 1 \<le> Suc c"
    using least_edits_single [of "rev (take (Suc c) n)" y] assms(1) by (auto simp: prefix_edits_def)
  then have "of_nat (prefix_edits n i (Suc c) 1) \<le> (of_nat (Suc c) :: rat)" by (simp only: of_nat_le_iff)
  then show ?thesis using assms(1,3) by (simp del: of_nat_Suc)
qed

lemma table_rows_agrees:
  assumes "0 \<le> s" and "i \<noteq> []" and "length i \<le> length n + 1"
  shows "c \<le> length n \<Longrightarrow> row_ok s n i c us \<Longrightarrow> agrees s (table_rows s i (length n) (drop c n) (Suc c) us) (least_edits i n)"
proof (induction "length n - c" arbitrary: c us)
  case 0
  then have c: "c = length n" and u: "us \<noteq> []" "length us = length i + 1" by (auto simp: row_ok_def)
  moreover have "agrees s (us ! length i) (prefix_edits n i c (length i))" using 0(3) assms(3) by (simp add: row_ok_def)
  ultimately show ?case using prefix_edits_full [of n i] by (simp add: last_conv_nth)
next
  case (Suc k)
  then have c: "c < length n" "k = length n - Suc c" by simp_all
  let ?r = "next_row s i (length n) (n ! c) (Suc c) us"
  have r: "row_ok s n i (Suc c) ?r" using next_row_ok [OF c(1) assms(1) Suc.prems(2)] .
  have t: "table_rows s i (length n) (drop c n) (Suc c) us
      = (if row_least (tl ?r) > s then s + 1 else table_rows s i (length n) (drop (Suc c) n) (Suc (Suc c)) ?r)"
    using c(1) by (subst Cons_nth_drop_Suc [symmetric]) (simp_all add: Let_def)
  show ?case
  proof (cases "row_least (tl ?r) > s")
    case True
    have "s < of_nat (prefix_edits n i (Suc c) f)" if f: "1 \<le> f" "f \<le> length i" for f
    proof -
      have "?r ! f \<in> set (tl ?r)" using r f by (cases ?r; cases f) (auto simp: row_ok_def)
      then have "\<not> ?r ! f \<le> s" using row_least_gt [OF True] by (simp add: not_le)
      then show ?thesis using agrees_le [of s "?r ! f"] r f assms(3) by (auto simp: row_ok_def not_le)
    qed
    moreover from this have "s < of_nat (prefix_edits n i (Suc c) 0)"
      using first_column_beyond [OF c(1) assms(2)] assms(2) by (simp add: Suc_le_eq)
    ultimately have "\<forall>f\<le>length i. s < of_nat (prefix_edits n i (Suc c) f)" by (metis One_nat_def Suc_leI neq0_conv)
    then show ?thesis using rows_beyond [of "Suc c" n i s] c(1) True by (simp add: t agrees_beyond)
  next
    case False
    then show ?thesis using Suc.hyps(1) [OF c(2) _ r] c(1) by (simp add: t)
  qed
qed

text \<open>A first word that is more than one character longer than the second falls out of the band.\<close>

lemma fill_row_ne [simp]: "ys \<noteq> [] \<Longrightarrow> fill_row s p h x f ys us q \<noteq> []"
  using length_fill_row [of s p h x f ys us q] by (metis length_0_conv)

lemma last_fill_row:
  "ys \<noteq> [] \<Longrightarrow> h < of_nat (f + length ys - 1) \<Longrightarrow> last (fill_row s p h x f ys us q) = s + 1"
proof (induction ys arbitrary: f us q)
  case (Cons y ys)
  show ?case
  proof (cases "ys = []")
    case True
    then show ?thesis using Cons.prems by (simp add: Let_def)
  next
    case False
    then have "last (fill_row s p h x (Suc f) ys vs v) = s + 1" for vs v using Cons.IH [of "Suc f"] Cons.prems(2) by simp
    then show ?thesis using False by (simp add: Let_def)
  qed
qed simp

lemma last_next_row:
  assumes "length i > k + 1"
  shows "last (next_row s i k x c us) = s + 1"
proof -
  have "of_nat (k + 1) < (of_nat (1 + length i - 1) :: rat)" using assms by (simp only: of_nat_less_iff)
  moreover have "i \<noteq> []" using assms by auto
  ultimately show ?thesis by (simp add: next_row_def Let_def last_fill_row del: of_nat_Suc of_nat_add)
qed

lemma table_rows_beyond:
  assumes "length i > k + 1"
  shows "xs \<noteq> [] \<or> last us = s + 1 \<Longrightarrow> table_rows s i k xs c us = s + 1"
proof (induction xs arbitrary: c us)
  case (Cons x xs)
  then show ?case using last_next_row [OF assms] by (simp add: Let_def)
qed simp

lemma word_distance_agrees:
  assumes "0 \<le> s" and "i = [] \<or> n = [] \<or> length i \<le> length n + 1"
  shows "agrees s (word_distance i n s) (least_edits i n)"
proof -
  consider "i = [] \<or> n = []" | "i \<noteq> []" "n \<noteq> []" "\<bar>of_nat (length i) - of_nat (length n)\<bar> > s"
    | "i \<noteq> []" "n \<noteq> []" "\<not> \<bar>of_nat (length i) - of_nat (length n)\<bar> > s" by blast
  then show ?thesis
  proof cases
    case 1
    then show ?thesis by (auto simp: word_distance_def agrees_def min_def)
  next
    case 2
    then have "s < of_nat (prefix_edits n i (length n) (length i))" by (intro prefix_edits_band) auto
    then show ?thesis using 2 by (simp add: word_distance_def prefix_edits_full agrees_beyond)
  next
    case 3
    have "row_ok s n i 0 (map of_nat [0..<length i + 1])" by (simp add: row_ok_def del: upt_Suc)
    then show ?thesis
      using table_rows_agrees [of s i n 0 "map of_nat [0..<length i + 1]"] assms 3 by (simp add: word_distance_def del: upt_Suc)
  qed
qed

text \<open>What the code takes for the distance.\<close>

definition found_within :: "string \<Rightarrow> string \<Rightarrow> rat \<Rightarrow> bool" where
  "found_within i n s \<longleftrightarrow> (i = [] \<or> n = [] \<or> length i \<le> length n + 1) \<and> of_nat (least_edits i n) \<le> s"

lemma word_distance_found:
  assumes "0 \<le> s"
  shows "word_distance i n s \<le> s \<longleftrightarrow> found_within i n s"
    and "found_within i n s \<Longrightarrow> word_distance i n s = of_nat (least_edits i n)"
proof -
  have "word_distance i n s = s + 1" if "\<not> (i = [] \<or> n = [] \<or> length i \<le> length n + 1)"
    using that table_rows_beyond [of "length n" i n] by (simp add: word_distance_def)
  then show "word_distance i n s \<le> s \<longleftrightarrow> found_within i n s"
    using word_distance_agrees [OF assms, of i n] agrees_le by (fastforce simp: found_within_def)
  show "found_within i n s \<Longrightarrow> word_distance i n s = of_nat (least_edits i n)"
    using word_distance_agrees [OF assms, of i n] by (simp add: found_within_def agrees_def)
qed

text \<open>C12. The table gives the edit distance when it is within the limit, and a number beyond the limit otherwise;
  but a word that is two or more characters longer than the other one is never within the limit.\<close>

theorem word_distance_correct:
  assumes "0 \<le> s" and "i \<noteq> []" and "n \<noteq> []"
  shows "(word_distance i n s \<le> s \<longleftrightarrow> length i \<le> length n + 1 \<and> (\<exists>k. edits k i n \<and> of_nat k \<le> s))
    \<and> (word_distance i n s \<le> s \<longrightarrow> (\<exists>k. word_distance i n s = of_nat k \<and> edits k i n \<and> (\<forall>l<k. \<not> edits l i n)))"
proof -
  have "(\<exists>k. edits k i n \<and> of_nat k \<le> s) \<longleftrightarrow> of_nat (least_edits i n) \<le> s"
    using edits_least [of i n] least_edits_le [of _ i n] by (meson of_nat_le_iff order_trans)
  moreover have "\<forall>l<least_edits i n. \<not> edits l i n" using least_edits_le [of _ i n] by (meson not_le)
  ultimately show ?thesis
    using word_distance_found [OF assms(1), of i n] edits_least [of i n] assms(2,3) by (auto simp: found_within_def)
qed

theorem word_distance_correct_witness:
  "\<not> word_distance ''abcd'' ''ab'' 5 \<le> 5 \<and> word_distance ''ab'' ''abcd'' 5 \<le> 5"
proof -
  have "edits 2 ''ab'' ''abcd''" using edits_least [of "''ab''" "''abcd''"] by (simp add: eval_nat_numeral)
  moreover have "rat_of_nat 2 \<le> 5" by simp
  ultimately have "\<exists>k. edits k ''ab'' ''abcd'' \<and> rat_of_nat k \<le> 5" by blast
  then show ?thesis
    using word_distance_correct [of 5 "''abcd''" "''ab''"] word_distance_correct [of 5 "''ab''" "''abcd''"] by simp
qed

section \<open>The nearest key\<close>

definition lower_distance :: "string \<Rightarrow> string \<Rightarrow> nat" where
  "lower_distance i f = least_edits (map latin_lower i) (map latin_lower f)"

text \<open>The keys that may be suggested.\<close>

definition suggestible :: "string \<Rightarrow> string \<Rightarrow> rat \<Rightarrow> bool" where
  "suggestible i f l \<longleftrightarrow> f \<noteq> [] \<and> length i \<le> length f + 1 \<and> of_nat (lower_distance i f) < l"

lemma pick_closest_Cons:
  assumes "i \<noteq> []" and "0 \<le> l"
  shows "pick_closest (map latin_lower i) (f # fs) l c =
    (if suggestible i f l then pick_closest (map latin_lower i) fs (of_nat (lower_distance i f)) (Some f)
     else pick_closest (map latin_lower i) fs l c)"
proof (cases "f = []")
  case False
  let ?p = "word_distance (map latin_lower i) (map latin_lower f) l"
  note d = word_distance_found [OF assms(2), of "map latin_lower i" "map latin_lower f"]
  have "?p < l \<longleftrightarrow> suggestible i f l"
    using d assms(1) False by (auto simp: found_within_def suggestible_def lower_distance_def order_less_le)
  moreover have "?p = of_nat (lower_distance i f)" if "suggestible i f l"
    using d(2) that by (simp add: found_within_def suggestible_def lower_distance_def)
  ultimately show ?thesis using False by (auto simp: Let_def)
qed (simp add: suggestible_def)

text \<open>The first of the nearest ones.\<close>

definition nearest :: "string \<Rightarrow> string list \<Rightarrow> rat \<Rightarrow> string \<Rightarrow> bool" where
  "nearest i ns l f \<longleftrightarrow> suggestible i f l \<and> (\<exists>us vs. ns = us @ f # vs
     \<and> (\<forall>u\<in>set us. suggestible i u l \<longrightarrow> lower_distance i f < lower_distance i u)
     \<and> (\<forall>v\<in>set vs. suggestible i v l \<longrightarrow> lower_distance i f \<le> lower_distance i v))"

lemma suggestible_nearer:
  "suggestible i f l \<Longrightarrow> suggestible i u (of_nat (lower_distance i f)) \<longleftrightarrow> suggestible i u l \<and> lower_distance i u < lower_distance i f"
  by (auto simp: suggestible_def intro: less_trans)

lemma nearest_here:
  assumes "suggestible i f l" and "\<forall>v\<in>set fs. \<not> suggestible i v (of_nat (lower_distance i f))"
  shows "nearest i (f # fs) l f"
  unfolding nearest_def using assms by (simp add: suggestible_nearer not_less, intro exI [of _ "[]"] exI [of _ fs]) auto

lemma nearest_later:
  assumes "suggestible i f l" and "nearest i fs (of_nat (lower_distance i f)) g"
  shows "nearest i (f # fs) l g"
proof -
  obtain us vs where g: "suggestible i g l" "lower_distance i g < lower_distance i f" "fs = us @ g # vs"
      "\<forall>u\<in>set us. suggestible i u l \<and> lower_distance i u < lower_distance i f \<longrightarrow> lower_distance i g < lower_distance i u"
      "\<forall>v\<in>set vs. suggestible i v l \<and> lower_distance i v < lower_distance i f \<longrightarrow> lower_distance i g \<le> lower_distance i v"
    using assms by (auto simp: nearest_def suggestible_nearer)
  then have "\<forall>u\<in>set (f # us). suggestible i u l \<longrightarrow> lower_distance i g < lower_distance i u"
      "\<forall>v\<in>set vs. suggestible i v l \<longrightarrow> lower_distance i g \<le> lower_distance i v"
    by (simp_all, (meson less_le_trans linorder_not_le less_imp_le)+)
  moreover have "f # fs = (f # us) @ g # vs" using g(3) by simp
  ultimately show ?thesis unfolding nearest_def using g(1) by blast
qed

lemma nearest_skip: "\<not> suggestible i f l \<Longrightarrow> nearest i fs l g \<Longrightarrow> nearest i (f # fs) l g"
  unfolding nearest_def by (metis append_Cons set_ConsD)

lemma pick_closest_cases:
  assumes "i \<noteq> []"
  shows "0 \<le> l \<Longrightarrow> (\<forall>f\<in>set fs. \<not> suggestible i f l) \<and> pick_closest (map latin_lower i) fs l c = c
    \<or> (\<exists>f. pick_closest (map latin_lower i) fs l c = Some f \<and> nearest i fs l f)"
proof (induction fs arbitrary: l c)
  case (Cons f fs)
  show ?case
  proof (cases "suggestible i f l")
    case True
    have "(\<forall>v\<in>set fs. \<not> suggestible i v (of_nat (lower_distance i f))) \<and> pick_closest (map latin_lower i) (f # fs) l c = Some f
        \<or> (\<exists>g. pick_closest (map latin_lower i) (f # fs) l c = Some g \<and> nearest i fs (of_nat (lower_distance i f)) g)"
      using Cons.IH [of "of_nat (lower_distance i f)" "Some f"] True by (simp only: pick_closest_Cons [OF assms Cons.prems] if_True of_nat_0_le_iff)
    then show ?thesis using nearest_here [OF True] nearest_later [OF True] by blast
  next
    case False
    have "(\<forall>g\<in>set fs. \<not> suggestible i g l) \<and> pick_closest (map latin_lower i) (f # fs) l c = c
        \<or> (\<exists>g. pick_closest (map latin_lower i) (f # fs) l c = Some g \<and> nearest i fs l g)"
      using Cons.IH [OF Cons.prems, of c] False by (simp only: pick_closest_Cons [OF assms Cons.prems] if_False)
    then show ?thesis using False nearest_skip [OF False] by auto
  qed
qed simp

text \<open>C13. The suggestion is the first of the keys nearest to the name, among those nearer than the limit and at most
  one character shorter than the name, upper and lower case being the same; there is none exactly when
  there is no such key.\<close>

theorem suggestion_is_nearest:
  "case did_you_mean i ns of None \<Rightarrow> filter (\<lambda>f. suggestible i f (first_limit i)) ns = []
   | Some f \<Rightarrow> nearest i ns (first_limit i) f"
proof (cases "i = []")
  case True
  then show ?thesis by (auto simp: did_you_mean_def first_limit_def suggestible_def filter_empty_conv)
next
  case False
  have "0 \<le> first_limit i" by (simp add: first_limit_def)
  then show ?thesis
    using pick_closest_cases [OF False, of "first_limit i" ns None] False by (auto simp: did_you_mean_def filter_empty_conv)
qed

text \<open>A defect: the band ends behind the length of the key and not of the name, so a key that is two characters
  shorter than the name is not suggested, however near it is.\<close>

lemma shorter_key_not_suggested:
  "did_you_mean ''colorsss'' [''colors''] = None \<and> did_you_mean ''colors'' [''colorsss''] = Some ''colorsss''
    \<and> of_nat (lower_distance ''colorsss'' ''colors'') < first_limit ''colorsss''"
  by (simp add: did_you_mean_def first_limit_def lower_distance_def latin_lower_def word_distance_def next_row_def row_least_def
      Let_def of_char_of)

end
