(* ===== verification/Value_Unit.thy ===== *)
theory Value_Unit
  imports Js_Prelude
begin

text \<open>
  The function \<open>unit\<close> of the parser of values in \<open>webgui/tailwind.js\<close> (module \<open>ry\<close>), which takes a
  number off the beginning of a text. The functions below give what is left behind a part of a number;
  the index \<open>e\<close> of the code is the length of the text less what is left.
\<close>

definition digit_char :: "char \<Rightarrow> bool" where
  "digit_char c \<longleftrightarrow> CHR ''0'' \<le> c \<and> c \<le> CHR ''9''"

definition sign_char :: "char \<Rightarrow> bool" where
  "sign_char c \<longleftrightarrow> c = CHR ''+'' \<or> c = CHR ''-''"

definition exponent_char :: "char \<Rightarrow> bool" where
  "exponent_char c \<longleftrightarrow> c = CHR ''e'' \<or> c = CHR ''E''"

text \<open>\<open>U2\<close>: whether a number begins here.\<close>

fun like_unsigned :: "string \<Rightarrow> bool" where
  "like_unsigned [] \<longleftrightarrow> False"
| "like_unsigned (c # cs) \<longleftrightarrow> digit_char c \<or> c = CHR ''.'' \<and> cs \<noteq> [] \<and> digit_char (hd cs)"

fun like_number :: "string \<Rightarrow> bool" where
  "like_number [] \<longleftrightarrow> False"
| "like_number (c # cs) \<longleftrightarrow> (if sign_char c then like_unsigned cs else like_unsigned (c # cs))"

fun after_sign :: "string \<Rightarrow> string" where
  "after_sign [] = []"
| "after_sign (c # cs) = (if sign_char c then cs else c # cs)"

fun after_fraction :: "string \<Rightarrow> string" where
  "after_fraction (c # d # cs) = (if c = CHR ''.'' \<and> digit_char d then dropWhile digit_char cs else c # d # cs)"
| "after_fraction r = r"

fun after_exponent :: "string \<Rightarrow> string" where
  "after_exponent (m # n # cs) =
     (if exponent_char m \<and> digit_char n then dropWhile digit_char cs
      else if exponent_char m \<and> sign_char n \<and> cs \<noteq> [] \<and> digit_char (hd cs) then dropWhile digit_char (tl cs)
      else m # n # cs)"
| "after_exponent r = r"

definition after_number :: "string \<Rightarrow> string" where
  "after_number r = after_exponent (after_fraction (dropWhile digit_char (after_sign r)))"

text \<open>\<open>unit(r)\<close>, the number and the unit, or \<open>false\<close>.\<close>

definition css_unit :: "string \<Rightarrow> (string \<times> string) option" where
  "css_unit r =
     (if like_number r then (let u = after_number r in Some (take (length r - length u) r, u)) else None)"

section \<open>Numbers\<close>

text \<open>The numbers of CSS: a sign, digit_string, a fraction, an exponent.\<close>

definition digit_string :: "string \<Rightarrow> bool" where
  "digit_string s \<longleftrightarrow> s \<noteq> [] \<and> list_all digit_char s"

definition sign_part :: "string \<Rightarrow> bool" where
  "sign_part s \<longleftrightarrow> s = [] \<or> (\<exists>c. s = [c] \<and> sign_char c)"

definition fraction :: "string \<Rightarrow> bool" where
  "fraction s \<longleftrightarrow> (\<exists>ds. s = CHR ''.'' # ds \<and> digit_string ds)"

definition exponent :: "string \<Rightarrow> bool" where
  "exponent s \<longleftrightarrow> (\<exists>m sg ds. s = m # sg @ ds \<and> exponent_char m \<and> sign_part sg \<and> digit_string ds)"

definition css_number :: "string \<Rightarrow> bool" where
  "css_number s \<longleftrightarrow> (\<exists>sg ip fp ex. s = sg @ ip @ fp @ ex \<and> sign_part sg \<and> list_all digit_char ip
     \<and> (fp = [] \<and> ip \<noteq> [] \<or> fraction fp) \<and> (ex = [] \<or> exponent ex))"

section \<open>The longest number\<close>

lemma not_digit [simp]: "\<not> digit_char (CHR ''.'')" "sign_char c \<Longrightarrow> \<not> digit_char c" "exponent_char c \<Longrightarrow> \<not> digit_char c"
  "\<not> sign_char (CHR ''.'')" "\<not> exponent_char (CHR ''.'')"
  by (auto simp: digit_char_def sign_char_def exponent_char_def)

lemma dropWhile_digits_append: "list_all digit_char ds \<Longrightarrow> dropWhile digit_char (ds @ r) = dropWhile digit_char r"
  by (induction ds) simp_all

lemma dropWhile_shorter [simp]: "length (dropWhile P xs) \<le> length xs" "length (dropWhile P xs) \<le> Suc (Suc (length xs))"
    "length (dropWhile P (tl xs)) \<le> Suc (Suc (length xs))"
  using length_dropWhile_le [of P xs] length_dropWhile_le [of P "tl xs"] by simp_all

lemma after_fraction_shorter: "length (after_fraction r) \<le> length r"
  by (cases r rule: after_fraction.cases) simp_all

lemma after_exponent_shorter: "length (after_exponent r) \<le> length r"
  by (cases r rule: after_exponent.cases) simp_all

lemma after_exponent_taken: "exponent ex \<Longrightarrow> length (after_exponent (ex @ r)) \<le> length r"
proof -
  assume "exponent ex"
  then obtain m sg d ds where e: "ex = m # sg @ d # ds" "exponent_char m" "sign_part sg" "digit_char d" "list_all digit_char ds"
    by (auto simp: exponent_def digit_string_def neq_Nil_conv)
  then have "after_exponent (ex @ r) = dropWhile digit_char r"
    by (auto simp: sign_part_def dropWhile_digits_append)
  then show ?thesis by simp
qed

lemma after_fraction_taken:
  "fraction fp \<Longrightarrow> after_fraction (dropWhile digit_char (fp @ r)) = dropWhile digit_char r"
  by (auto simp: fraction_def digit_string_def neq_Nil_conv dropWhile_digits_append)

lemma exponent_kept:
  "exponent ex \<Longrightarrow> dropWhile digit_char (ex @ r) = ex @ r \<and> after_fraction (ex @ r) = ex @ r"
  by (cases "ex @ r" rule: after_fraction.cases) (auto simp: exponent_def)

text \<open>No number that the text begins with is longer.\<close>

lemma number_within:
  assumes "css_number s"
  shows "length (after_number (s @ r)) \<le> length r" and "like_number (s @ r)"
proof -
  obtain sg ip fp ex where s: "s = sg @ ip @ fp @ ex" "sign_part sg" "list_all digit_char ip"
      "fp = [] \<and> ip \<noteq> [] \<or> fraction fp" "ex = [] \<or> exponent ex"
    using assms by (auto simp: css_number_def)
  obtain c cs where c: "ip @ fp @ ex @ r = c # cs" "\<not> sign_char c" "like_unsigned (c # cs)"
  proof (cases ip)
    case Nil
    then show ?thesis using that s(4) by (force simp: fraction_def digit_string_def neq_Nil_conv)
  next
    case (Cons d ds)
    then have "digit_char d" "\<not> sign_char d" using s(3) not_digit(2) [of d] by auto
    then show ?thesis using that [of d] Cons by simp
  qed
  show "like_number (s @ r)" using c s(1,2) by (auto simp: sign_part_def)
  have "after_sign (s @ r) = ip @ fp @ ex @ r" using c s(1,2) by (auto simp: sign_part_def)
  then have "after_number (s @ r) = after_exponent (after_fraction (dropWhile digit_char (fp @ ex @ r)))"
    using s(3) by (simp add: after_number_def dropWhile_digits_append)
  also have "length \<dots> \<le> length r"
    using s(4)
  proof
    assume "fp = [] \<and> ip \<noteq> []"
    then show ?thesis
      using s(5) exponent_kept [of ex r] after_exponent_taken [of ex r]
        order_trans [OF after_exponent_shorter order_trans [OF after_fraction_shorter length_dropWhile_le]] by auto
  next
    assume "fraction fp"
    then show ?thesis
      using s(5) exponent_kept [of ex r] after_exponent_taken [of ex r] order_trans [OF after_exponent_shorter length_dropWhile_le]
      by (auto simp: after_fraction_taken)
  qed
  finally show "length (after_number (s @ r)) \<le> length r" .
qed

text \<open>And what is taken off is a number.\<close>

lemma digits_split: "\<exists>ds. list_all digit_char ds \<and> r = ds @ dropWhile digit_char r"
  by (rule exI [of _ "takeWhile digit_char r"]) (auto simp: list_all_iff dest: set_takeWhileD)

lemma fraction_split: "\<exists>fp. (fp = [] \<or> fraction fp) \<and> r = fp @ after_fraction r \<and> (fp = [] \<longrightarrow> after_fraction r = r)"
proof (cases r rule: after_fraction.cases)
  case (1 c d cs)
  then show ?thesis
  proof (cases "c = CHR ''.'' \<and> digit_char d")
    case True
    moreover obtain ds where "list_all digit_char ds" "cs = ds @ dropWhile digit_char cs" using digits_split by blast
    ultimately show ?thesis using 1 by (intro exI [of _ "c # d # ds"]) (auto simp: fraction_def digit_string_def)
  qed (auto intro: exI [of _ "[]"])
qed (auto intro: exI [of _ "[]"])

lemma exponent_split: "\<exists>ex. (ex = [] \<or> exponent ex) \<and> r = ex @ after_exponent r"
proof (cases r rule: after_exponent.cases)
  case (1 m n cs)
  obtain ds where ds: "list_all digit_char ds" "cs = ds @ dropWhile digit_char cs" using digits_split by blast
  obtain es where es: "list_all digit_char es" "tl cs = es @ dropWhile digit_char (tl cs)" using digits_split by blast
  consider "exponent_char m" "digit_char n" | "exponent_char m" "\<not> digit_char n" "sign_char n" "cs \<noteq> []" "digit_char (hd cs)"
    | "\<not> (exponent_char m \<and> digit_char n)" "\<not> (exponent_char m \<and> sign_char n \<and> cs \<noteq> [] \<and> digit_char (hd cs))" by blast
  then show ?thesis
  proof cases
    case 1
    have "exponent (m # n # ds)"
      unfolding exponent_def by (rule exI [of _ m], rule exI [of _ "[]"], rule exI [of _ "n # ds"]) (use 1 ds(1) in \<open>simp add: sign_part_def digit_string_def\<close>)
    then show ?thesis using 1 \<open>r = m # n # cs\<close> ds(2) by (intro exI [of _ "m # n # ds"]) simp
  next
    case 2
    have "exponent (m # n # hd cs # es)"
      unfolding exponent_def
      by (rule exI [of _ m], rule exI [of _ "[n]"], rule exI [of _ "hd cs # es"]) (use 2 es(1) in \<open>simp add: sign_part_def digit_string_def\<close>)
    then show ?thesis using 2 \<open>r = m # n # cs\<close> es(2) by (intro exI [of _ "m # n # hd cs # es"]) (cases cs, simp_all)
  next
    case 3
    then show ?thesis using 1 by (intro exI [of _ "[]"]) auto
  qed
qed (auto intro: exI [of _ "[]"])

lemma number_taken:
  assumes "like_number r"
  shows "\<exists>s. css_number s \<and> r = s @ after_number r"
proof -
  obtain sg where sg: "sign_part sg" "r = sg @ after_sign r" "like_unsigned (after_sign r)"
    using assms by (cases r) (auto simp: sign_part_def split: if_splits)
  obtain ip where ip: "list_all digit_char ip" "after_sign r = ip @ dropWhile digit_char (after_sign r)" using digits_split by blast
  let ?f = "dropWhile digit_char (after_sign r)"
  obtain fp where fp: "fp = [] \<or> fraction fp" "?f = fp @ after_fraction ?f" "fp = [] \<longrightarrow> after_fraction ?f = ?f" using fraction_split by blast
  obtain ex where ex: "ex = [] \<or> exponent ex" "after_fraction ?f = ex @ after_number r" using exponent_split by (auto simp: after_number_def)
  have "ip \<noteq> [] \<or> fp \<noteq> []"
  proof (rule ccontr)
    assume "\<not> (ip \<noteq> [] \<or> fp \<noteq> [])"
    then have e: "after_fraction (after_sign r) = after_sign r" "dropWhile digit_char (after_sign r) = after_sign r" using ip(2) fp(3) by simp_all
    obtain c cs where c: "after_sign r = c # cs" using sg(3) by (cases "after_sign r") auto
    have "\<not> digit_char c"
    proof
      assume "digit_char c"
      then have "dropWhile digit_char cs = c # cs" using e(2) c by simp
      then show False using length_dropWhile_le [of digit_char cs] by simp
    qed
    then obtain d ds where d: "c = CHR ''.''" "cs = d # ds" "digit_char d" using sg(3) c by (cases cs) auto
    then have "dropWhile digit_char ds = c # cs" using e(1) c by simp
    then show False using length_dropWhile_le [of digit_char ds] d(2) by simp
  qed
  then have "css_number (sg @ ip @ fp @ ex)" unfolding css_number_def using sg(1) ip(1) fp(1) ex(1) by blast
  moreover have "r = (sg @ ip @ fp @ ex) @ after_number r" using sg(2) ip(2) fp(2) ex(2) by (metis append_assoc)
  ultimately show ?thesis by blast
qed

text \<open>C27. What \<open>unit\<close> takes off is the longest number of CSS that the text begins with, and it gives \<open>false\<close>
  exactly when the text does not begin with a number.\<close>

theorem unit_longest_number:
  "case css_unit r of
     None \<Rightarrow> \<not> (\<exists>k. css_number (take k r))
   | Some (n, u) \<Rightarrow> r = n @ u \<and> css_number n \<and> \<not> (\<exists>k. css_number (take k r) \<and> length n < length (take k r))"
proof (cases "like_number r")
  case True
  then obtain s where s: "css_number s" "r = s @ after_number r" using number_taken by blast
  then have l: "length r = length s + length (after_number r)" by (metis length_append)
  then have n: "take (length r - length (after_number r)) r = s" using s(2) by (metis add_diff_cancel_right' append_eq_conv_conj)
  have "length (take k r) \<le> length s" if "css_number (take k r)" for k
    using number_within(1) [OF that, of "drop k r"] l by simp
  then have "\<not> (\<exists>k. css_number (take k r) \<and> length s < length (take k r))" by (meson not_less)
  moreover have "css_unit r = Some (s, after_number r)" using True n by (simp add: css_unit_def Let_def)
  ultimately show ?thesis using s by simp
next
  case False
  then have "\<not> css_number (take k r)" for k using number_within(2) [of "take k r" "drop k r"] by auto
  then show ?thesis using False by (simp add: css_unit_def)
qed

lemma unit_examples:
  "css_unit ''-1.5e3px'' = Some (''-1.5e3'', ''px'')" "css_unit ''2.em'' = Some (''2'', ''.em'')" "css_unit ''.'' = None"
  by (simp_all add: css_unit_def after_number_def sign_char_def digit_char_def exponent_char_def)

end
