(* ===== verification/Css_Escape.thy ===== *)
theory Css_Escape
  imports Js_Prelude
begin

text \<open>
  How a text is written as a name of CSS and read back, in \<open>webgui/tailwind.js\<close>: \<open>La\<close> (cssesc), which the
  nodes of classes use, \<open>Te\<close> with \<open>jt\<close>, by which Tailwind writes the name of a class into a selector, and \<open>V1\<close>
  with \<open>z1\<close> (unesc), by which the parser of selectors reads it. Here a text is the list of its UTF-16
  units, so that names with any character are covered; characters beyond the first plane are pairs of
  surrogates.
\<close>

section \<open>Units\<close>

type_synonym units = "nat list"

definition units_of :: "string \<Rightarrow> units" where
  "units_of s = map of_char s"

definition high_surrogate :: "nat \<Rightarrow> bool" where
  "high_surrogate f \<longleftrightarrow> 55296 \<le> f \<and> f \<le> 56319"

definition low_surrogate :: "nat \<Rightarrow> bool" where
  "low_surrogate p \<longleftrightarrow> 56320 \<le> p \<and> p \<le> 57343"

text \<open>\<open>((f & 1023) << 10) + (p & 1023) + 65536\<close>, and \<open>String.fromCodePoint\<close>.\<close>

definition pair_code_point :: "nat \<Rightarrow> nat \<Rightarrow> nat" where
  "pair_code_point f p = (f mod 1024) * 1024 + p mod 1024 + 65536"

definition from_code_point :: "nat \<Rightarrow> units" where
  "from_code_point n =
     (if n < 65536 then [n] else [55296 + (n - 65536) div 1024, 56320 + (n - 65536) mod 1024])"

section \<open>Writing\<close>

definition bslash :: nat where
  "bslash = 92"

definition upper_hex :: "nat \<Rightarrow> nat" where
  "upper_hex n = (if n < 10 then 48 + n else 55 + n)"

text \<open>\<open>f.toString(16).toUpperCase()\<close>.\<close>

fun to_hex :: "nat \<Rightarrow> units" where
  "to_hex n = (if n < 16 then [upper_hex n] else to_hex (n div 16) @ [upper_hex (n mod 16)])"

declare to_hex.simps [simp del]

definition hex_escape :: "nat \<Rightarrow> units" where
  "hex_escape f = bslash # to_hex f @ [32]"

text \<open>The regular expressions \<open>$k\<close> and \<open>Lk\<close>.\<close>

definition any_special :: "nat \<Rightarrow> bool" where
  "any_special n \<longleftrightarrow>
     32 \<le> n \<and> n \<le> 44 \<or> n = 46 \<or> n = 47 \<or> 58 \<le> n \<and> n \<le> 64 \<or> 91 \<le> n \<and> n \<le> 94 \<or> n = 96 \<or> 123 \<le> n \<and> n \<le> 126"

definition special :: "nat \<Rightarrow> bool" where
  "special c \<longleftrightarrow> any_special c \<and> c \<noteq> bslash"

record esc_options =
  escape_everything :: bool
  is_identifier :: bool
  double_quotes :: bool
  wrap_in_quotes :: bool

definition class_options :: esc_options where
  "class_options = \<lparr>escape_everything = False, is_identifier = True, double_quotes = False, wrap_in_quotes = False\<rparr>"

definition quote_of :: "esc_options \<Rightarrow> nat" where
  "quote_of t = (if double_quotes t then 34 else 39)"

text \<open>One unit in the loop of \<open>La\<close>, and the loop, which takes the two units of a pair together.\<close>

definition escape_char :: "esc_options \<Rightarrow> nat \<Rightarrow> units" where
  "escape_char t c =
     (if c < 32 \<or> c > 126 then hex_escape c
      else if escape_everything t then if any_special c then [bslash, c] else hex_escape c
      else if c = bslash \<or> \<not> is_identifier t \<and> c = quote_of t \<or> is_identifier t \<and> special c then [bslash, c]
      else [c])"

fun escape_loop :: "esc_options \<Rightarrow> units \<Rightarrow> units" where
  "escape_loop t [] = []"
| "escape_loop t [c] = escape_char t c"
| "escape_loop t (c # p # e) =
     (if high_surrogate c \<and> low_surrogate p then hex_escape (pair_code_point c p) @ escape_loop t e
      else escape_char t c @ escape_loop t (p # e))"

definition digit10 :: "nat \<Rightarrow> bool" where
  "digit10 c \<longleftrightarrow> 48 \<le> c \<and> c \<le> 57"

text \<open>The beginning of an identifier: no digit, and neither a digit nor a dash after a dash (45).\<close>

definition escape_start :: "units \<Rightarrow> units \<Rightarrow> units" where
  "escape_start e a =
     (if length a \<ge> 2 \<and> a ! 0 = 45 \<and> (a ! 1 = 45 \<or> digit10 (a ! 1)) then bslash # 45 # tl a
      else if e \<noteq> [] \<and> digit10 (hd e) then bslash # 51 # hd e # 32 # tl a
      else a)"

text \<open>\<open>a.replace(Mk, \<dots>)\<close>: the space after an escape goes if neither a hexadecimal digit nor a space follows it.
  The escape begins with the last of an odd number of backslashes, which is what the flag says.\<close>

definition upper_hex_char :: "nat \<Rightarrow> bool" where
  "upper_hex_char c \<longleftrightarrow> digit10 c \<or> 65 \<le> c \<and> c \<le> 70"

definition hex_char :: "nat \<Rightarrow> bool" where
  "hex_char c \<longleftrightarrow> upper_hex_char c \<or> 97 \<le> c \<and> c \<le> 102"

definition blocks_space :: "units \<Rightarrow> bool" where
  "blocks_space r \<longleftrightarrow> r \<noteq> [] \<and> (hex_char (hd r) \<or> hd r = 32)"

lemma tl_dropWhile_shorter: "dropWhile P (c # cs) \<noteq> [] \<Longrightarrow> length (tl (dropWhile P (c # cs))) < Suc (length cs)"
  using length_dropWhile_le [of P "c # cs"] by (cases "dropWhile P (c # cs)") simp_all

function drop_spaces :: "bool \<Rightarrow> units \<Rightarrow> units" where
  "drop_spaces b [] = []"
| "drop_spaces b (c # cs) =
     (if c = bslash then c # drop_spaces (\<not> b) cs
      else (let hs = takeWhile upper_hex_char (c # cs); r = dropWhile upper_hex_char (c # cs)
            in if b \<and> hs \<noteq> [] \<and> length hs \<le> 6 \<and> r \<noteq> [] \<and> hd r = 32 \<and> \<not> blocks_space (tl r)
               then hs @ drop_spaces False (tl r) else c # drop_spaces False cs))"
  by pat_completeness auto
termination
  by (relation "measure (length \<circ> snd)") (simp_all add: tl_dropWhile_shorter del: dropWhile.simps length_tl)

text \<open>\<open>La\<close>.\<close>

definition cssesc :: "esc_options \<Rightarrow> units \<Rightarrow> units" where
  "cssesc t e =
     (let a = escape_loop t e;
          a = (if is_identifier t then escape_start e a else a);
          a = drop_spaces False a
      in if \<not> is_identifier t \<and> wrap_in_quotes t then quote_of t # a @ [quote_of t] else a)"

text \<open>\<open>jt\<close> (the comma, 44, is written \<open>\2c\<close>) and \<open>Te\<close>.\<close>

fun hex_commas :: "units \<Rightarrow> units" where
  "hex_commas [] = []"
| "hex_commas (c # cs) =
     (if c = bslash \<and> cs \<noteq> [] \<and> hd cs = 44 then bslash # 50 # 99 # 32 # hex_commas (tl cs) else c # hex_commas cs)"

definition escape_class_name :: "units \<Rightarrow> units" where
  "escape_class_name r = hex_commas (cssesc class_options r)"

section \<open>Reading\<close>

definition hex_value :: "nat \<Rightarrow> nat" where
  "hex_value n = (if n < 58 then n - 48 else if n < 71 then n - 55 else n - 87)"

definition parse_hex :: "units \<Rightarrow> nat" where
  "parse_hex s = foldl (\<lambda>n c. 16 * n + hex_value c) 0 s"

text \<open>\<open>z1\<close>: the code point of an escape and how many characters it takes, a space after it included if it is
  within the six characters that are looked at.\<close>

definition read_escape :: "units \<Rightarrow> (nat \<times> nat) option" where
  "read_escape r =
     (let t = takeWhile hex_char (take 6 r); q = dropWhile hex_char (take 6 r);
          i = (q \<noteq> [] \<and> hd q = 32); n = parse_hex t
      in if t = [] then None
         else Some (if 55296 \<le> n \<and> n \<le> 57343 \<or> n = 0 \<or> n > 1114111 then 65533 else n, length t + (if i then 1 else 0)))"

text \<open>\<open>V1\<close>.\<close>

function unescape :: "units \<Rightarrow> units" where
  "unescape [] = []"
| "unescape (c # cs) =
     (if c = bslash then
        (case read_escape cs of
           Some (n, k) \<Rightarrow> from_code_point n @ unescape (drop k cs)
         | None \<Rightarrow>
            if cs \<noteq> [] \<and> hd cs = bslash then bslash # unescape (tl cs)
            else if cs = [] then [bslash] else unescape cs)
      else c # unescape cs)"
  by pat_completeness auto
termination by (relation "measure length") auto

section \<open>Hexadecimal numbers\<close>

declare drop_spaces.simps(2) [simp del] unescape.simps(2) [simp del]

lemma upper_hex_facts: "n < 16 \<Longrightarrow> upper_hex_char (upper_hex n) \<and> hex_value (upper_hex n) = n"
  by (auto simp: upper_hex_def upper_hex_char_def digit10_def hex_value_def)

lemma parse_hex_snoc: "parse_hex (s @ [c]) = 16 * parse_hex s + hex_value c"
  by (simp add: parse_hex_def)

lemma to_hex_facts: "to_hex n \<noteq> [] \<and> list_all upper_hex_char (to_hex n) \<and> parse_hex (to_hex n) = n"
proof (induction n rule: to_hex.induct)
  case (1 n)
  then show ?case
    using upper_hex_facts [of n] upper_hex_facts [of "n mod 16"] parse_hex_snoc [of "[]"]
    by (subst (1 2 3) to_hex.simps) (auto simp: parse_hex_snoc simp: parse_hex_def)
qed

lemma to_hex_length: "n < 16 ^ Suc k \<Longrightarrow> length (to_hex n) \<le> Suc k"
proof (induction k arbitrary: n)
  case 0
  then show ?case by (subst to_hex.simps) simp
next
  case (Suc k)
  then have "n div 16 < 16 ^ Suc k" by (simp add: less_mult_imp_div_less mult.commute)
  then show ?case using Suc.IH [of "n div 16"] by (subst to_hex.simps) auto
qed

text \<open>The digits of an escape: at most five, of the code point \<open>n\<close>, which is no surrogate.\<close>

definition escape_of :: "nat \<Rightarrow> units \<Rightarrow> bool" where
  "escape_of n hs \<longleftrightarrow> hs \<noteq> [] \<and> length hs \<le> 5 \<and> list_all upper_hex_char hs \<and> parse_hex hs = n
     \<and> 0 < n \<and> n < 1048576 \<and> \<not> (55296 \<le> n \<and> n \<le> 57343)"

lemma escape_of_to_hex: "0 < n \<Longrightarrow> n < 1048576 \<Longrightarrow> \<not> (55296 \<le> n \<and> n \<le> 57343) \<Longrightarrow> escape_of n (to_hex n)"
  using to_hex_facts [of n] to_hex_length [of n 4] by (simp add: escape_of_def)

text \<open>Pairs of surrogates and their code points.\<close>

lemma surrogate_pair:
  assumes "high_surrogate c" and "low_surrogate p"
  shows "from_code_point (pair_code_point c p) = [c, p]" and "65536 \<le> pair_code_point c p"
    and "c < 56256 \<Longrightarrow> pair_code_point c p < 1048576"
proof -
  have c: "c mod 1024 = c - 55296"
  proof -
    have "c = 54 * 1024 + (c - 55296)" "c - 55296 < 1024" using assms(1) by (auto simp: high_surrogate_def)
    then show ?thesis by (metis mod_less mod_mult_self3)
  qed
  have p: "p mod 1024 = p - 56320"
  proof -
    have "p = 55 * 1024 + (p - 56320)" "p - 56320 < 1024" using assms(2) by (auto simp: low_surrogate_def)
    then show ?thesis by (metis mod_less mod_mult_self3)
  qed
  have n: "pair_code_point c p - 65536 = (c - 55296) * 1024 + (p - 56320)" by (simp add: pair_code_point_def c p)
  have l: "p - 56320 < 1024" using assms(2) by (auto simp: low_surrogate_def)
  show 1: "65536 \<le> pair_code_point c p" by (simp add: pair_code_point_def)
  have "((c - 55296) * 1024 + (p - 56320)) div 1024 = c - 55296" "((c - 55296) * 1024 + (p - 56320)) mod 1024 = p - 56320"
    using l by simp_all
  then have "from_code_point (pair_code_point c p) = [55296 + (c - 55296), 56320 + (p - 56320)]"
    using 1 unfolding from_code_point_def n by (simp only: not_less [symmetric] if_False)
  then show "from_code_point (pair_code_point c p) = [c, p]" using assms by (simp add: high_surrogate_def low_surrogate_def)
  show "pair_code_point c p < 1048576" if "c < 56256"
    using that assms l by (simp add: pair_code_point_def c p high_surrogate_def)
qed

section \<open>Reading what was written\<close>

lemma bslash_facts [simp]:
  "\<not> upper_hex_char bslash" "\<not> hex_char bslash" "bslash \<noteq> 32" "32 \<noteq> bslash" "bslash \<noteq> 44" "44 \<noteq> bslash"
  "\<not> upper_hex_char 32" "\<not> hex_char 32" "\<not> hex_char 44"
  by (simp_all add: bslash_def upper_hex_char_def hex_char_def digit10_def)

lemma upper_hex_is_hex: "upper_hex_char c \<Longrightarrow> hex_char c"
  by (simp add: hex_char_def)

lemma drop_spaces_plain: "c \<noteq> bslash \<Longrightarrow> drop_spaces False (c # cs) = c # drop_spaces False cs"
  by (simp add: drop_spaces.simps)

lemma drop_spaces_escaped:
  "\<not> upper_hex_char c \<Longrightarrow> drop_spaces False (bslash # c # cs) = bslash # c # drop_spaces False cs"
  by (simp add: drop_spaces.simps)

lemma takeWhile_run: "list_all P hs \<Longrightarrow> \<not> P c \<Longrightarrow> takeWhile P (hs @ c # r) = hs \<and> dropWhile P (hs @ c # r) = c # r"
  by (induction hs) auto

lemma drop_spaces_run:
  "list_all upper_hex_char hs \<Longrightarrow> drop_spaces False (hs @ r) = hs @ drop_spaces False r"
proof (induction hs)
  case (Cons h hs)
  then have "h \<noteq> bslash" by auto
  then show ?case using Cons by (simp add: drop_spaces_plain)
qed simp

lemma drop_spaces_hex:
  assumes "escape_of n hs"
  shows "drop_spaces False (bslash # hs @ 32 # r) = bslash # hs @ (if blocks_space r then [32] else []) @ drop_spaces False r"
proof -
  obtain h ks where h: "hs = h # ks" "upper_hex_char h" "list_all upper_hex_char ks" using assms by (cases hs) (auto simp: escape_of_def)
  then have hb: "h \<noteq> bslash" by auto
  have t: "takeWhile upper_hex_char (hs @ 32 # r) = hs" "dropWhile upper_hex_char (hs @ 32 # r) = 32 # r"
    using takeWhile_run [of upper_hex_char hs "32" r] assms by (simp_all add: escape_of_def)
  have "drop_spaces False (bslash # hs @ 32 # r) = bslash # drop_spaces True (h # ks @ 32 # r)"
    using h(1) by (simp add: drop_spaces.simps)
  also have "drop_spaces True (h # ks @ 32 # r)
      = (if \<not> blocks_space r then hs @ drop_spaces False r else h # drop_spaces False (ks @ 32 # r))"
    using t h(1) hb assms unfolding drop_spaces.simps by (simp add: escape_of_def Let_def)
  finally show ?thesis using drop_spaces_run [OF h(3), of "32 # r"] h(1) by (simp add: drop_spaces_plain)
qed

lemma hex_commas_run: "list_all upper_hex_char hs \<Longrightarrow> hex_commas (hs @ r) = hs @ hex_commas r"
proof (induction hs)
  case (Cons h hs)
  then have "h \<noteq> bslash" by auto
  then show ?case using Cons by simp
qed simp

lemma unescape_plain: "c \<noteq> bslash \<Longrightarrow> unescape (c # r) = c # unescape r"
  by (simp add: unescape.simps)

lemma unescape_escaped:
  assumes "\<not> hex_char c"
  shows "unescape (bslash # c # r) = c # unescape r"
proof -
  have "read_escape (c # r) = None" using assms by (simp add: read_escape_def)
  then show ?thesis by (simp add: unescape.simps)
qed

lemma read_escape_hex:
  assumes "escape_of n hs" and "\<not> (r \<noteq> [] \<and> hex_char (hd r))"
  shows "read_escape (hs @ r) = Some (n, length hs + (if r \<noteq> [] \<and> hd r = 32 then 1 else 0))"
proof -
  have hs: "list_all hex_char hs" "length hs \<le> 5" "hs \<noteq> []" "parse_hex hs = n" "0 < n" "n < 1048576" "\<not> (55296 \<le> n \<and> n \<le> 57343)"
    using assms(1) upper_hex_is_hex by (auto simp: escape_of_def list_all_iff)
  define q where "q = take (6 - length hs) r"
  have t: "take 6 (hs @ r) = hs @ q" using hs(2) by (simp add: q_def)
  have q: "q = [] \<longleftrightarrow> r = []" "q \<noteq> [] \<longrightarrow> hd q = hd r" using hs(2) by (auto simp: q_def)
  have tw: "takeWhile hex_char (hs @ q) = hs \<and> dropWhile hex_char (hs @ q) = q"
  proof (cases q)
    case Nil
    then show ?thesis using hs(1) by (simp add: takeWhile_eq_all_conv dropWhile_eq_Nil_conv list_all_iff)
  next
    case (Cons c q')
    then have "\<not> hex_char c" using q assms(2) by auto
    then show ?thesis using takeWhile_run [OF hs(1)] Cons by simp
  qed
  have e: "(q \<noteq> [] \<and> hd q = 32) = (r \<noteq> [] \<and> hd r = 32)" using q by auto
  show ?thesis
    unfolding read_escape_def Let_def t conjunct1 [OF tw] conjunct2 [OF tw] e hs(4) using hs(3,5,6,7) by simp
qed

lemma unescape_read: "read_escape cs = Some (n, k) \<Longrightarrow> unescape (bslash # cs) = from_code_point n @ unescape (drop k cs)"
  by (subst unescape.simps) simp

lemma unescape_hex:
  assumes "escape_of n hs" and "\<not> blocks_space r"
  shows "unescape (bslash # hs @ 32 # r') = from_code_point n @ unescape r'" and "unescape (bslash # hs @ r) = from_code_point n @ unescape r"
proof -
  show "unescape (bslash # hs @ 32 # r') = from_code_point n @ unescape r'"
    using unescape_read [OF read_escape_hex [OF assms(1), of "32 # r'"]] by simp
  have "read_escape (hs @ r) = Some (n, length hs)"
    using read_escape_hex [OF assms(1), of r] assms(2) by (auto simp: blocks_space_def)
  from unescape_read [OF this] show "unescape (bslash # hs @ r) = from_code_point n @ unescape r" by simp
qed

text \<open>The rest of the text after an escaped or a plain character.\<close>

definition written :: "units \<Rightarrow> units" where
  "written r = hex_commas (drop_spaces False r)"

lemma drop_spaces_head: "\<exists>r. drop_spaces b (c # cs) = c # r"
proof (cases "c = bslash")
  case False
  then show ?thesis by (simp add: drop_spaces.simps Let_def)
qed (simp add: drop_spaces.simps)

lemma written_head: "\<exists>r. written (c # cs) = c # r"
  using drop_spaces_head [of False c cs] by (auto simp: written_def)

lemma written_blocks: "blocks_space (written r) = blocks_space r"
  using written_head [of "hd r" "tl r"] by (cases r) (auto simp: blocks_space_def written_def)

lemma written_plain: "c \<noteq> bslash \<Longrightarrow> written (c # r) = c # written r"
  by (simp add: written_def drop_spaces_plain)

lemma written_escaped:
  "\<not> upper_hex_char c \<Longrightarrow> c \<noteq> bslash \<Longrightarrow> c \<noteq> 44 \<Longrightarrow> written (bslash # c # r) = bslash # c # written r"
  by (simp add: written_def drop_spaces_escaped)

lemma written_comma: "written (bslash # 44 # r) = bslash # 50 # 99 # 32 # written r"
  using drop_spaces_escaped [of "44" r] by (simp add: written_def upper_hex_char_def digit10_def)

lemma written_bslash:
  assumes "r = [] \<or> hd r \<noteq> 44"
  shows "written (bslash # bslash # r) = bslash # bslash # written r"
proof (cases r)
  case (Cons c cs)
  then obtain r' where "drop_spaces False r = c # r'" using drop_spaces_head by blast
  then show ?thesis using assms Cons by (simp add: written_def drop_spaces_escaped)
qed (simp add: written_def drop_spaces_escaped)

lemma written_hex:
  assumes "escape_of n hs"
  shows "written (bslash # hs @ 32 # r) = bslash # hs @ (if blocks_space r then [32] else []) @ written r"
proof -
  obtain h ks where h: "hs = h # ks" "upper_hex_char h" using assms by (cases hs) (auto simp: escape_of_def)
  then have "h \<noteq> 44" by (auto simp: upper_hex_char_def digit10_def)
  then have hc: "hex_commas (bslash # hs @ x) = bslash # hs @ hex_commas x" for x
    using hex_commas_run [of hs x] assms unfolding escape_of_def h(1) append_Cons by (subst hex_commas.simps) simp
  have sp: "hex_commas (32 # x) = 32 # hex_commas x" for x by simp
  show ?thesis
    unfolding written_def drop_spaces_hex [OF assms] hc by (cases "blocks_space r") (simp_all add: sp del: hex_commas.simps(2))
qed

lemma unescape_written_hex:
  assumes "escape_of n hs"
  shows "unescape (written (bslash # hs @ 32 # r)) = from_code_point n @ unescape (written r)"
  using unescape_hex(1) [OF assms, of "[]" "written r"] unescape_hex(2) [OF assms, of "written r"]
  unfolding written_hex [OF assms] by (cases "blocks_space r") (simp_all add: written_blocks blocks_space_def [of "[]"])

text \<open>One unit that is not a surrogate.\<close>

abbreviation class_char :: "nat \<Rightarrow> units" where
  "class_char \<equiv> escape_char class_options"

abbreviation class_units :: "units \<Rightarrow> units" where
  "class_units \<equiv> escape_loop class_options"

lemma class_units_Cons:
  "\<not> high_surrogate c \<Longrightarrow> class_units (c # s) = class_char c @ class_units s"
  by (cases s) simp_all

lemma class_char_head: "class_char c \<noteq> [] \<and> hd (class_char c) \<noteq> 44"
  by (auto simp: escape_char_def class_options_def hex_escape_def special_def any_special_def)

lemma class_units_head: "class_units s = [] \<or> hd (class_units s) \<noteq> 44"
  using class_char_head by (cases "(class_options, s)" rule: escape_loop.cases) (auto simp: hex_escape_def)

lemma special_not_hex: "special c \<Longrightarrow> \<not> hex_char c \<and> \<not> upper_hex_char c"
  by (auto simp: special_def any_special_def hex_char_def upper_hex_char_def digit10_def)

lemma read_class_char:
  assumes "0 < c" and "c < 65536" and "\<not> high_surrogate c" and "\<not> low_surrogate c" and "r = [] \<or> hd r \<noteq> 44"
  shows "unescape (written (class_char c @ r)) = c # unescape (written r)"
proof -
  consider (hex) "c < 32 \<or> c > 126" | (slash) "c = bslash" | (comma) "c = 44"
    | (special) "special c" "c \<noteq> 44" "\<not> (c < 32 \<or> c > 126)" | (plain) "\<not> special c" "c \<noteq> bslash" "\<not> (c < 32 \<or> c > 126)"
    by blast
  then show ?thesis
  proof cases
    case hex
    have "escape_of c (to_hex c)" using assms by (intro escape_of_to_hex) (auto simp: high_surrogate_def low_surrogate_def)
    then show ?thesis using hex unescape_written_hex [of c _ r] assms(2) by (simp add: escape_char_def hex_escape_def from_code_point_def)
  next
    case slash
    then have "class_char c = [bslash, bslash]" by (simp add: escape_char_def class_options_def bslash_def)
    moreover have "unescape (bslash # bslash # x) = bslash # unescape x" for x by (simp add: unescape_escaped)
    ultimately show ?thesis using slash written_bslash [OF assms(5)] by simp
  next
    case comma
    then have "class_char c = [bslash, c]" by (simp add: escape_char_def class_options_def special_def any_special_def bslash_def)
    moreover have "read_escape (50 # 99 # 32 # x) = Some (44, 3)" for x
      by (simp add: read_escape_def hex_char_def upper_hex_char_def digit10_def parse_hex_def hex_value_def)
    ultimately show ?thesis
      using comma unescape_read [of "50 # 99 # 32 # written r" 44 3] by (simp add: written_comma from_code_point_def)
  next
    case special
    then have "class_char c = [bslash, c]" by (auto simp: escape_char_def class_options_def)
    moreover have "c \<noteq> bslash" using special(1) by (simp add: special_def)
    ultimately show ?thesis using special special_not_hex [of c] by (simp add: written_escaped unescape_escaped)
  next
    case plain
    then have "class_char c = [c]" by (auto simp: escape_char_def class_options_def)
    then show ?thesis using plain(2) by (simp add: written_plain unescape_plain)
  qed
qed

text \<open>
  Texts of characters that can be read back: not the character 0, no surrogate without its other half, and
  no character from U+100000 on (the last plane, for private use), whose escape has six digits.
\<close>

fun readable :: "units \<Rightarrow> bool" where
  "readable [] = True"
| "readable (c # s) =
     (if high_surrogate c then
        (case s of [] \<Rightarrow> False | p # e \<Rightarrow> low_surrogate p \<and> c < 56256 \<and> readable e)
      else 0 < c \<and> c < 65536 \<and> \<not> low_surrogate c \<and> readable s)"

lemma read_class_units: "readable s \<Longrightarrow> unescape (written (class_units s)) = s"
proof (induction s rule: readable.induct)
  case 1
  then show ?case by (simp add: written_def)
next
  case (2 c s)
  show ?case
  proof (cases "high_surrogate c")
    case True
    then obtain p e where s: "s = p # e" "low_surrogate p" "c < 56256" "readable e" using "2.prems" by (cases s) auto
    note pair = surrogate_pair [OF True s(2)]
    have "escape_of (pair_code_point c p) (to_hex (pair_code_point c p))"
      using pair(2) pair(3) [OF s(3)] by (intro escape_of_to_hex) simp_all
    moreover have "class_units (c # s) = hex_escape (pair_code_point c p) @ class_units e" using True s(1,2) by simp
    ultimately show ?thesis
      using unescape_written_hex [of "pair_code_point c p" _ "class_units e"] "2.IH"(1) [OF True s(1) s(4)] s(1) pair(1)
      by (simp add: hex_escape_def)
  next
    case False
    then show ?thesis
      using read_class_char [OF _ _ False _ class_units_head, of s] "2.IH"(2) [OF False] "2.prems" by (simp add: class_units_Cons)
  qed
qed

lemma digit_escape: "digit10 d \<Longrightarrow> escape_of d [51, d]"
  by (auto simp: escape_of_def upper_hex_char_def digit10_def parse_hex_def hex_value_def)

lemma class_units_plain: "digit10 c \<or> c = 45 \<Longrightarrow> class_units (c # s) = c # class_units s"
  by (subst class_units_Cons)
    (auto simp: high_surrogate_def escape_char_def class_options_def special_def any_special_def digit10_def bslash_def)

lemma class_units_dash:
  assumes "class_units s \<noteq> []" and "hd (class_units s) = 45"
  shows "\<exists>t. s = 45 # t"
  using assms by (cases "(class_options, s)" rule: escape_loop.cases)
    (auto simp: escape_char_def class_options_def hex_escape_def bslash_def split: if_splits)

lemma escape_start_cases:
  "a \<noteq> [] \<and> hd a = 45 \<and> escape_start e a = bslash # 45 # tl a
    \<or> e \<noteq> [] \<and> digit10 (hd e) \<and> escape_start e a = bslash # 51 # hd e # 32 # tl a \<or> escape_start e a = a"
  by (cases a) (simp_all add: escape_start_def)

lemma readable_tl: "readable (c # t) \<Longrightarrow> \<not> high_surrogate c \<Longrightarrow> readable t"
  by simp

text \<open>C11. A name of a class that Tailwind writes into a selector is read back as it was by the parser of
  selectors, for every text of characters below U+100000, surrogate pairs included, without the
  character 0 and without surrogates that stand alone.\<close>

theorem class_name_roundtrip:
  assumes "readable s"
  shows "unescape (escape_class_name s) = s"
proof -
  have w: "escape_class_name s = written (escape_start s (class_units s))"
    by (simp add: escape_class_name_def cssesc_def written_def class_options_def Let_def)
  consider (dash) "class_units s \<noteq> []" "hd (class_units s) = 45" "escape_start s (class_units s) = bslash # 45 # tl (class_units s)"
    | (digit) "s \<noteq> []" "digit10 (hd s)" "escape_start s (class_units s) = bslash # 51 # hd s # 32 # tl (class_units s)"
    | (same) "escape_start s (class_units s) = class_units s"
    using escape_start_cases [of "class_units s" s] by blast
  then show ?thesis
  proof cases
    case dash
    obtain t where s: "s = 45 # t" using class_units_dash [OF dash(1,2)] by blast
    then have tl: "tl (class_units s) = class_units t" "readable t"
      using class_units_plain [of 45 t] assms by (simp_all add: high_surrogate_def)
    have "written (bslash # 45 # r) = bslash # 45 # written r" for r
      by (rule written_escaped) (simp_all add: upper_hex_char_def digit10_def bslash_def)
    moreover have "unescape (bslash # 45 # r) = 45 # unescape r" for r
      by (rule unescape_escaped) (simp add: hex_char_def upper_hex_char_def digit10_def)
    ultimately show ?thesis using w dash(3) tl(1) read_class_units [OF tl(2)] s by simp
  next
    case digit
    obtain c t where s: "s = c # t" using digit(1) by (cases s) auto
    then have c: "digit10 c" "c < 65536" using digit(2) by (simp_all add: digit10_def)
    then have tl: "tl (class_units s) = class_units t" "readable t"
      using class_units_plain [of c t] assms s by (simp_all add: high_surrogate_def digit10_def)
    show ?thesis
      using w digit(3) s tl(1) unescape_written_hex [OF digit_escape [OF c(1)], of "class_units t"] read_class_units [OF tl(2)] c(2)
      by (simp add: from_code_point_def)
  next
    case same
    then show ?thesis using w read_class_units [OF assms] by simp
  qed
qed

text \<open>The witness: \<open>content-['\<close>, an arrow, an emoji, and \<open>']/2\<close>.\<close>

theorem class_name_roundtrip_witness:
  "unescape (escape_class_name (units_of ''content-['' @ [39, 8594, 55357, 56832, 39] @ units_of '']/2''))
     = units_of ''content-['' @ [39, 8594, 55357, 56832, 39] @ units_of '']/2''"
  by (rule class_name_roundtrip) (simp add: units_of_def high_surrogate_def low_surrogate_def)

text \<open>
  A defect: the space after an escape of six digits is left in the text, since \<open>z1\<close> looks at six
  characters only. U+100000 before a letter that is a hexadecimal digit is read with a space more.
\<close>

lemma six_digits_keep_space:
  "unescape (escape_class_name [56256, 56320, 97]) = [56256, 56320, 32, 97]"
proof -
  have p: "pair_code_point 56256 56320 = 1048576" by (simp add: pair_code_point_def)
  have h: "to_hex 1048576 = [49, 48, 48, 48, 48, 48]" by (simp add: to_hex.simps upper_hex_def)
  have e: "escape_class_name [56256, 56320, 97] = [92, 49, 48, 48, 48, 48, 48, 32, 97]"
    by (simp add: escape_class_name_def cssesc_def class_options_def high_surrogate_def low_surrogate_def p hex_escape_def h
        escape_char_def special_def any_special_def bslash_def escape_start_def digit10_def drop_spaces.simps upper_hex_char_def
        blocks_space_def hex_char_def)
  show ?thesis unfolding e
    by (simp add: unescape.simps bslash_def read_escape_def hex_char_def upper_hex_char_def digit10_def parse_hex_def hex_value_def
        from_code_point_def)
qed

end
