(* ===== verification/Tailwind_Cdn.thy ===== *)
theory Tailwind_Cdn
  imports Js_Prelude
begin

text \<open>
  The loop that keeps the style sheet of the page up to date, at the end of the program of
  \<open>webgui/tailwind.js\<close>: the function \<open>pf\<close>, which collects the classes of the document and compiles
  the new ones, the observers that call it, and the configuration object whose assignments call it.

  The function is asynchronous. It runs without interruption up to its \<open>await\<close>; the compilation reads
  the file \<open>/template.html\<close> later, and later still writes its result. So a page is a state with jobs
  under way, and the three parts of a job are steps that may be interleaved.
\<close>

section \<open>The page\<close>

text \<open>The document: the text of the style elements of type \<open>text/tailwindcss\<close>, the class names of its
  elements in document order, and whether it has a body yet.\<close>

record document =
  styles :: string
  classes :: "string list"
  body :: bool

text \<open>A job of \<open>pf\<close> that waits for its compilation: the value of \<open>_hash\<close>, the text of the styles, and
  the candidates, once the compilation has read the template.\<close>

record job =
  j_hash :: nat
  j_css :: string
  j_read :: "string list option"

text \<open>
  The variables: \<open>seen\<close> is \<open>ff\<close>, \<open>hash\<close> is \<open>Ov\<close>, \<open>last_css\<close> is \<open>Tv\<close>, \<open>first\<close> is \<open>Ev\<close>, \<open>template\<close> is
  \<open>self["/template.html"]\<close>, and \<open>sheet\<close> is the element \<open>Yt\<close>: whether it is connected and its text. The
  compiler keeps the candidates it was given under a configuration: \<open>known\<close> holds them, by \<open>_hash\<close>.
\<close>

record 'css page =
  first :: bool
  hash :: nat
  seen :: "string set"
  last_css :: string
  template :: string
  sheet :: "(bool \<times> 'css) option"
  jobs :: "job list"
  known :: "nat \<Rightarrow> string set"

definition fresh_page :: "'css page" where
  "fresh_page = \<lparr>first = True, hash = 0, seen = {}, last_css = [], template = [], sheet = None, jobs = [],
                 known = (\<lambda>h. {})\<rparr>"

section \<open>A rebuild\<close>

text \<open>The set \<open>t\<close>, in the order of insertion: the classes that are not in \<open>ff\<close>, each once.\<close>

fun new_classes :: "string set \<Rightarrow> string list \<Rightarrow> string list" where
  "new_classes s [] = []"
| "new_classes s (n # ns) = (if n \<in> s then new_classes s ns else n # new_classes (insert n s) ns)"

definition connected :: "'css page \<Rightarrow> bool" where
  "connected p = (case sheet p of Some (c, css) \<Rightarrow> c | None \<Rightarrow> False)"

text \<open>The part of \<open>pf(r)\<close> up to the \<open>await\<close>.\<close>

definition rebuild :: "bool \<Rightarrow> document \<Rightarrow> 'css page \<Rightarrow> 'css page" where
  "rebuild r d p0 =
     (let p = (if r then p0\<lparr>hash := hash p0 + 1, seen := {}\<rparr> else p0);
          t = new_classes (seen p) (classes d)
      in if body d \<and> (first p \<or> t \<noteq> [] \<or> styles d \<noteq> last_css p \<or> \<not> connected p)
         then p\<lparr>seen := seen p \<union> set t, first := False, last_css := styles d, template := join '' '' t,
                jobs := jobs p @ [\<lparr>j_hash = hash p, j_css = styles d, j_read = None\<rparr>]\<rparr>
         else p)"

text \<open>The compilation of job \<open>k\<close> reads the template: \<open>n.split(" ")\<close> are its candidates.\<close>

definition read_template :: "nat \<Rightarrow> 'css page \<Rightarrow> 'css page option" where
  "read_template k p =
     (if k < length (jobs p) \<and> j_read (jobs p ! k) = None then
        let c = split_on (CHR '' '') (template p); j = jobs p ! k
        in Some (p\<lparr>jobs := (jobs p)[k := j\<lparr>j_read := Some c\<rparr>],
                   known := (known p)(j_hash j := known p (j_hash j) \<union> set c)\<rparr>)
      else None)"

text \<open>Job \<open>k\<close> ends: the element is made when there is none in the document, and gets the compiled text.\<close>

definition finish :: "(nat \<Rightarrow> string \<Rightarrow> string set \<Rightarrow> 'css) \<Rightarrow> nat \<Rightarrow> 'css page \<Rightarrow> 'css page option" where
  "finish compile k p =
     (if k < length (jobs p) \<and> j_read (jobs p ! k) \<noteq> None then
        let j = jobs p ! k
        in Some (p\<lparr>sheet := Some (True, compile (j_hash j) (j_css j) (known p (j_hash j))),
                   jobs := take k (jobs p) @ drop (Suc k) (jobs p)\<rparr>)
      else None)"

text \<open>What may happen to the page: a call of \<open>pf\<close>, the two later parts of a job, and that the element of
  the style sheet is taken out of the document.\<close>

datatype event = Call bool document | Read nat | Finish nat | Detach

fun react :: "(nat \<Rightarrow> string \<Rightarrow> string set \<Rightarrow> 'css) \<Rightarrow> event \<Rightarrow> 'css page \<Rightarrow> 'css page option" where
  "react compile (Call r d) p = Some (rebuild r d p)"
| "react compile (Read k) p = read_template k p"
| "react compile (Finish k) p = finish compile k p"
| "react compile Detach p = Some (p\<lparr>sheet := map_option (\<lambda>(c, s). (False, s)) (sheet p)\<rparr>)"

fun reacts :: "(nat \<Rightarrow> string \<Rightarrow> string set \<Rightarrow> 'css) \<Rightarrow> event list \<Rightarrow> 'css page \<Rightarrow> 'css page option" where
  "reacts compile [] p = Some p"
| "reacts compile (e # es) p = (case react compile e p of None \<Rightarrow> None | Some q \<Rightarrow> reacts compile es q)"

section \<open>The observers\<close>

text \<open>A node that was added: its identity, whether it is an element, its tag and the attribute \<open>type\<close>.\<close>

record added_node =
  n_id :: nat
  n_element :: bool
  n_tag :: string
  n_type :: "string option"

definition tailwind_style :: "added_node \<Rightarrow> bool" where
  "tailwind_style n \<longleftrightarrow> n_element n \<and> n_tag n = ''STYLE'' \<and> n_type n = Some ''text/tailwindcss''"

text \<open>
  The callback of the observer of the document: the elements watched for changes of their text (\<open>None\<close>
  before the first call, which adds those that are in the document), and the argument for \<open>pf\<close>.
\<close>

definition observe :: "nat list \<Rightarrow> added_node list list \<Rightarrow> nat list option \<Rightarrow> nat list option \<times> bool" where
  "observe present records watched =
     (let w = (case watched of None \<Rightarrow> present | Some w \<Rightarrow> w);
          added = filter tailwind_style (concat records)
      in (Some (w @ map n_id added), added \<noteq> []))"

section \<open>The configuration object\<close>

text \<open>
  Assignments \<open>window.tailwind.a.b = v\<close> go through proxies: \<open>r\<close> says whether this is the outer one.
  Objects are handed out as proxies inside \<open>config\<close> only; an assignment through a proxy calls \<open>pf(true)\<close>
  unless it replaces another property of the outer object.
\<close>

fun assignment_rebuilds :: "bool \<Rightarrow> string list \<Rightarrow> bool" where
  "assignment_rebuilds r [] = False"
| "assignment_rebuilds r [t] = (\<not> r \<or> t = ''config'')"
| "assignment_rebuilds r (t # u # ts) = ((\<not> r \<or> t = ''config'') \<and> assignment_rebuilds False (u # ts))"

section \<open>The classes that were seen\<close>

lemma set_new_classes: "set (new_classes s ns) = set ns - s"
  by (induction ns arbitrary: s) auto

lemma distinct_new_classes: "distinct (new_classes s ns)"
  by (induction ns arbitrary: s) (auto simp: set_new_classes)

lemma new_classes_Nil: "new_classes s ns = [] \<longleftrightarrow> set ns \<subseteq> s"
  using set_new_classes [of s ns] by (metis Diff_eq_empty_iff set_empty)

text \<open>Names as the class list of an element gives them: not empty and without spaces.\<close>

definition tokens :: "string list \<Rightarrow> bool" where
  "tokens ns \<longleftrightarrow> (\<forall>n\<in>set ns. n \<noteq> [] \<and> CHR '' '' \<notin> set n)"

lemma split_join_tokens:
  assumes "tokens ns"
  shows "set (split_on (CHR '' '') (join '' '' ns)) - {[]} = set ns"
    and "set ns \<subseteq> set (split_on (CHR '' '') (join '' '' ns))"
  using assms split_on_join [of ns "CHR '' ''"] by (cases "ns = []"; force simp: tokens_def)+

lemma tokens_new_classes: "tokens ns \<Longrightarrow> tokens (new_classes s ns)"
  by (simp add: tokens_def set_new_classes)

section \<open>Calls that are not interleaved\<close>

text \<open>A call of \<open>pf\<close> together with the rest of its job.\<close>

definition settle :: "(nat \<Rightarrow> string \<Rightarrow> string set \<Rightarrow> 'css) \<Rightarrow> bool \<Rightarrow> document \<Rightarrow> 'css page \<Rightarrow> 'css page" where
  "settle compile r d p =
     (let q = rebuild r d p
      in if jobs q = [] then q
         else (case reacts compile [Read 0, Finish 0] q of Some q' \<Rightarrow> q' | None \<Rightarrow> q))"

definition needs :: "bool \<Rightarrow> document \<Rightarrow> 'css page \<Rightarrow> bool" where
  "needs r d p \<longleftrightarrow> body d \<and> (first p \<or> \<not> set (classes d) \<subseteq> (if r then {} else seen p)
                           \<or> styles d \<noteq> last_css p \<or> \<not> connected p)"

lemma rebuild_eq:
  fixes r :: bool
  shows "rebuild r d p =
     (let h = (if r then hash p + 1 else hash p); s = (if r then {} else seen p)
      in if needs r d p then
        p\<lparr>hash := h, seen := s \<union> set (classes d), first := False, last_css := styles d,
          template := join '' '' (new_classes s (classes d)),
          jobs := jobs p @ [\<lparr>j_hash = h, j_css = styles d, j_read = None\<rparr>]\<rparr>
      else p\<lparr>hash := h, seen := s\<rparr>)"
  by (cases r) (auto simp: rebuild_def needs_def new_classes_Nil connected_def set_new_classes Let_def)

definition known_after :: "bool \<Rightarrow> document \<Rightarrow> 'css page \<Rightarrow> string set" where
  "known_after r d p = known p (if r then hash p + 1 else hash p)
     \<union> set (split_on (CHR '' '') (join '' '' (new_classes (if r then {} else seen p) (classes d))))"

lemma settle_eq:
  fixes r :: bool
  assumes "jobs p = []"
  shows "settle compile r d p =
     (let h = (if r then hash p + 1 else hash p); s = (if r then {} else seen p)
      in if needs r d p then
        p\<lparr>hash := h, seen := s \<union> set (classes d), first := False, last_css := styles d,
          template := join '' '' (new_classes s (classes d)), jobs := [],
          known := (known p)(h := known_after r d p), sheet := Some (True, compile h (styles d) (known_after r d p))\<rparr>
      else p\<lparr>hash := h, seen := s\<rparr>)"
  unfolding settle_def rebuild_eq Let_def
  by (cases "needs r d p"; cases r) (simp_all add: assms read_template_def finish_def known_after_def Let_def)

text \<open>
  C29. The loop does not feed itself: writing the style sheet is a change of the document that the
  observer sees, and the call of \<open>pf\<close> that it causes finds nothing to do and changes nothing.
\<close>

theorem no_feedback:
  assumes "jobs p = []"
  shows "rebuild False d (settle compile r d p) = settle compile r d p"
  unfolding settle_eq [OF assms] rebuild_eq Let_def by (auto simp: needs_def connected_def)

lemma no_feedback_witness:
  "rebuild False \<lparr>styles = [], classes = [''p-4''], body = True\<rparr>
     (settle (\<lambda>h css k. k) True \<lparr>styles = [], classes = [''p-4''], body = True\<rparr> fresh_page)
   = settle (\<lambda>h css k. k) True \<lparr>styles = [], classes = [''p-4''], body = True\<rparr> fresh_page"
  by (rule no_feedback) (simp add: fresh_page_def)

section \<open>The style sheet that is wanted\<close>

text \<open>
  The specification: the number of changes of the configuration, the classes of the documents since
  the last one, and the styles of the last document.
\<close>

fun want :: "bool \<times> document \<Rightarrow> nat \<times> string set \<times> string \<Rightarrow> nat \<times> string set \<times> string" where
  "want (r, d) (h, k, s) = (if r then (h + 1, set (classes d), styles d) else (h, k \<union> set (classes d), styles d))"

text \<open>A history: calls with the documents they saw; the element may have been detached before each.\<close>

fun turn :: "(nat \<Rightarrow> string \<Rightarrow> string set \<Rightarrow> 'css) \<Rightarrow> bool \<times> bool \<times> document \<Rightarrow> 'css page \<Rightarrow> 'css page" where
  "turn compile (gone, r, d) p =
     settle compile r d (if gone then p\<lparr>sheet := map_option (\<lambda>(c, s). (False, s)) (sheet p)\<rparr> else p)"

definition ordinary :: "bool \<times> bool \<times> document \<Rightarrow> bool" where
  "ordinary t \<longleftrightarrow> (case t of (gone, r, d) \<Rightarrow> body d \<and> tokens (classes d) \<and> (r \<longrightarrow> classes d \<noteq> []))"

definition displays :: "(nat \<Rightarrow> string \<Rightarrow> string set \<Rightarrow> 'css) \<Rightarrow> nat \<times> string set \<times> string \<Rightarrow> 'css page \<Rightarrow> bool" where
  "displays compile w p \<longleftrightarrow>
     (case w of (h, k, s) \<Rightarrow>
        (\<exists>c. sheet p = Some (c, compile h s (known p h))) \<and> known p h - {[]} = k \<and> [] \<notin> k)"

definition synced :: "nat \<times> string set \<times> string \<Rightarrow> 'css page \<Rightarrow> bool" where
  "synced w p \<longleftrightarrow> (case w of (h, k, s) \<Rightarrow>
     jobs p = [] \<and> hash p = h \<and> seen p = k \<and> (\<not> first p \<longrightarrow> last_css p = s)
     \<and> known p h - {[]} = k \<and> [] \<notin> k \<and> (\<forall>i>h. known p i = {}) \<and> (first p \<longrightarrow> sheet p = None))"

lemma synced_fresh: "synced (0, {}, []) fresh_page"
  by (simp add: synced_def fresh_page_def)

lemma settle_synced:
  assumes "synced w p" and "\<not> first p \<longrightarrow> displays compile w p" and "ordinary (gone, r, d)"
  shows "synced (want (r, d) w) (settle compile r d p)" and "displays compile (want (r, d) w) (settle compile r d p)"
proof -
  obtain h k s where w: "w = (h, k, s)" by (cases w) auto
  have j: "jobs p = []" using assms(1) by (simp add: synced_def w)
  have o': "body d" "r \<Longrightarrow> classes d \<noteq> []" "[] \<notin> set (classes d)" "tokens (new_classes x (classes d))" for x
    using assms(3) by (auto simp: ordinary_def tokens_def set_new_classes)
  note n = split_join_tokens(1) [OF o'(4)]
  have "synced (want (r, d) w) (settle compile r d p) \<and> displays compile (want (r, d) w) (settle compile r d p)"
  proof (cases "needs r d p")
    case True
    then show ?thesis
      using assms(1) o'(3) unfolding settle_eq [OF j]
      by (auto simp: w synced_def displays_def Un_Diff n set_new_classes known_after_def Let_def)
  next
    case False
    with o'(1,2) have "\<not> r" "set (classes d) \<subseteq> seen p" "\<not> first p" "styles d = last_css p" "connected p"
      by (auto simp: needs_def split: if_splits)
    then show ?thesis
      using False assms(1,2) unfolding settle_eq [OF j] by (auto simp: w synced_def displays_def Let_def)
  qed
  then show "synced (want (r, d) w) (settle compile r d p)" and "displays compile (want (r, d) w) (settle compile r d p)"
    by simp_all
qed

lemma turn_synced:
  assumes "synced w p" and "\<not> first p \<longrightarrow> displays compile w p" and "ordinary (gone, r, d)"
  shows "synced (want (r, d) w) (turn compile (gone, r, d) p)" and "displays compile (want (r, d) w) (turn compile (gone, r, d) p)"
proof -
  define q where "q = (if gone then p\<lparr>sheet := map_option (\<lambda>(c, s). (False, s)) (sheet p)\<rparr> else p)"
  have "synced w q" "\<not> first q \<longrightarrow> displays compile w q"
    using assms(1,2) by (auto simp: q_def synced_def displays_def split: prod.splits)
  then show "synced (want (r, d) w) (turn compile (gone, r, d) p)" "displays compile (want (r, d) w) (turn compile (gone, r, d) p)"
    using settle_synced assms(3) unfolding turn.simps q_def [symmetric] by blast+
qed

text \<open>
  C8. When jobs are not interleaved, the page refines the specification: after any history of calls, changes
  of the configuration and detached style sheets included, in which the document has a body at every
  call and a class at every change of the configuration, and class names are not empty and have no
  blanks (as \<open>classList\<close> gives them), the text of the style sheet is the compilation, under the current configuration, of the
  current styles and of exactly the classes of the documents since the last change of the
  configuration (the empty candidate apart).
\<close>

theorem sheet_refines_specification:
  assumes "list_all ordinary (t # ts)"
  shows "displays compile (fold (\<lambda>(g, c). want c) (t # ts) (0, {}, [])) (fold (turn compile) (t # ts) fresh_page)"
proof -
  have step: "synced (want (snd t) w) (turn compile t p) \<and> displays compile (want (snd t) w) (turn compile t p)"
    if "synced w p" "\<not> first p \<longrightarrow> displays compile w p" "ordinary t" for w t and p :: "'a page"
    using turn_synced [OF that(1,2), of "fst t" "fst (snd t)" "snd (snd t)"] that(3) by simp
  have "displays compile (fold (\<lambda>(g, c). want c) ts w) (fold (turn compile) ts p)"
    if "synced w p" "displays compile w p" "list_all ordinary ts" for w ts and p :: "'a page"
    using that
  proof (induction ts arbitrary: w p)
    case (Cons t ts)
    then show ?case using step [OF Cons.prems(1), of t] by (cases t) simp
  qed simp
  then show ?thesis
    using step [OF synced_fresh, of t] assms by (cases t) (simp add: fresh_page_def)
qed

text \<open>Two documents: the second has one more class.\<close>

definition doc1 :: document where
  "doc1 = \<lparr>styles = [], classes = [''p-4''], body = True\<rparr>"

definition doc2 :: document where
  "doc2 = \<lparr>styles = [], classes = [''p-4'', ''m-1''], body = True\<rparr>"

lemma sheet_refines_specification_witness:
  "displays (\<lambda>h css k. (h, css, k)) (1, {''p-4'', ''m-1''}, [])
     (fold (turn (\<lambda>h css k. (h, css, k))) [(False, True, doc1), (True, False, doc2)] fresh_page)"
  using sheet_refines_specification [of "(False, True, doc1)" "[(True, False, doc2)]" "\<lambda>h css k. (h, css, k)"]
  by (simp add: ordinary_def tokens_def doc1_def doc2_def insert_commute)

section \<open>Interleaved calls\<close>

text \<open>
  Calls that overlap can lose a class for good: the configuration is assigned, and before the
  compilation of that call reads the template a class is added to the document. The second call
  overwrites the template with the new class alone. At the end no job is under way and the page
  takes every class of the document for known, so that no further call does anything, but the
  compilation under the current configuration was never given the first class.
\<close>

theorem overlapping_calls_lose_a_class:
  "\<exists>p. reacts (\<lambda>h css k. k) [Call True doc1, Call False doc2, Read 0, Read 1, Finish 0, Finish 0] fresh_page = Some p
     \<and> jobs p = [] \<and> rebuild False doc2 p = p \<and> sheet p = Some (True, {''m-1''}) \<and> ''p-4'' \<in> seen p"
  by (simp add: rebuild_def read_template_def finish_def fresh_page_def doc1_def doc2_def connected_def Let_def)

text \<open>
  A change of the configuration does not reach a document without classes whose style sheet is
  up to date: the call forgets the classes but compiles nothing, so the text compiled under the old
  configuration stays.
\<close>

lemma configuration_without_classes:
  assumes "jobs p = []" and "\<not> first p" and "connected p" and "styles d = last_css p" and "classes d = []"
  shows "jobs (rebuild True d p) = []" and "sheet (rebuild True d p) = sheet p"
  using assms unfolding rebuild_eq by (simp_all add: needs_def)

section \<open>What calls the loop\<close>

text \<open>An assignment through the object of the page starts a rebuild exactly when it is to \<open>config\<close> or inside it.\<close>

lemma inner_assignment: "assignment_rebuilds False (t # ts)"
proof (induction ts arbitrary: t)
  case (Cons u ts)
  then show ?case by simp
qed simp

lemma assignment_rebuilds_iff: "assignment_rebuilds True ts \<longleftrightarrow> ts \<noteq> [] \<and> hd ts = ''config''"
  by (cases ts rule: remdups_adj.cases) (simp_all add: inner_assignment)

text \<open>
  The elements watched for changes of their text: after the first call, the style elements that were
  there and the ones that were added since.
\<close>

fun observe_all :: "nat list \<Rightarrow> added_node list list list \<Rightarrow> nat list option \<Rightarrow> nat list option" where
  "observe_all present [] w = w"
| "observe_all present (r # rs) w = observe_all present rs (fst (observe present r w))"

lemma observe_all_watched:
  "observe_all present (r # rs) None = Some (present @ map n_id (filter tailwind_style (concat (concat (r # rs)))))"
proof -
  have "observe_all present rs (Some w) = Some (w @ map n_id (filter tailwind_style (concat (concat rs))))" for w
    by (induction rs arbitrary: w) (simp_all add: observe_def Let_def)
  then show ?thesis by (simp add: observe_def Let_def)
qed

end
