(* ===== verification/Alpine_Scheduler.thy ===== *)
theory Alpine_Scheduler
  imports Js_Prelude
begin

text \<open>
  The scheduler of \<open>webgui/alpine-mini.js\<close>: jobs (the effects of the page) are put into a queue that
  a microtask empties. The functions are \<open>In\<close> (queue), \<open>Ge\<close> (dequeue), \<open>Je\<close> (ask for a flush), \<open>kn\<close>
  (flush), \<open>Ke\<close> and \<open>We\<close> (begin and end of a transaction).
\<close>

section \<open>The state and its operations\<close>

text \<open>
  The variables: \<open>asked\<close> is \<open>re\<close> (a flush was asked for), \<open>flushing\<close> is \<open>ne\<close>, \<open>jobs\<close> is \<open>G\<close>, \<open>last\<close>
  is \<open>ie\<close> (the index of the job that ran last), \<open>batch\<close> is \<open>oe\<close> (a transaction is open). \<open>tasks\<close>
  counts the microtasks \<open>kn\<close> that wait, \<open>ran\<close> lists the jobs that ran.
\<close>

record 'j sched =
  asked :: bool
  flushing :: bool
  jobs :: "'j list"
  last_index :: int
  batch :: bool
  tasks :: nat
  ran :: "'j list"

definition idle_sched :: "'j sched" where
  "idle_sched = \<lparr>asked = False, flushing = False, jobs = [], last_index = -1, batch = False, tasks = 0, ran = []\<rparr>"

definition ask_flush :: "'j sched \<Rightarrow> 'j sched" where
  "ask_flush s =
     (if \<not> flushing s \<and> \<not> asked s then
        (if batch s then s else s\<lparr>asked := True, tasks := tasks s + 1\<rparr>)
      else s)"

definition queue_job :: "'j \<Rightarrow> 'j sched \<Rightarrow> 'j sched" where
  "queue_job t s = ask_flush (if t \<in> set (jobs s) then s else s\<lparr>jobs := jobs s @ [t]\<rparr>)"

fun index_of :: "'j \<Rightarrow> 'j list \<Rightarrow> nat option" where
  "index_of t [] = None"
| "index_of t (x # xs) = (if x = t then Some 0 else map_option Suc (index_of t xs))"

definition dequeue_job :: "'j \<Rightarrow> 'j sched \<Rightarrow> 'j sched" where
  "dequeue_job t s =
     (case index_of t (jobs s) of
        Some e \<Rightarrow> if int e > last_index s then s\<lparr>jobs := take e (jobs s) @ drop (Suc e) (jobs s)\<rparr> else s
      | None \<Rightarrow> s)"

definition open_batch :: "'j sched \<Rightarrow> 'j sched" where
  "open_batch s = s\<lparr>batch := True\<rparr>"

definition close_batch :: "'j sched \<Rightarrow> 'j sched" where
  "close_batch s = ask_flush (s\<lparr>batch := False\<rparr>)"

section \<open>Jobs\<close>

text \<open>What a job does to the scheduler, up to its end or to an exception that it lets through.\<close>

datatype 'j act = Queue 'j | Dequeue 'j | Open | Close | Fail

fun perform :: "'j act list \<Rightarrow> 'j sched \<Rightarrow> 'j sched \<times> bool" where
  "perform [] s = (s, False)"
| "perform (Queue t # as) s = perform as (queue_job t s)"
| "perform (Dequeue t # as) s = perform as (dequeue_job t s)"
| "perform (Open # as) s = perform as (open_batch s)"
| "perform (Close # as) s = perform as (close_batch s)"
| "perform (Fail # as) s = (s, True)"

text \<open>
  The loop of the flush from index \<open>t\<close>. What the job at an index does is \<open>prog\<close>; it may depend on
  anything. An exception leaves the flush as it is.
\<close>

definition run_job :: "(nat \<Rightarrow> 'j \<Rightarrow> 'j act list) \<Rightarrow> nat \<Rightarrow> 'j sched \<Rightarrow> 'j sched \<times> bool" where
  "run_job prog t s =
     (let j = jobs s ! t; (s', failed) = perform (prog t j) (s\<lparr>ran := ran s @ [j]\<rparr>)
      in (if failed then s' else s'\<lparr>last_index := int t\<rparr>, failed))"

definition end_flush :: "'j sched \<Rightarrow> 'j sched" where
  "end_flush s = s\<lparr>jobs := [], last_index := -1, flushing := False\<rparr>"

partial_function (option) flush_from :: "(nat \<Rightarrow> 'j \<Rightarrow> 'j act list) \<Rightarrow> nat \<Rightarrow> 'j sched \<Rightarrow> 'j sched option" where
  "flush_from prog t s =
     (if t < length (jobs s) then
        (if snd (run_job prog t s) then Some (fst (run_job prog t s))
         else flush_from prog (Suc t) (fst (run_job prog t s)))
      else Some (end_flush s))"

definition flush :: "(nat \<Rightarrow> 'j \<Rightarrow> 'j act list) \<Rightarrow> 'j sched \<Rightarrow> 'j sched option" where
  "flush prog s = flush_from prog 0 (s\<lparr>asked := False, flushing := True\<rparr>)"

text \<open>What happens to the scheduler between tasks: calls from elsewhere, and the microtask.\<close>

datatype 'j happening = Calls "'j act list" | Microtask "nat \<Rightarrow> 'j \<Rightarrow> 'j act list"

fun happen :: "'j happening \<Rightarrow> 'j sched \<Rightarrow> 'j sched option" where
  "happen (Calls as) s = Some (fst (perform as s))"
| "happen (Microtask prog) s = (if tasks s = 0 then None else flush prog (s\<lparr>tasks := tasks s - 1\<rparr>))"

inductive reachable :: "'j sched \<Rightarrow> bool" where
  start: "reachable idle_sched"
| step: "reachable s \<Longrightarrow> happen h s = Some s' \<Longrightarrow> reachable s'"

section \<open>The invariant\<close>

definition sched_inv :: "'j sched \<Rightarrow> bool" where
  "sched_inv s \<longleftrightarrow>
     distinct (jobs s) \<and> tasks s = of_bool (asked s)
     \<and> (flushing s \<longrightarrow> \<not> asked s)
     \<and> (\<not> flushing s \<longrightarrow> last_index s = -1 \<and> (jobs s \<noteq> [] \<longrightarrow> asked s \<or> batch s))"

lemma index_of_Some:
  "index_of t xs = Some e \<Longrightarrow> e < length xs \<and> xs ! e = t \<and> t \<notin> set (take e xs)"
  by (induction xs arbitrary: e) (auto split: if_splits simp: nth_Cons split: nat.splits)

lemma index_of_None: "index_of t xs = None \<longleftrightarrow> t \<notin> set xs"
  by (induction xs) auto

lemma set_cut: "set (take e xs @ drop (Suc e) xs) \<subseteq> set xs"
  by (auto dest: in_set_takeD in_set_dropD)

lemma distinct_cut: "distinct xs \<Longrightarrow> distinct (take e xs @ drop (Suc e) xs)"
  using distinct_take distinct_drop set_take_disj_set_drop_if_distinct [of xs e "Suc e"] by (auto simp: disjoint_iff)

lemma dequeue_job_inv: "sched_inv s \<Longrightarrow> sched_inv (dequeue_job t s)"
  by (auto simp: sched_inv_def dequeue_job_def simp del: distinct_append set_append intro: distinct_cut split: option.splits)

lemma queue_job_inv: "sched_inv s \<Longrightarrow> sched_inv (queue_job t s)"
  by (cases "flushing s"; cases "asked s"; cases "batch s") (auto simp: sched_inv_def queue_job_def ask_flush_def)

lemma open_batch_inv: "sched_inv s \<Longrightarrow> sched_inv (open_batch s)"
  by (auto simp: sched_inv_def open_batch_def)

lemma close_batch_inv: "sched_inv s \<Longrightarrow> sched_inv (close_batch s)"
  by (cases "flushing s"; cases "asked s") (auto simp: sched_inv_def close_batch_def ask_flush_def)

lemmas op_inv = queue_job_inv dequeue_job_inv open_batch_inv close_batch_inv

lemma perform_inv: "sched_inv s \<Longrightarrow> sched_inv (fst (perform as s))"
  by (induction as s rule: perform.induct) (simp_all add: op_inv)

lemma perform_keeps [simp]:
  "flushing (fst (perform as s)) = flushing s" "last_index (fst (perform as s)) = last_index s"
  "ran (fst (perform as s)) = ran s"
  by (induction as s rule: perform.induct)
     (auto simp: queue_job_def dequeue_job_def open_batch_def close_batch_def ask_flush_def split: option.splits)

lemma run_job_inv:
  assumes "sched_inv s" and "flushing s"
  shows "sched_inv (fst (run_job prog t s))" and "flushing (fst (run_job prog t s))"
proof -
  let ?s = "s\<lparr>ran := ran s @ [jobs s ! t]\<rparr>"
  have "sched_inv ?s" using assms by (simp add: sched_inv_def)
  from perform_inv [OF this, of "prog t (jobs s ! t)"] perform_keeps(1) [of "prog t (jobs s ! t)" ?s]
  show "sched_inv (fst (run_job prog t s))" and "flushing (fst (run_job prog t s))"
    using assms by (auto simp: run_job_def Let_def split_def sched_inv_def)
qed

lemma end_flush_inv: "sched_inv s \<Longrightarrow> flushing s \<Longrightarrow> sched_inv (end_flush s)"
  by (simp add: sched_inv_def end_flush_def)

lemma flush_from_inv:
  assumes ret: "flush_from prog t s = Some s'" and "sched_inv s" and "flushing s"
  shows "sched_inv s'"
proof -
  have "sched_inv s \<and> flushing s \<longrightarrow> sched_inv s'"
  proof (rule flush_from.raw_induct [where P = "\<lambda>prog t s s'. sched_inv s \<and> flushing s \<longrightarrow> sched_inv s'", OF _ ret])
    fix rec prog t and s s' :: "'a sched"
    assume IH: "\<And>prog t s s'. rec prog t s = Some s' \<Longrightarrow> sched_inv s \<and> flushing s \<longrightarrow> sched_inv s'"
      and eq: "(if t < length (jobs s) then
        (if snd (run_job prog t s) then Some (fst (run_job prog t s)) else rec prog (Suc t) (fst (run_job prog t s)))
      else Some (end_flush s)) = Some s'"
    show "sched_inv s \<and> flushing s \<longrightarrow> sched_inv s'"
      using eq IH run_job_inv [of s prog t] end_flush_inv [of s] by (auto split: if_splits)
  qed
  then show ?thesis using assms by blast
qed

lemma happen_inv:
  assumes "happen h s = Some s'" and "sched_inv s"
  shows "sched_inv s'"
proof (cases h)
  case (Calls as)
  then show ?thesis using assms perform_inv [OF assms(2), of as] by auto
next
  case (Microtask prog)
  then have t: "tasks s \<noteq> 0" "flush_from prog 0 (s\<lparr>tasks := tasks s - 1, asked := False, flushing := True\<rparr>) = Some s'"
    using assms(1) by (auto simp: flush_def split: if_splits)
  show ?thesis by (rule flush_from_inv [OF t(2)]) (use t(1) assms(2) in \<open>auto simp: sched_inv_def\<close>)
qed

lemma reachable_inv: "reachable s \<Longrightarrow> sched_inv s"
proof (induction rule: reachable.induct)
  case start
  show ?case by (simp add: sched_inv_def idle_sched_def)
qed (rule happen_inv)

text \<open>
  C17. No wake-up is lost and none is doubled: in every state between tasks that the page can reach,
  the queue has no duplicates, at most one flush waits, and jobs in the queue mean that a flush
  waits, or that the transaction that will ask for one is still open, or that a flush was left by
  an exception.
\<close>

theorem no_lost_wakeup:
  assumes "reachable s"
  shows "distinct (jobs s) \<and> tasks s \<le> 1 \<and> (jobs s = [] \<or> tasks s = 1 \<or> batch s \<or> flushing s)"
  using reachable_inv [OF assms] by (auto simp: sched_inv_def)

section \<open>The specification of a flush\<close>

text \<open>
  Abstractly the jobs of a flush are those that are done (the running one included) and those that
  are to do; a job is put at the end of those to do unless it is among either, and one to do can be
  taken out.
\<close>

fun spec_perform :: "'j act list \<Rightarrow> 'j list \<Rightarrow> 'j list \<Rightarrow> 'j list" where
  "spec_perform [] don todo = todo"
| "spec_perform (Queue t # as) don todo =
     spec_perform as don (if t \<in> set don \<union> set todo then todo else todo @ [t])"
| "spec_perform (Dequeue t # as) don todo = spec_perform as don (removeAll t todo)"
| "spec_perform (a # as) don todo = spec_perform as don todo"

inductive drains :: "(nat \<Rightarrow> 'j \<Rightarrow> 'j act list) \<Rightarrow> 'j list \<Rightarrow> 'j list \<Rightarrow> 'j list \<Rightarrow> bool" for prog where
  done_all: "drains prog don [] don"
| one: "drains prog (don @ [j]) (spec_perform (prog (length don) j) (don @ [j]) todo) res \<Longrightarrow> drains prog don (j # todo) res"

inductive_cases drains_Nil [elim!]: "drains prog don [] res"
inductive_cases drains_Cons [elim!]: "drains prog don (j # todo) res"

lemma spec_perform_distinct:
  "distinct (don @ todo) \<Longrightarrow> distinct (don @ spec_perform as don todo)"
proof (induction as don todo rule: spec_perform.induct)
  case (3 t as don todo)
  then show ?case by (auto simp: distinct_removeAll)
qed auto

lemma drains_distinct: "drains prog don todo res \<Longrightarrow> distinct (don @ todo) \<Longrightarrow> distinct res \<and> (\<exists>ys. res = don @ ys)"
proof (induction rule: drains.induct)
  case (one don j todo res)
  then show ?case using spec_perform_distinct [of "don @ [j]" todo] by auto
qed auto

text \<open>Jobs that do not let exceptions through and do not dequeue themselves.\<close>

definition well_behaved :: "(nat \<Rightarrow> 'j \<Rightarrow> 'j act list) \<Rightarrow> bool" where
  "well_behaved prog \<longleftrightarrow> (\<forall>t j. Fail \<notin> set (prog t j) \<and> Dequeue j \<notin> set (prog t j))"

lemma removeAll_cut:
  "distinct xs \<Longrightarrow> index_of t xs = Some e \<Longrightarrow> take e xs @ drop (Suc e) xs = removeAll t xs"
proof (induction xs arbitrary: e)
  case (Cons x xs)
  then show ?case by (auto split: if_splits)
qed simp

lemma index_of_append:
  "index_of t (xs @ ys) = (case index_of t xs of Some e \<Rightarrow> Some e | None \<Rightarrow> map_option ((+) (length xs)) (index_of t ys))"
  by (cases "index_of t ys"; induction xs) (auto split: option.splits)

lemma dequeue_job_split:
  assumes "jobs s = don @ todo" and "distinct (don @ todo)" and "last_index s = int (length don) - 2"
    and "don \<noteq> []" and "t \<noteq> last don"
  shows "jobs (dequeue_job t s) = don @ removeAll t todo"
proof (cases "index_of t don")
  case (Some e)
  then have e: "e < length don" "don ! e = t" using index_of_Some [OF Some] by simp_all
  then have "t \<in> set don" by auto
  then have n: "t \<notin> set todo" using assms(2) by auto
  moreover have "e \<noteq> length don - 1" using e(2) assms(4,5) by (auto simp: last_conv_nth)
  ultimately have "\<not> int e > last_index s" using assms(3) e(1) by linarith
  then show ?thesis using Some n assms(1) by (simp add: dequeue_job_def index_of_append)
next
  case None
  then have "t \<notin> set don" by (simp add: index_of_None)
  show ?thesis
  proof (cases "index_of t todo")
    case None
    then have "t \<notin> set todo" by (simp add: index_of_None)
    then show ?thesis using None \<open>index_of t don = None\<close> assms(1) by (simp add: dequeue_job_def index_of_append)
  next
    case (Some e)
    then have "take e todo @ drop (Suc e) todo = removeAll t todo" using assms(2) by (intro removeAll_cut) auto
    then show ?thesis using Some None assms(1,3) by (simp add: dequeue_job_def index_of_append)
  qed
qed

lemma perform_spec:
  assumes "jobs s = don @ todo" and "distinct (don @ todo)" and "last_index s = int (length don) - 2"
    and "don \<noteq> []" and "flushing s" and "Fail \<notin> set as" and "Dequeue (last don) \<notin> set as"
  shows "jobs (fst (perform as s)) = don @ spec_perform as don todo \<and> \<not> snd (perform as s)"
  using assms
proof (induction as s arbitrary: todo rule: perform.induct)
  case (2 t as s)
  have "jobs (queue_job t s) = don @ (if t \<in> set don \<union> set todo then todo else todo @ [t])"
    using 2(2,6) by (auto simp: queue_job_def ask_flush_def)
  moreover have "last_index (queue_job t s) = last_index s" "flushing (queue_job t s)"
    using 2(6) by (auto simp: queue_job_def ask_flush_def)
  ultimately show ?case using 2 by (auto simp: 2(2))
next
  case (3 t as s)
  have "jobs (dequeue_job t s) = don @ removeAll t todo"
    using 3 by (intro dequeue_job_split) auto
  moreover have "last_index (dequeue_job t s) = last_index s" "flushing (dequeue_job t s)"
    using 3(6) by (auto simp: dequeue_job_def split: option.splits)
  ultimately show ?case using 3 by (auto simp: distinct_removeAll)
qed (auto simp: open_batch_def close_batch_def ask_flush_def)

lemma run_job_spec:
  assumes "jobs s = don @ j # todo" and "distinct (jobs s)" and "last_index s = int (length don) - 1"
    and "flushing s" and "well_behaved prog"
  defines "s' \<equiv> fst (run_job prog (length don) s)"
  shows "jobs s' = (don @ [j]) @ spec_perform (prog (length don) j) (don @ [j]) todo"
    and "\<not> snd (run_job prog (length don) s)"
    and "last_index s' = int (length don)" and "flushing s'" and "ran s' = ran s @ [j]"
proof -
  let ?s = "s\<lparr>ran := ran s @ [j]\<rparr>"
  have "jobs (fst (perform (prog (length don) j) ?s)) = (don @ [j]) @ spec_perform (prog (length don) j) (don @ [j]) todo
      \<and> \<not> snd (perform (prog (length don) j) ?s)"
    using assms by (intro perform_spec) (auto simp: well_behaved_def)
  then show "jobs s' = (don @ [j]) @ spec_perform (prog (length don) j) (don @ [j]) todo"
    "\<not> snd (run_job prog (length don) s)" "last_index s' = int (length don)" "flushing s'" "ran s' = ran s @ [j]"
    using assms(1,4) by (auto simp: s'_def run_job_def Let_def split_def nth_append)
qed

lemma flush_from_spec:
  assumes "drains prog don todo res" and "well_behaved prog"
    and "jobs s = don @ todo" and "distinct (jobs s)" and "last_index s = int (length don) - 1" and "flushing s"
  shows "\<exists>s'. flush_from prog (length don) s = Some s' \<and> don @ drop (length (ran s)) (ran s') = res
     \<and> take (length (ran s)) (ran s') = ran s \<and> jobs s' = [] \<and> \<not> flushing s'"
  using assms
proof (induction arbitrary: s rule: drains.induct)
  case (done_all don)
  then show ?case by (subst flush_from.simps) (simp add: end_flush_def)
next
  case (one don j todo res)
  let ?s = "fst (run_job prog (length don) s)"
  note r = run_job_spec [OF one(4,5,6,7,3)]
  have "distinct (jobs ?s)" unfolding r(1) using one(4,5) by (intro spec_perform_distinct) auto
  with one.IH [OF one(3) r(1)] r obtain s' where s': "flush_from prog (length (don @ [j])) ?s = Some s'"
    "(don @ [j]) @ drop (length (ran ?s)) (ran s') = res" "take (length (ran ?s)) (ran s') = ran ?s" "jobs s' = []" "\<not> flushing s'"
    by auto
  have "flush_from prog (length don) s = Some s'"
    using s'(1) r(2) one(4) by (subst flush_from.simps) simp
  moreover have "ran s' = ran s @ j # drop (Suc (length (ran s))) (ran s')"
    using s'(3) r(5) append_take_drop_id [of "Suc (length (ran s))" "ran s'"] by simp
  ultimately show ?case using s' r(5) by (metis append.assoc append_Cons append_Nil append_eq_conv_conj length_append_singleton)
qed

section \<open>A flush ends\<close>

text \<open>All jobs, those in the queue and those that may be queued during the flush, are in \<open>U\<close>.\<close>

definition within :: "'j set \<Rightarrow> (nat \<Rightarrow> 'j \<Rightarrow> 'j act list) \<Rightarrow> 'j sched \<Rightarrow> bool" where
  "within U prog s \<longleftrightarrow> set (jobs s) \<subseteq> U \<and> (\<forall>t j u. Queue u \<in> set (prog t j) \<longrightarrow> u \<in> U)"

lemma perform_jobs:
  "distinct (jobs s) \<Longrightarrow> set (jobs s) \<subseteq> U \<Longrightarrow> \<forall>u. Queue u \<in> set as \<longrightarrow> u \<in> U \<Longrightarrow>
   distinct (jobs (fst (perform as s))) \<and> set (jobs (fst (perform as s))) \<subseteq> U"
proof (induction as s rule: perform.induct)
  case (2 t as s)
  then show ?case by (auto simp: queue_job_def ask_flush_def)
next
  case (3 t as s)
  have "distinct (jobs (dequeue_job t s)) \<and> set (jobs (dequeue_job t s)) \<subseteq> set (jobs s)"
    using 3(2) distinct_cut [OF 3(2)] set_cut [of _ "jobs s"] by (simp add: dequeue_job_def del: distinct_append set_append split: option.split)
  then show ?case using 3 by auto
qed (auto simp: open_batch_def close_batch_def ask_flush_def)

lemma run_job_jobs:
  assumes "distinct (jobs s)" and "within U prog s"
  shows "distinct (jobs (fst (run_job prog t s))) \<and> within U prog (fst (run_job prog t s))"
  using perform_jobs [of "s\<lparr>ran := ran s @ [jobs s ! t]\<rparr>" U "prog t (jobs s ! t)"] assms
  by (auto simp: run_job_def Let_def split_def within_def)

lemma flush_from_returns:
  assumes "finite U" and "distinct (jobs s)" and "within U prog s"
  shows "\<exists>s'. flush_from prog t s = Some s'"
  using assms(2,3)
proof (induction "card U - t" arbitrary: t s rule: less_induct)
  case less
  show ?case
  proof (cases "t < length (jobs s)")
    case True
    have "length (jobs s) \<le> card U"
      using less.prems card_mono [OF assms(1), of "set (jobs s)"] by (simp add: within_def distinct_card)
    then show ?thesis
      using True less.hyps [of "Suc t" "fst (run_job prog t s)"] run_job_jobs [OF less.prems, of t]
      by (subst flush_from.simps) auto
  qed (subst flush_from.simps, simp)
qed

lemma within_simps [simp]:
  "within U prog (s\<lparr>asked := a, flushing := b\<rparr>) = within U prog s"
  by (simp add: within_def)

text \<open>
  C28. Every flush ends when the jobs are finitely many, whatever they queue, dequeue (themselves
  included) or throw, also when each of them queues all the others again and again.
\<close>

theorem flush_ends:
  assumes "finite U" and "within U prog s" and "reachable s"
  shows "\<exists>s'. flush prog s = Some s'"
  unfolding flush_def
  by (rule flush_from_returns [OF assms(1)]) (use assms(2) reachable_inv [OF assms(3)] in \<open>simp_all add: sched_inv_def\<close>)

lemma spec_perform_within:
  "set todo \<subseteq> U \<Longrightarrow> \<forall>u. Queue u \<in> set as \<longrightarrow> u \<in> U \<Longrightarrow> set (spec_perform as don todo) \<subseteq> U"
  by (induction as don todo rule: spec_perform.induct) auto

lemma drains_exists:
  assumes "finite U" and "\<forall>t j u. Queue u \<in> set (prog t j) \<longrightarrow> u \<in> U" and "distinct (don @ todo)" and "set (don @ todo) \<subseteq> U"
  shows "\<exists>res. drains prog don todo res"
  using assms(3,4)
proof (induction "card U - length don" arbitrary: don todo rule: less_induct)
  case less
  show ?case
  proof (cases todo)
    case Nil
    then show ?thesis by (auto intro: drains.intros)
  next
    case (Cons j todo')
    have "length (don @ todo) \<le> card U"
      using less.prems card_mono [OF assms(1), of "set (don @ todo)"] distinct_card [of "don @ todo"] by simp
    then have "card U - length (don @ [j]) < card U - length don" using Cons by simp
    moreover have "distinct ((don @ [j]) @ spec_perform (prog (length don) j) (don @ [j]) todo')"
      using less.prems Cons by (intro spec_perform_distinct) auto
    moreover have "set (spec_perform (prog (length don) j) (don @ [j]) todo') \<subseteq> U"
      using less.prems Cons assms(2) by (intro spec_perform_within) auto
    ultimately obtain res where "drains prog (don @ [j]) (spec_perform (prog (length don) j) (don @ [j]) todo') res"
      using less.hyps [of "don @ [j]" "spec_perform (prog (length don) j) (don @ [j]) todo'"] less.prems Cons by auto
    then show ?thesis using Cons by (auto intro: drains.intros)
  qed
qed

text \<open>
  C4. When no job throws or dequeues itself and only finitely many jobs can be queued, a flush refines the abstract queue: the jobs run in the
  order in which the abstract queue drains, each at most once, and afterwards the queue is empty and
  the scheduler is ready for the next flush.
\<close>

theorem flush_refines_queue:
  assumes "finite U" and "within U prog s" and "reachable s" and "\<not> flushing s" and "well_behaved prog"
  shows "\<exists>res s'. drains prog [] (jobs s) res \<and> distinct res
           \<and> flush prog s = Some s' \<and> ran s' = ran s @ res \<and> jobs s' = [] \<and> \<not> flushing s'"
proof -
  have i: "distinct (jobs s)" "last_index s = -1" using reachable_inv [OF assms(3)] assms(4) by (simp_all add: sched_inv_def)
  then obtain res where r: "drains prog [] (jobs s) res"
    using drains_exists [OF assms(1), of prog "[]" "jobs s"] assms(2) unfolding within_def by auto
  let ?s = "s\<lparr>asked := False, flushing := True\<rparr>"
  obtain s' where s': "flush_from prog 0 ?s = Some s'" "drop (length (ran s)) (ran s') = res"
    "take (length (ran s)) (ran s') = ran s" "jobs s' = []" "\<not> flushing s'"
    using flush_from_spec [OF r assms(5), of ?s] i by auto
  then have "ran s' = ran s @ res" by (metis append_take_drop_id)
  then show ?thesis using r s' drains_distinct [OF r] i by (auto simp: flush_def)
qed

section \<open>After an exception\<close>

fun happens :: "'j happening list \<Rightarrow> 'j sched \<Rightarrow> 'j sched option" where
  "happens [] s = Some s"
| "happens (h # hs) s = (case happen h s of None \<Rightarrow> None | Some s' \<Rightarrow> happens hs s')"

lemma happen_frozen:
  assumes "sched_inv s" and "flushing s" and "happen h s = Some s'"
  shows "ran s' = ran s \<and> flushing s'"
  using assms by (cases h) (auto simp: sched_inv_def)

text \<open>
  A job that throws stops the scheduler for good: once a flush was left by an exception, no job
  ever runs again, whatever is queued, and no flush is asked for.
\<close>

theorem exception_freezes:
  assumes "reachable s" and "flushing s" and "happens hs s = Some s'"
  shows "ran s' = ran s \<and> flushing s' \<and> tasks s' = 0"
proof -
  have "happens hs s = Some s' \<Longrightarrow> sched_inv s \<Longrightarrow> flushing s \<Longrightarrow> ran s' = ran s \<and> flushing s' \<and> sched_inv s'" for s :: "'a sched"
  proof (induction hs arbitrary: s)
    case (Cons h hs)
    then obtain q where q: "happen h s = Some q" "happens hs q = Some s'" by (auto split: option.splits)
    show ?case using Cons.IH [OF q(2)] happen_inv [OF q(1)] happen_frozen [OF _ _ q(1)] Cons.prems by auto
  qed simp
  then show ?thesis using assms reachable_inv [OF assms(1)] by (auto simp: sched_inv_def)
qed

section \<open>Examples\<close>

text \<open>Two jobs: the first queues itself and the second again, and a third; nobody throws.\<close>

definition sample_prog :: "nat \<Rightarrow> nat \<Rightarrow> nat act list" where
  "sample_prog t j = (if j = 1 then [Queue 1, Queue 2, Queue 3, Dequeue 2] else [])"

definition sample_sched :: "nat sched" where
  "sample_sched = fst (perform [Queue 1, Queue 2] idle_sched)"

lemmas sched_simps = queue_job_def dequeue_job_def ask_flush_def idle_sched_def run_job_def end_flush_def

lemma sample_reachable: "reachable sample_sched"
  by (rule reachable.step [OF reachable.start, of "Calls [Queue 1, Queue 2]"]) (simp add: sample_sched_def)

lemma sample_within: "within {1, 2, 3} sample_prog sample_sched" "\<not> flushing sample_sched" "well_behaved sample_prog"
  by (auto simp: within_def sample_prog_def sample_sched_def sched_simps well_behaved_def)

lemma no_lost_wakeup_witness:
  "distinct (jobs sample_sched) \<and> tasks sample_sched \<le> 1
     \<and> (jobs sample_sched = [] \<or> tasks sample_sched = 1 \<or> batch sample_sched \<or> flushing sample_sched)"
  by (rule no_lost_wakeup [OF sample_reachable])

lemma flush_ends_witness: "\<exists>s'. flush sample_prog sample_sched = Some s'"
  by (rule flush_ends [OF _ sample_within(1) sample_reachable]) simp

lemma flush_refines_queue_witness:
  "\<exists>res s'. drains sample_prog [] (jobs sample_sched) res \<and> distinct res
     \<and> flush sample_prog sample_sched = Some s' \<and> ran s' = ran sample_sched @ res \<and> jobs s' = [] \<and> \<not> flushing s'"
  by (rule flush_refines_queue [OF _ sample_within(1) sample_reachable sample_within(2,3)]) simp

text \<open>A flush that was left by an exception.\<close>

definition failed_sched :: "nat sched" where
  "failed_sched = \<lparr>asked = False, flushing = True, jobs = [1], last_index = -1, batch = False, tasks = 0, ran = [1]\<rparr>"

lemma failed_reachable: "reachable failed_sched"
proof -
  have "happen (Calls [Queue 1]) idle_sched = Some (fst (perform [Queue 1] idle_sched))" by simp
  from reachable.step [OF reachable.start this] have "reachable (fst (perform [Queue (1 :: nat)] idle_sched))" .
  moreover have "happen (Microtask (\<lambda>t j. [Fail])) (fst (perform [Queue (1 :: nat)] idle_sched)) = Some failed_sched"
    by (simp add: sched_simps flush_def failed_sched_def flush_from.simps [of _ 0])
  ultimately show ?thesis by (rule reachable.step)
qed

lemma exception_freezes_witness:
  "ran (fst (perform [Queue 2] failed_sched)) = [1] \<and> flushing (fst (perform [Queue 2] failed_sched))
     \<and> tasks (fst (perform [Queue 2] failed_sched)) = 0"
  using exception_freezes [OF failed_reachable, of "[Calls [Queue 2]]" "fst (perform [Queue 2] failed_sched)"]
  by (simp add: failed_sched_def)

text \<open>
  A job that dequeues itself while it runs makes the flush skip the next job: the queue moves up
  under the running index. Job 2 was queued and never runs, and it is not in the queue afterwards.
\<close>

lemma self_dequeue_skips:
  "map_option (\<lambda>s. (ran s, jobs s)) (flush (\<lambda>t j. if j = 1 then [Dequeue 1] else []) sample_sched) = Some ([1], [])"
  by (simp add: flush_def sample_sched_def sched_simps flush_from.simps)

end
