(* ===== verification/Alpine_Data.thy ===== *)
theory Alpine_Data
  imports Js_Prelude
begin

text \<open>
  Data and errors in \<open>webgui/alpine-mini.js\<close>: the stack of data objects that an expression sees
  (\<open>F\<close>, \<open>N\<close> and the proxy \<open>$n\<close>), reading and writing a value by its path (\<open>Fn\<close>, \<open>he\<close>), and the
  handler of errors in expressions (\<open>lr\<close>, \<open>zn\<close>). Objects have their own properties only; names
  that every object inherits, accessors and the symbols of JavaScript are left out.
\<close>

section \<open>Values\<close>

datatype prim = Undefined | Null | Bool bool | Num int | Str string

datatype val = Prim prim | Obj "(string \<times> val) list"

fun falsy :: "val \<Rightarrow> bool" where
  "falsy (Prim Undefined) = True"
| "falsy (Prim Null) = True"
| "falsy (Prim (Bool b)) = (\<not> b)"
| "falsy (Prim (Num n)) = (n = 0)"
| "falsy (Prim (Str s)) = (s = [])"
| "falsy (Obj ps) = False"

fun put :: "string \<Rightarrow> 'a \<Rightarrow> (string \<times> 'a) list \<Rightarrow> (string \<times> 'a) list" where
  "put k v [] = [(k, v)]"
| "put k v ((k', v') # ps) = (if k' = k then (k, v) # ps else (k', v') # put k v ps)"

definition prop_of :: "(string \<times> val) list \<Rightarrow> string \<Rightarrow> val" where
  "prop_of ps k = (case map_of ps k of Some v \<Rightarrow> v | None \<Rightarrow> Prim Undefined)"

lemma map_of_put [simp]: "map_of (put k v ps) = (map_of ps)(k \<mapsto> v)"
  by (induction ps) (auto simp: fun_eq_iff)

lemma prop_of_put: "prop_of (put k v ps) k' = (if k' = k then v else prop_of ps k')"
  by (simp add: prop_of_def)

section \<open>Paths\<close>

text \<open>Reading a property: \<open>undefined\<close> and \<open>null\<close> have none.\<close>

fun read_prop :: "val \<Rightarrow> string \<Rightarrow> val js" where
  "read_prop (Obj ps) k = Value (prop_of ps k)"
| "read_prop (Prim Undefined) k = Throw ''TypeError''"
| "read_prop (Prim Null) k = Throw ''TypeError''"
| "read_prop (Prim p) k = Value (Prim Undefined)"

text \<open>\<open>Fn\<close>.\<close>

fun get_path :: "val \<Rightarrow> string list \<Rightarrow> val js" where
  "get_path t [] = Value t"
| "get_path t (k # ks) = js_bind (read_prop t k) (\<lambda>r. get_path r ks)"

text \<open>\<open>he\<close>, returning the changed value. A property of a string, number or boolean is not kept, and
  \<open>throw error\<close> names a variable that does not exist.\<close>

fun set_path :: "val \<Rightarrow> string list \<Rightarrow> val \<Rightarrow> val js" where
  "set_path t [] r = Throw ''ReferenceError''"
| "set_path (Prim p) [k] r = (if p = Undefined \<or> p = Null then Throw ''TypeError'' else Value (Prim p))"
| "set_path (Prim p) (k # l # ks) r = Throw ''TypeError''"
| "set_path (Obj ps) [k] r = Value (Obj (put k r ps))"
| "set_path (Obj ps) (k # l # ks) r =
     (let c = prop_of ps k; c' = (if falsy c then Obj [] else c)
      in js_bind (set_path c' (l # ks) r) (\<lambda>c''. Value (Obj (put k c'' ps))))"

text \<open>The path as it is written: \<open>split(".")\<close>.\<close>

definition read_at :: "val \<Rightarrow> string \<Rightarrow> val js" where
  "read_at t e = get_path t (split_on (CHR ''.'') e)"

definition write_at :: "val \<Rightarrow> string \<Rightarrow> val \<Rightarrow> val js" where
  "write_at t e r = set_path t (split_on (CHR ''.'') e) r"

text \<open>Nothing but objects and values that count as false lie on the way.\<close>

fun open_path :: "val \<Rightarrow> string list \<Rightarrow> bool" where
  "open_path t [] \<longleftrightarrow> False"
| "open_path (Prim p) ks \<longleftrightarrow> False"
| "open_path (Obj ps) [k] \<longleftrightarrow> True"
| "open_path (Obj ps) (k # l # ks) \<longleftrightarrow> falsy (prop_of ps k) \<or> open_path (prop_of ps k) (l # ks)"

lemma open_path_empty: "open_path (Obj []) (k # ks)"
  by (cases ks) (simp_all add: prop_of_def)

lemma set_path_open:
  "open_path t ks \<Longrightarrow> \<exists>t'. set_path t ks r = Value t' \<and> get_path t' ks = Value r"
proof (induction t ks r rule: set_path.induct)
  case (5 ps k l ks r)
  let ?c = "if falsy (prop_of ps k) then Obj [] else prop_of ps k"
  have "open_path ?c (l # ks)" using 5(2) open_path_empty by auto
  then obtain c where "set_path ?c (l # ks) r = Value c" "get_path c (l # ks) = Value r"
    using 5(1) [OF refl refl] by blast
  then show ?case by (auto simp: Let_def prop_of_put)
qed (auto simp: prop_of_put)

text \<open>
  A value written at a path is the value read there, and the objects that were missing are made;
  the way may lead over values that count as false, but not over other values that are no objects.
\<close>

theorem path_roundtrip:
  assumes "open_path t (split_on (CHR ''.'') e)"
  shows "\<exists>t'. write_at t e r = Value t' \<and> read_at t' e = Value r"
  using set_path_open [OF assms, of r] by (simp add: write_at_def read_at_def)

text \<open>Over a number the value is lost without an error.\<close>

lemma path_over_number:
  "write_at (Obj [(''a'', Prim (Num 5))]) ''a.b'' r = Value (Obj [(''a'', Prim (Num 5))])"
  by (simp add: write_at_def prop_of_def)

section \<open>The stack of data objects\<close>

type_synonym scope = "(string \<times> val) list"

text \<open>
  The objects of an element: its own stack, or that of the nearest ancestor with one. The list holds the
  stack of the element and of its ancestors, where they have one (\<open>F\<close>).
\<close>

fun closest_stack :: "scope list option list \<Rightarrow> scope list" where
  "closest_stack [] = []"
| "closest_stack (Some st # es) = st"
| "closest_stack (None # es) = closest_stack es"

text \<open>\<open>N\<close>: the stack of an element that gets the data \<open>e\<close>; \<open>r\<close> is the element whose objects follow.\<close>

definition add_scope :: "scope \<Rightarrow> scope list option list \<Rightarrow> scope list" where
  "add_scope e r = e # closest_stack r"

text \<open>The traps of the proxy \<open>$n\<close>.\<close>

definition scope_has :: "scope list \<Rightarrow> string \<Rightarrow> bool" where
  "scope_has ts k \<longleftrightarrow> (\<exists>t\<in>set ts. map_of t k \<noteq> None)"

fun scope_get :: "scope list \<Rightarrow> string \<Rightarrow> val" where
  "scope_get [] k = Prim Undefined"
| "scope_get (t # ts) k = (case map_of t k of Some v \<Rightarrow> v | None \<Rightarrow> scope_get ts k)"

definition scope_keys :: "scope list \<Rightarrow> string list" where
  "scope_keys ts = rev (remdups (rev (concat (map (map fst) ts))))"

text \<open>\<open>set\<close>: the first object that has the property, or else the last one.\<close>

fun scope_set :: "scope list \<Rightarrow> string \<Rightarrow> val \<Rightarrow> scope list js" where
  "scope_set [] k v = Throw ''TypeError''"
| "scope_set [t] k v = Value [put k v t]"
| "scope_set (t # u # ts) k v =
     (if map_of t k \<noteq> None then Value (put k v t # u # ts)
      else js_bind (scope_set (u # ts) k v) (\<lambda>ts'. Value (t # ts')))"

lemma scope_set_spec:
  "ts \<noteq> [] \<Longrightarrow> \<exists>ts'. scope_set ts k v = Value ts' \<and> scope_get ts' k = v
     \<and> (\<forall>k'. k' \<noteq> k \<longrightarrow> scope_get ts' k' = scope_get ts k')
     \<and> (\<exists>i t. i < length ts \<and> ts' = ts[i := put k v t] \<and> t = ts ! i)"
proof (induction ts k v rule: scope_set.induct)
  case (2 t k v)
  then show ?case by (auto intro!: exI [of _ 0])
next
  case (3 t u ts k v)
  show ?case
  proof (cases "map_of t k")
    case None
    then obtain ts' i where "scope_set (u # ts) k v = Value ts'" "scope_get ts' k = v"
      "\<forall>k'. k' \<noteq> k \<longrightarrow> scope_get ts' k' = scope_get (u # ts) k'" "i < length (u # ts)" "ts' = (u # ts)[i := put k v ((u # ts) ! i)]"
      using 3 by auto
    then show ?thesis using None by (auto intro!: exI [of _ "Suc i"] split: option.splits)
  qed (auto intro!: exI [of _ 0])
qed simp

text \<open>
  An assignment in an expression is seen by the next read, changes exactly one object of the
  stack, and no other name: it goes to the nearest object that has the name, or to the outermost one.
\<close>

theorem scope_assignment:
  assumes "ts \<noteq> []" and "k' \<noteq> k"
  shows "\<exists>ts' i. scope_set ts k v = Value ts' \<and> scope_get ts' k = v \<and> scope_get ts' k' = scope_get ts k'
           \<and> i < length ts \<and> ts' = ts[i := put k v (ts ! i)]"
  using scope_set_spec [OF assms(1), of k v] assms(2) by auto

section \<open>Errors in expressions\<close>

text \<open>What an expression throws: nothing (\<open>null\<close> or \<open>undefined\<close>), an object with a message, or another value.\<close>

datatype thrown = Nothing | Error_Object string | Other_Value

definition thrown_message :: "thrown \<Rightarrow> string" where
  "thrown_message t =
     (case t of Nothing \<Rightarrow> ''No error message given.'' | Error_Object m \<Rightarrow> m | Other_Value \<Rightarrow> ''undefined'')"

text \<open>\<open>zn\<close>: the text for \<open>console.warn\<close>; the error is thrown again by a timer.\<close>

definition expression_error :: "thrown \<Rightarrow> string option \<Rightarrow> string" where
  "expression_error t r =
     ''Alpine Expression Error: '' @ thrown_message t @ [newline, newline]
     @ (case r of Some (c # cs) \<Rightarrow> ''Expression: '' @ [CHR 0x22] @ (c # cs) @ [CHR 0x22, newline, newline] | _ \<Rightarrow> [])"

record 'a tried =
  result :: "'a option"
  console :: "string list"
  later :: "thrown list"

text \<open>\<open>lr\<close>: an exception never reaches the caller.\<close>

definition try_catch :: "string option \<Rightarrow> 'a + thrown \<Rightarrow> 'a tried" where
  "try_catch expr r =
     (case r of
        Inl v \<Rightarrow> \<lparr>result = Some v, console = [], later = []\<rparr>
      | Inr t \<Rightarrow> \<lparr>result = None, console = [expression_error t expr], later = [t]\<rparr>)"

section \<open>Examples\<close>

lemma path_roundtrip_witness:
  "\<exists>t'. write_at (Obj [(''a'', Prim Null)]) ''a.b.c'' (Prim (Num 1)) = Value t' \<and> read_at t' ''a.b.c'' = Value (Prim (Num 1))"
  by (rule path_roundtrip) (simp add: prop_of_def)

lemma scope_assignment_witness:
  "\<exists>ts' i. scope_set [[(''x'', Prim Null)], [(''y'', Prim Null)]] ''y'' (Prim (Bool True)) = Value ts'
     \<and> scope_get ts' ''y'' = Prim (Bool True) \<and> scope_get ts' ''x'' = scope_get [[(''x'', Prim Null)], [(''y'', Prim Null)]] ''x''
     \<and> i < length [[(''x'', Prim Null)], [(''y'', Prim Null)]]
     \<and> ts' = [[(''x'', Prim Null)], [(''y'', Prim Null)]][i := put ''y'' (Prim (Bool True)) ([[(''x'', Prim Null)], [(''y'', Prim Null)]] ! i)]"
  by (rule scope_assignment) simp_all

end
