(* ===== verification/Spec2Isabelle.thy ===== *)
theory Spec2Isabelle
  imports Command_Parser Config Process_Props Css_Error Css_List Css_Stringifier Css_Prefixer Autoprefixer
    Css_Lossless Css_Parse_Errors Candidate_Extraction Tailwind_Offsets Tailwind_Split Tailwind_Rules Tailwind_Contexts
    Tailwind_Expand Tailwind_Dedupe Did_You_Mean Value_Parser Value_Unit Css_Escape Tailwind_Cdn Alpine_Scheduler Alpine_Data
begin

text \<open>
  A verification library of supervisord, a process supervisor in Go with a web interface.

  \<^bold>\<open>The program.\<close> The daemon (Go) reads a configuration, starts the programs it names in the order of
  their dependencies, watches and restarts them, and serves a web page. The page loads two bundled
  files: \<open>src/webgui/tailwind.js\<close>, the Tailwind Play CDN, which compiles a style sheet for the classes of
  the page in the browser, with PostCSS and Autoprefixer inside, and \<open>src/webgui/alpine-mini.js\<close>, the
  Alpine framework, which keeps the page in step with its data. Both files are minified: one line holds
  many functions, and the comments of the theories name the function or class that a definition models
  by the name it has in the file or, where that is a letter, by the class it belongs to.

  \<^bold>\<open>The style sheet.\<close> A change of the document makes the observer call the loop \<open>pf\<close> (theory
  \<open>Tailwind_Cdn\<close>: state of the page, one rebuild, overlapping rebuilds, the proxy of the configuration).
  It hands the classes to the compiler, which is a parameter there. Parts of the compiler have
  theories of their own. \<open>Tailwind_Contexts\<close> finds the context of a source (\<open>Vh\<close>); \<open>Tailwind_Expand\<close> reads
  the content and puts the rules where the directives are (\<open>expandTailwindAtRules\<close>), with the rules that
  \<open>Tailwind_Rules\<close> generates for the candidates and keeps in the caches of the context (\<open>generateRules\<close>),
  in the order that \<open>Tailwind_Offsets\<close> gives them (the class of offsets); \<open>Tailwind_Split\<close> takes the name of
  a class apart (\<open>ve\<close>, \<open>x_\<close>, \<open>T_\<close>), and \<open>Css_Escape\<close> writes it into a selector and reads it back (cssesc
  and unesc). The finished sheet goes through passes (\<open>Tailwind_Passes\<close>: \<open>@apply\<close> rules set apart, neighbouring
  rules joined; \<open>Tailwind_Dedupe\<close>: duplicate declarations removed). \<open>Value_Parser\<close> parses, prints and changes
  property values, where \<open>theme()\<close> and \<open>screen()\<close> are called; \<open>Value_Unit\<close> takes a number off a value, and
  \<open>Did_You_Mean\<close> makes the suggestion in the error of an unknown key of the theme. Then there are the extraction of candidates from a text
  (\<open>Candidate_Extraction\<close>) through the
  cache \<open>QuickLRU\<close> (\<open>Quick_Lru\<close>); the PostCSS tokenizer (\<open>Css_Tokenizer\<close>), parser (\<open>Css_Parser\<close>) and
  stringifier (\<open>Css_Stringifier\<close>), the lists and selectors (\<open>Css_List\<close>), positions in the text
  (\<open>Css_Input\<close>) and syntax errors (\<open>Css_Error\<close>); the plugin Autoprefixer (\<open>Autoprefixer\<close>) and what it does
  to a declaration (\<open>Css_Prefixer\<close>). \<open>Js_Cache\<close> is the interface of caches, a locale that is interpreted
  on \<open>QuickLRU\<close> and on the map of Autoprefixer.

  The main theorems: what was parsed is printed as it was written (\<open>Css_Lossless\<close>), because the tokens are
  the text, every step of the parser keeps the text, and the stringifier prints what the parser recorded;
  parsing ends on every text, with a sheet or one of nine errors (\<open>Css_Parse_Errors\<close>); the caches of the
  stringifier, of Autoprefixer and of the extraction are invisible; QuickLRU refines a map, holds a bounded
  number of entries and keeps what was used lately; the binary search for positions agrees with counting lines; prefixed
  copies line up, are not inserted twice and can be removed without a trace; without overlapping calls the
  style sheet is the compilation of the classes that were seen, and no rebuild triggers another one;
  every rule of a candidate in the content is in the style sheet, which takes the places of the directives
  in the expanded sheet, in the order of layers and variants; it is generated once, and the rules of an
  invalid candidate never come back; a source keeps a context that was not disposed of, unless its
  last call threw; a name is split into exactly the parts it was joined from, a utility is found under
  its name, and a name that was escaped is read back; the passes keep every declaration that counts under its selectors; a value is
  printed as it was written and its nodes are where their indices say; the banded table of the
  suggestion is the edit distance within its limit.

  \<^bold>\<open>Alpine.\<close> \<open>Alpine_Scheduler\<close> has the queue of jobs with its flush and transactions: every reachable state
  has no lost wake-up, a flush runs the jobs of an abstract queue, each at most once, and ends.
  \<open>Alpine_Data\<close> has paths into data, the stack of scopes and the error handler.

  \<^bold>\<open>The daemon.\<close> \<open>Go_Prelude\<close>, \<open>Go_Map\<close>, \<open>Go_Sort\<close> and \<open>Go_Path\<close> model what the Go code uses of its
  library (results, panics, strings as lists of bytes, maps, sorting, paths); the locales \<open>go_map\<close> and
  \<open>go_sort\<close> are its interfaces. \<open>Command_Parser\<close> is \<open>src/process/command_parser.go\<close>; \<open>Config_Entry\<close>,
  \<open>String_Expr\<close>, \<open>Process_Group\<close> and \<open>Config\<close> are \<open>src/config\<close> but for the INI reader, which is the
  locale \<open>ini_section\<close>; \<open>Process_Sort\<close> is the start order; \<open>Process\<close> is the life cycle of one process in
  \<open>src/process/process.go\<close>, a step relation that interleaves the callers of Start and Stop, the loop of
  run, the monitor and the waiter, and \<open>Process_Props\<close> has its theorems (at most one instance at any time; which states are reported).

  \<^bold>\<open>Conventions.\<close> A JavaScript call that may throw has a result in \<open>js\<close> (\<open>Value\<close> or \<open>Throw\<close> with the
  message), a Go call one in the type of \<open>Go_Prelude\<close>, with panics. Strings are lists of \<open>char\<close>, so
  texts are those of characters below 256, but for \<open>Css_Escape\<close>, where a text is a list of UTF-16 units with
  surrogate pairs. What throws may have changed the state before, so \<open>Tailwind_Contexts\<close> returns the state
  with the result or the error. Loops are recursive functions with their
  termination proved; the ones that may not end (\<open>sortDepends\<close>, \<open>Eval\<close>) are partial functions, and the
  theorems say when they return. No fuel is used. Time, the file system, the operating system, the
  extractors, the jobs of Alpine, the data of caniuse and the browser are parameters.

  \<^bold>\<open>Not modelled.\<close> The servers, the logging, the process manager and the event listeners of the daemon; the
  source maps of PostCSS; the positions that the parser records; the hacks of Autoprefixer for single
  properties; Tailwind's selector parser, tables of utilities, the choice among the rules that match a
  name and the expansion of \<open>@apply\<close>, \<open>theme()\<close> and \<open>screen()\<close>; Alpine's reactive
  proxies, directives and transitions. The libraries that are bundled but only supply data (caniuse,
  color names) or match file names (micromatch) are left out.
\<close>

end
